(* ===== verification/Prelude.thy ===== *)
theory Prelude
  imports Main
begin

text \<open>
  What the components share: the results of C functions, the machine integers the program
  depends on, C strings and byte buffers, and the generic list lemmas.

  A C function that may not return, or that may end the process, has a result of type
  \<open>'a res\<close>: \<open>None\<close> is a call that never returns, \<open>Err e\<close> a call that ends the process or
  leaves the defined behaviour of C (an access outside an object, a null or dangling
  pointer), and \<open>Ok x\<close> a normal return.
\<close>

named_theorems cframe \<open>fields that an operation leaves alone\<close>

section \<open>Results\<close>

datatype err =
    Exit int       \<comment> \<open>exit(n), err(n, ...)\<close>
  | Abort          \<comment> \<open>a failed assert\<close>
  | OutOfBounds    \<comment> \<open>an access outside the object\<close>
  | NullDeref      \<comment> \<open>an access through a null or dangling pointer\<close>

type_synonym 'a res = "(err + 'a) option"

abbreviation Ok :: "'a \<Rightarrow> 'a res" where
  "Ok x \<equiv> Some (Inr x)"

abbreviation Err :: "err \<Rightarrow> 'a res" where
  "Err e \<equiv> Some (Inl e)"

definition bindR :: "'a res \<Rightarrow> ('a \<Rightarrow> 'b res) \<Rightarrow> 'b res" where
  "bindR m f = (case m of None \<Rightarrow> None | Some (Inl e) \<Rightarrow> Err e | Some (Inr x) \<Rightarrow> f x)"

text \<open>The C macro \<open>assert\<close>.\<close>

definition assertR :: "bool \<Rightarrow> unit res" where
  "assertR b = (if b then Ok () else Err Abort)"

lemma bindR_simps [simp]:
  "bindR None f = None"
  "bindR (Err e) f = Err e"
  "bindR (Ok x) f = f x"
  by (simp_all add: bindR_def)

lemma assertR_simps [simp]:
  "b \<Longrightarrow> assertR b = Ok ()"
  "\<not> b \<Longrightarrow> assertR b = Err Abort"
  by (simp_all add: assertR_def)

lemma bindR_assoc: "bindR (bindR m f) g = bindR m (\<lambda>x. bindR (f x) g)"
  by (simp add: bindR_def split: option.split sum.split)

lemma bindR_eq_Ok: "bindR m f = Ok y \<longleftrightarrow> (\<exists>x. m = Ok x \<and> f x = Ok y)"
  by (simp add: bindR_def split: option.split sum.split)

lemma bindR_OkE [elim]:
  assumes "bindR m f = Ok y"
  obtains x where "m = Ok x" and "f x = Ok y"
  using assms by (auto simp: bindR_eq_Ok)

lemma bindR_cong [fundef_cong]:
  "m = m' \<Longrightarrow> (\<And>x. m' = Ok x \<Longrightarrow> f x = g x) \<Longrightarrow> bindR m f = bindR m' g"
  by (auto simp: bindR_def split: option.split sum.split)

section \<open>Machine integers\<close>

text \<open>
  \<open>i32 x\<close> is the value a 32-bit two's complement \<open>int\<close> holds after \<open>x\<close> was stored in it:
  the conversion of a \<open>long\<close> to \<open>int32_t\<close>, and what the machine leaves where a signed
  addition overflows.
\<close>

definition i32 :: "int \<Rightarrow> int" where
  "i32 x = (x + 2147483648) mod 4294967296 - 2147483648"

abbreviation INT_MAX :: int where "INT_MAX \<equiv> 2147483647"
abbreviation INT_MIN :: int where "INT_MIN \<equiv> - 2147483648"
abbreviation LONG_MAX :: int where "LONG_MAX \<equiv> 9223372036854775807"
abbreviation LONG_MIN :: int where "LONG_MIN \<equiv> - 9223372036854775808"

lemma i32_id [simp]: "INT_MIN \<le> x \<Longrightarrow> x \<le> INT_MAX \<Longrightarrow> i32 x = x"
  by (simp add: i32_def)

lemma i32_range: "INT_MIN \<le> i32 x \<and> i32 x \<le> INT_MAX"
proof -
  have "0 \<le> (x + 2147483648) mod 4294967296" "(x + 2147483648) mod 4294967296 < 4294967296"
    by simp_all
  then show ?thesis unfolding i32_def by linarith
qed

text \<open>Wrapping at the upper end only makes a number smaller, and commutes with addition.\<close>

lemma i32_le: "INT_MIN \<le> x \<Longrightarrow> i32 x \<le> x"
  using zmod_le_nonneg_dividend [of "x + 2147483648" 4294967296] by (simp add: i32_def)

lemma i32_add: "i32 (i32 x + y) = i32 (x + y)"
proof -
  have "(x + 2147483648) mod 4294967296 - 2147483648 + y + 2147483648 = (x + 2147483648) mod 4294967296 + y" by simp
  then show ?thesis unfolding i32_def by (simp only: mod_add_left_eq) (simp add: ac_simps)
qed

lemma i32_idem [simp]: "i32 (i32 x) = i32 x"
  using i32_range [of x] by simp

section \<open>C strings and buffers\<close>

abbreviation NUL :: char where "NUL \<equiv> CHR 0x00"
abbreviation CR :: char where "CR \<equiv> CHR 0x0D"
abbreviation LF :: char where "LF \<equiv> CHR 0x0A"
abbreviation SP :: char where "SP \<equiv> CHR '' ''"

abbreviation CRLF :: string where "CRLF \<equiv> [CR, LF]"

text \<open>The C string at the start of a region of memory: the bytes before the first NUL.\<close>

definition cstr :: "char list \<Rightarrow> string" where
  "cstr b = takeWhile (\<lambda>x. x \<noteq> NUL) b"

lemma cstr_simps [simp]:
  "cstr [] = []" "cstr (c # b) = (if c = NUL then [] else c # cstr b)"
  by (simp_all add: cstr_def)

lemma cstr_append_NUL [simp]: "NUL \<notin> set s \<Longrightarrow> cstr (s @ NUL # b) = s"
  by (auto simp: cstr_def takeWhile_append)

lemma cstr_id: "NUL \<notin> set s \<Longrightarrow> cstr s = s"
  by (auto simp: cstr_def)

lemma NUL_notin_cstr [simp]: "NUL \<notin> set (cstr b)"
  by (auto simp: cstr_def dest: set_takeWhileD)

lemma cstr_prefix: "\<exists>r. b = cstr b @ r"
  unfolding cstr_def by (metis takeWhile_dropWhile_id)

text \<open>Overwriting \<open>length xs\<close> bytes of a buffer at an offset (\<open>memcpy\<close>, \<open>read\<close>).\<close>

definition blit :: "'a list \<Rightarrow> nat \<Rightarrow> 'a list \<Rightarrow> 'a list" where
  "blit buf off xs = take off buf @ xs @ drop (off + length xs) buf"

lemma length_blit [simp]:
  "off + length xs \<le> length buf \<Longrightarrow> length (blit buf off xs) = length buf"
  by (simp add: blit_def)

lemma take_blit: "off \<le> length buf \<Longrightarrow> take off (blit buf off xs) = take off buf"
  by (simp add: blit_def)

lemma take_blit_through:
  "off \<le> length buf \<Longrightarrow> take (off + length xs) (blit buf off xs) = take off buf @ xs"
  by (simp add: blit_def)

definition memwrite :: "'a list \<Rightarrow> int \<Rightarrow> 'a list \<Rightarrow> 'a list res" where
  "memwrite buf off xs =
     (if 0 \<le> off \<and> nat off + length xs \<le> length buf then Ok (blit buf (nat off) xs)
      else Err OutOfBounds)"

section \<open>Lists\<close>

lemma take_update_last: "n < length xs \<Longrightarrow> take (Suc n) (xs[n := v]) = take n xs @ [v]"
  by (simp add: take_Suc_conv_app_nth)

lemma drop_past: "length xs < n \<Longrightarrow> drop n (xs @ x # r) = drop (n - Suc (length xs)) r"
  by (simp add: drop_Cons')

lemma takeWhile_not_in: "x \<notin> set (takeWhile (\<lambda>y. y \<noteq> x) xs)"
  by (auto dest: set_takeWhileD)

end
