(* ===== verification/Fsm.thy ===== *)
theory Fsm
  imports Prelude
begin

text \<open>
  The states of a connection (\<open>fsm.h\<close>). C compares the enumeration's values as integers
  (\<open>conn_set_state\<close> asserts \<open>conn_min_state < state < conn_max_state\<close>), so the type is a
  linear order by position, and \<open>state_text\<close> indexes an array of names that has one entry
  less than the enumeration.
\<close>

datatype conn_states =
    conn_min_state
  | conn_listening
  | conn_new_cmd
  | conn_waiting
  | conn_read
  | conn_parse_cmd
  | conn_read_value
  | conn_swallow
  | conn_rpc_wait
  | conn_rpc_done
  | conn_write
  | conn_mwrite
  | conn_timeout
  | conn_timeout_post
  | conn_closing
  | conn_max_state

text \<open>The integer C gives an enumerator.\<close>

fun state_num :: "conn_states \<Rightarrow> nat" where
  "state_num conn_min_state = 0"
| "state_num conn_listening = 1"
| "state_num conn_new_cmd = 2"
| "state_num conn_waiting = 3"
| "state_num conn_read = 4"
| "state_num conn_parse_cmd = 5"
| "state_num conn_read_value = 6"
| "state_num conn_swallow = 7"
| "state_num conn_rpc_wait = 8"
| "state_num conn_rpc_done = 9"
| "state_num conn_write = 10"
| "state_num conn_mwrite = 11"
| "state_num conn_timeout = 12"
| "state_num conn_timeout_post = 13"
| "state_num conn_closing = 14"
| "state_num conn_max_state = 15"

lemma state_num_inj: "state_num s = state_num t \<longleftrightarrow> s = t"
  by (cases s; cases t; simp)

instantiation conn_states :: linorder
begin

definition less_eq_conn_states :: "conn_states \<Rightarrow> conn_states \<Rightarrow> bool" where
  "less_eq_conn_states s t \<longleftrightarrow> state_num s \<le> state_num t"

definition less_conn_states :: "conn_states \<Rightarrow> conn_states \<Rightarrow> bool" where
  "less_conn_states s t \<longleftrightarrow> state_num s < state_num t"

instance
  by standard (auto simp: less_eq_conn_states_def less_conn_states_def state_num_inj)

end

lemmas state_order_defs = less_eq_conn_states_def less_conn_states_def

definition statenames :: "string list" where
  "statenames =
     [''conn_min_state'', ''conn_listening'', ''conn_new_cmd'', ''conn_waiting'', ''conn_read'',
      ''conn_parse_cmd'', ''conn_read_value'', ''conn_swallow'', ''conn_rpc_wait'',
      ''conn_rpc_done'', ''conn_write'', ''conn_mwrite'', ''conn_timeout'',
      ''conn_timeout_post'', ''conn_closing'']"

text \<open>Convert a state name to a human readable form.\<close>

definition state_text :: "conn_states \<Rightarrow> string res" where
  "state_text s =
     (if state_num s < length statenames then Ok (statenames ! state_num s) else Err OutOfBounds)"

text \<open>The states \<open>conn_set_state\<close> accepts.\<close>

definition proper_state :: "conn_states \<Rightarrow> bool" where
  "proper_state s \<longleftrightarrow> conn_min_state < s \<and> s < conn_max_state"

lemma proper_state_iff: "proper_state s \<longleftrightarrow> s \<noteq> conn_min_state \<and> s \<noteq> conn_max_state"
  by (cases s) (simp_all add: proper_state_def less_conn_states_def)

lemma proper_state_simps [simp]:
  "proper_state conn_listening" "proper_state conn_new_cmd" "proper_state conn_waiting"
  "proper_state conn_read" "proper_state conn_parse_cmd" "proper_state conn_read_value"
  "proper_state conn_swallow" "proper_state conn_rpc_wait" "proper_state conn_rpc_done"
  "proper_state conn_write" "proper_state conn_mwrite" "proper_state conn_timeout"
  "proper_state conn_timeout_post" "proper_state conn_closing"
  "\<not> proper_state conn_min_state" "\<not> proper_state conn_max_state"
  by (simp_all add: proper_state_iff)

lemma state_text_proper: "proper_state s \<Longrightarrow> \<exists>t. state_text s = Ok t"
  by (cases s) (simp_all add: state_text_def statenames_def)

lemma distinct_statenames: "distinct statenames"
  by (simp add: statenames_def)

lemma state_text_inj:
  assumes "state_text s = Ok t" and "state_text s' = Ok t"
  shows "s = s'"
proof -
  have "state_num s < length statenames" "state_num s' < length statenames"
    and "statenames ! state_num s = statenames ! state_num s'"
    using assms by (auto simp: state_text_def split: if_splits)
  then have "state_num s = state_num s'"
    using distinct_statenames nth_eq_iff_index_eq by blast
  then show ?thesis by (simp add: state_num_inj)
qed

end
