(* ===== verification/Env.thy ===== *)
theory Env
  imports Prelude Complex_Main
begin

text \<open>
  What the program asks of its surroundings. Every answer of the allocator, of libevent, of
  the sockets and of the random number generators is a parameter: the record \<open>env\<close> holds
  the answers that will be given and what was sent so far, and each call takes the next one.

  \<^item> \<open>alloc_ok k\<close> says whether the \<open>k\<close>-th allocation (\<open>malloc\<close>, \<open>calloc\<close>, \<open>realloc\<close>) succeeds.
  \<^item> \<open>event_ok k\<close> says whether the \<open>k\<close>-th \<open>event_add\<close> or \<open>event_del\<close> succeeds.
  \<^item> \<open>sock_in fd\<close> is what the peer of \<open>fd\<close> will deliver, chunk by chunk. A non-blocking
    \<open>read\<close> of \<open>n\<close> bytes returns at most \<open>n\<close> of them and leaves the rest for the next read;
    an exhausted list is a peer that is silent (EAGAIN).
  \<^item> \<open>sock_out fd\<close> is how much each \<open>sendmsg\<close> on \<open>fd\<close> will accept; \<open>wire fd\<close> collects the
    bytes that were sent.
    A count that is negative as an \<open>int\<close> exceeds every buffer as a \<open>size_t\<close>: the call fails (EFAULT) and reads nothing.
  \<^item> \<open>junk k i\<close> is what byte \<open>i\<close> of memory holds before the program writes it, where \<open>k\<close> counts the allocations.
  \<^item> \<open>gauss k sigma\<close> is the \<open>k\<close>-th draw of \<open>gsl_ran_gaussian\<close>, \<open>rands k\<close> the \<open>k\<close>-th \<open>rand()\<close>.
\<close>

datatype rd =
    Data "char list"   \<comment> \<open>bytes in the receive queue; the empty chunk is the end of the stream\<close>
  | RdAgain            \<comment> \<open>-1 with EAGAIN or EWOULDBLOCK\<close>
  | RdErr              \<comment> \<open>-1 with another errno\<close>

datatype sd =
    Sent nat           \<comment> \<open>how many bytes the socket accepts\<close>
  | SdAgain
  | SdErr

record env =
  alloc_ok :: "nat \<Rightarrow> bool"
  allocs :: nat
  event_ok :: "nat \<Rightarrow> bool"
  events :: nat
  sock_in :: "int \<Rightarrow> rd list"
  sock_out :: "int \<Rightarrow> sd list"
  wire :: "int \<Rightarrow> char list"
  junk :: "nat \<Rightarrow> nat \<Rightarrow> char"
  gauss :: "nat \<Rightarrow> real \<Rightarrow> real"
  draws :: nat
  rands :: "nat \<Rightarrow> int"
  nrand :: nat

text \<open>An environment where every request succeeds and every peer is silent.\<close>

definition calm_env :: env where
  "calm_env =
     \<lparr>alloc_ok = \<lambda>_. True, allocs = 0, event_ok = \<lambda>_. True, events = 0, sock_in = \<lambda>_. [],
      sock_out = \<lambda>_. [], wire = \<lambda>_. [], junk = \<lambda>_ _. NUL, gauss = \<lambda>_ _. 0, draws = 0, rands = \<lambda>_. 0, nrand = 0\<rparr>"

text \<open>Memory is available from now on.\<close>

definition mem_ok :: "env \<Rightarrow> bool" where
  "mem_ok e \<longleftrightarrow> (\<forall>k \<ge> allocs e. alloc_ok e k)"

text \<open>The next allocation.\<close>

definition alloc :: "env \<Rightarrow> bool \<times> env" where
  "alloc e = (alloc_ok e (allocs e), e\<lparr>allocs := Suc (allocs e)\<rparr>)"

text \<open>The contents of \<open>n\<close> bytes that were allocated last and not written yet.\<close>

definition unwritten :: "env \<Rightarrow> nat \<Rightarrow> char list" where
  "unwritten e n = map (junk e (allocs e)) [0..<n]"

lemma length_unwritten [simp]: "length (unwritten e n) = n"
  by (simp add: unwritten_def)

text \<open>The next call of \<open>event_add\<close> or \<open>event_del\<close>: whether it did not return -1.\<close>

definition event_call :: "env \<Rightarrow> bool \<times> env" where
  "event_call e = (event_ok e (events e), e\<lparr>events := Suc (events e)\<rparr>)"

definition gsl_ran_gaussian :: "env \<Rightarrow> real \<Rightarrow> real \<times> env" where
  "gsl_ran_gaussian e sigma = (gauss e (draws e) sigma, e\<lparr>draws := Suc (draws e)\<rparr>)"

definition rand :: "env \<Rightarrow> int \<times> env" where
  "rand e = (rands e (nrand e), e\<lparr>nrand := Suc (nrand e)\<rparr>)"

text \<open>Conversion of a \<open>double\<close> to an integer type: towards zero.\<close>

definition trunc :: "real \<Rightarrow> int" where
  "trunc x = (if 0 \<le> x then \<lfloor>x\<rfloor> else \<lceil>x\<rceil>)"

text \<open>The result of \<open>read\<close>: \<open>Data bs\<close> for \<open>length bs\<close> bytes read.\<close>

definition sys_read :: "env \<Rightarrow> int \<Rightarrow> int \<Rightarrow> rd \<times> env" where
  "sys_read e fd n =
     (if n < 0 then (RdErr, e)
      else case sock_in e fd of
        [] \<Rightarrow> (RdAgain, e)
      | Data bs # r \<Rightarrow>
          (Data (take (nat n) bs),
           e\<lparr>sock_in := (sock_in e)(fd := (if drop (nat n) bs = [] then r else Data (drop (nat n) bs) # r))\<rparr>)
      | x # r \<Rightarrow> (x, e\<lparr>sock_in := (sock_in e)(fd := r)\<rparr>))"

text \<open>The result of \<open>sendmsg\<close> for a message with the given bytes.\<close>

definition sys_send :: "env \<Rightarrow> int \<Rightarrow> char list \<Rightarrow> sd \<times> env" where
  "sys_send e fd bs =
     (case sock_out e fd of
        [] \<Rightarrow> (SdAgain, e)
      | Sent k # r \<Rightarrow>
          (Sent (min k (length bs)),
           e\<lparr>sock_out := (sock_out e)(fd := r), wire := (wire e)(fd := wire e fd @ take k bs)\<rparr>)
      | x # r \<Rightarrow> (x, e\<lparr>sock_out := (sock_out e)(fd := r)\<rparr>))"

text \<open>The bytes that wait in the receive queue.\<close>

fun rd_bytes :: "rd \<Rightarrow> char list" where
  "rd_bytes (Data bs) = bs"
| "rd_bytes RdAgain = []"
| "rd_bytes RdErr = []"

definition incoming :: "env \<Rightarrow> int \<Rightarrow> char list" where
  "incoming e fd = concat (map rd_bytes (sock_in e fd))"

lemma alloc_pair [simp]:
  "fst (alloc e) = alloc_ok e (allocs e)"
  "snd (alloc e) = e\<lparr>allocs := Suc (allocs e)\<rparr>"
  by (simp_all add: alloc_def)

lemma mem_okD [simp]: "mem_ok e \<Longrightarrow> alloc_ok e (allocs e)"
  by (simp add: mem_ok_def)

lemma mem_ok_Suc [simp]: "mem_ok e \<Longrightarrow> mem_ok (e\<lparr>allocs := Suc (allocs e)\<rparr>)"
  by (simp add: mem_ok_def)

lemma mem_ok_calm [simp]: "mem_ok calm_env"
  by (simp add: mem_ok_def calm_env_def)

lemma event_call_pair [simp]:
  "fst (event_call e) = event_ok e (events e)"
  "snd (event_call e) = e\<lparr>events := Suc (events e)\<rparr>"
  by (simp_all add: event_call_def)

lemma sys_read_stream:
  "sys_read e fd n = (r, e') \<Longrightarrow> incoming e fd = rd_bytes r @ incoming e' fd"
  by (auto simp: sys_read_def incoming_def split: list.splits rd.splits if_splits)

lemma sys_read_length: "sys_read e fd n = (Data bs, e') \<Longrightarrow> int (length bs) \<le> n"
  by (auto simp: sys_read_def split: list.splits rd.splits if_splits)

lemma sys_read_frame:
  "sys_read e fd n = (r, e') \<Longrightarrow>
     alloc_ok e' = alloc_ok e \<and> allocs e' = allocs e \<and> event_ok e' = event_ok e \<and>
     events e' = events e \<and> wire e' = wire e \<and> sock_out e' = sock_out e"
  by (auto simp: sys_read_def split: list.splits rd.splits if_splits)

lemma sys_read_other: "sys_read e fd n = (r, e') \<Longrightarrow> fd' \<noteq> fd \<Longrightarrow> sock_in e' fd' = sock_in e fd'"
  by (auto simp: sys_read_def split: list.splits rd.splits if_splits)

lemma sys_send_wire:
  "sys_send e fd bs = (Sent k, e') \<Longrightarrow> k \<le> length bs \<and> wire e' fd = wire e fd @ take k bs"
  by (auto simp: sys_send_def min_def split: list.splits sd.splits)

lemma sys_send_fail:
  "sys_send e fd bs = (r, e') \<Longrightarrow> (\<forall>k. r \<noteq> Sent k) \<Longrightarrow> wire e' = wire e"
  by (auto simp: sys_send_def split: list.splits sd.splits)

lemma sys_send_frame:
  "sys_send e fd bs = (r, e') \<Longrightarrow>
     alloc_ok e' = alloc_ok e \<and> allocs e' = allocs e \<and> event_ok e' = event_ok e \<and>
     events e' = events e \<and> sock_in e' = sock_in e"
  by (auto simp: sys_send_def split: list.splits sd.splits)

end
