(* ===== verification/Items.thy ===== *)
theory Items
  imports Env "HOL-Library.Word"
begin

text \<open>
  \<open>items.h\<close> and \<open>items.c\<close>: the one item the server holds. An item is a header followed by its
  bytes: the key with a trailing space and a NUL, the flags and the data length as text, and
  the data. A pointer into the item is the list of the bytes from there to the end of the
  allocation, so a read of more bytes than the list has leaves the object.
  \<open>item_remove\<close> and \<open>item_update\<close> have empty bodies and no counterpart here.
\<close>

record item =
  nkey :: "8 word"      \<comment> \<open>key length with the trailing space, without the NUL\<close>
  nsuffix :: "8 word"   \<comment> \<open>length of the flags and data-length text\<close>
  nbytes :: int         \<comment> \<open>size of the data\<close>
  data :: "char list"   \<comment> \<open>the bytes of the allocation from \<open>data\<close> on\<close>

definition ITEM_key :: "item \<Rightarrow> char list" where
  "ITEM_key it = data it"

definition ITEM_suffix :: "item \<Rightarrow> char list" where
  "ITEM_suffix it = drop (unat (nkey it) + 1) (data it)"

definition fixed_value :: "char list" where
  "fixed_value = ''key '' @ [NUL] @ ''0 5'' @ CRLF @ ''hello'' @ CRLF"

text \<open>\<open>malloc\<close> of the header and seven bytes of data, then a \<open>memcpy\<close> of seven bytes.\<close>

definition item_init_system :: "env \<Rightarrow> (item \<times> env) res" where
  "item_init_system e =
     (case alloc e of (ok, e) \<Rightarrow>
        if ok then
          Ok (\<lparr>nkey = 4, nsuffix = 5, nbytes = 7, data = take 7 fixed_value\<rparr>, e)
        else Err NullDeref)"

text \<open>Lookup of a key: the fixed item, whatever the key is. The global is null until
  \<open>item_init_system\<close> has run.\<close>

definition item_get :: "item option \<Rightarrow> string \<Rightarrow> nat \<Rightarrow> item option" where
  "item_get fixed_item key n = fixed_item"

text \<open>
  The layout the comment in \<open>items.h\<close> gives: key, NUL, suffix and data fill the allocation.
\<close>

definition item_complete :: "item \<Rightarrow> bool" where
  "item_complete it \<longleftrightarrow>
     0 \<le> nbytes it \<and>
     length (data it) = unat (nkey it) + 1 + unat (nsuffix it) + nat (nbytes it)"

text \<open>The sizes are those of an \<open>int\<close>: the length of suffix and data does not overflow.\<close>

definition sized :: "item \<Rightarrow> bool" where
  "sized it \<longleftrightarrow> 0 \<le> nbytes it \<and> int (unat (nsuffix it)) + nbytes it \<le> INT_MAX"

lemma sized_length:
  assumes "sized it"
  shows "i32 (int (unat (nsuffix it)) + nbytes it) = int (unat (nsuffix it) + nat (nbytes it))"
proof -
  have "0 \<le> nbytes it" "int (unat (nsuffix it)) + nbytes it \<le> INT_MAX" using assms by (simp_all add: sized_def)
  moreover from this have "INT_MIN \<le> int (unat (nsuffix it)) + nbytes it"
    using of_nat_0_le_iff [of "unat (nsuffix it)"] by linarith
  ultimately show ?thesis by (simp only: i32_id of_nat_add int_nat_eq if_True)
qed

text \<open>What a hit sends: \<open>VALUE \<close>, the key, and the suffix with the data.\<close>

definition item_response :: "item \<Rightarrow> string" where
  "item_response it =
     ''VALUE '' @ take (unat (nkey it)) (ITEM_key it) @
     take (unat (nsuffix it) + nat (nbytes it)) (ITEM_suffix it)"

lemma item_complete_suffix:
  "item_complete it \<Longrightarrow> length (ITEM_suffix it) = unat (nsuffix it) + nat (nbytes it)"
  by (simp add: item_complete_def ITEM_suffix_def)

lemma item_complete_key: "item_complete it \<Longrightarrow> unat (nkey it) \<le> length (ITEM_key it)"
  by (simp add: item_complete_def ITEM_key_def)

text \<open>The item with all of \<open>fixed_value\<close> is complete and gives the reply of the comment.\<close>

definition whole_item :: item where
  "whole_item = \<lparr>nkey = 4, nsuffix = 5, nbytes = 7, data = fixed_value\<rparr>"

lemma whole_item_complete: "item_complete whole_item" "sized whole_item"
  by (simp_all add: item_complete_def whole_item_def fixed_value_def sized_def)

lemma whole_item_response:
  "item_response whole_item = ''VALUE key 0 5'' @ CRLF @ ''hello'' @ CRLF"
  by (simp add: item_response_def whole_item_def fixed_value_def ITEM_key_def ITEM_suffix_def)

section \<open>Properties\<close>

text \<open>
  The item that \<open>item_init_system\<close> builds is too short for its own header: the allocation
  holds seven bytes of data, but a reply reads \<open>nsuffix + nbytes = 12\<close> bytes from the suffix,
  of which only two exist.
\<close>

lemma item_init_system_short:
  assumes "item_init_system e = Ok (it, e')"
  shows "\<not> item_complete it \<and> length (ITEM_suffix it) = 2 \<and>
    int (unat (nsuffix it)) + nbytes it = 12 \<and> length (data it) = 7"
  using assms
  by (auto simp: item_init_system_def alloc_def item_complete_def ITEM_suffix_def fixed_value_def
      split: if_splits)

end
