(* ===== verification/Stats.thy ===== *)
theory Stats
  imports Env "HOL-Library.Word" "HOL-Library.Signed_Division"
begin

text \<open>
  \<open>stats.h\<close>, \<open>stats.c\<close> and the reference counts of \<open>locking.h\<close>: per-client statistics in a
  chained hash map. A \<open>client_stats\<close> object lives in the heap \<open>st_heap\<close> at an address, the
  chains run through \<open>cs_next\<close>, and connections hold addresses of the same objects, so an
  object can outlive its entry in the map. Addresses are not used again after \<open>free\<close>: an
  access to a freed object is visible as \<open>NullDeref\<close>.

  The mutexes serialise the updates of one object; each operation below is one such update
  or a sequence of them, run without interference; \<open>Locking\<close> and \<open>Races\<close> look at interference.
\<close>

type_synonym addr = nat

record client_stats =
  cs_refcnt :: "16 word"      \<comment> \<open>\<open>unsigned short\<close>\<close>
  cs_next :: "addr option"
  cs_client_id :: int
  total_connections :: int
  live_connections :: int
  requests :: int

record statistics =
  st_refcnt :: "16 word"
  st_clients :: int
  map_size :: int
  st_map :: "int \<Rightarrow> addr option"
  st_heap :: "addr \<Rightarrow> client_stats option"
  st_fresh :: addr            \<comment> \<open>the next address the allocator hands out\<close>

definition STATS_HASH_MAP_SIZE :: int where "STATS_HASH_MAP_SIZE = 1000000"

text \<open>\<open>refcount_incr\<close> and \<open>refcount_decr\<close>: the new count, modulo \<open>2 ^ 16\<close>.\<close>

definition refcount_incr :: "16 word \<Rightarrow> 16 word" where
  "refcount_incr r = r + 1"

definition refcount_decr :: "16 word \<Rightarrow> 16 word" where
  "refcount_decr r = r - 1"

text \<open>Create a new statistics value.\<close>

definition new_stats :: statistics where
  "new_stats =
     \<lparr>st_refcnt = 1, st_clients = 0, map_size = STATS_HASH_MAP_SIZE, st_map = (\<lambda>_. None),
      st_heap = (\<lambda>_. None), st_fresh = 1\<rparr>"

text \<open>The index \<open>client_id % s->map_size\<close>; C's remainder has the sign of the dividend.\<close>

definition hash_key :: "statistics \<Rightarrow> int \<Rightarrow> int" where
  "hash_key s i = i smod map_size s"

definition in_map :: "statistics \<Rightarrow> int \<Rightarrow> bool" where
  "in_map s i \<longleftrightarrow> 0 \<le> hash_key s i \<and> hash_key s i < map_size s"

text \<open>The search along a chain.\<close>

partial_function (option) find_cs ::
  "(addr \<Rightarrow> client_stats option) \<Rightarrow> addr option \<Rightarrow> int \<Rightarrow> addr option res"
where
  "find_cs h p i =
     (case p of
        None \<Rightarrow> Ok None
      | Some a \<Rightarrow>
          (case h a of
             None \<Rightarrow> Err NullDeref
           | Some n \<Rightarrow> if cs_client_id n \<noteq> i then find_cs h (cs_next n) i else Ok (Some a)))"

text \<open>
  Get the stats for a particular client, making them if needed. A failed \<open>calloc\<close> is not
  checked: the mutex initialisation that follows writes through the null pointer.
\<close>

definition get_client_stats :: "env \<Rightarrow> statistics \<Rightarrow> int \<Rightarrow> (addr \<times> env \<times> statistics) res" where
  "get_client_stats e s i =
     (if \<not> in_map s i then Err OutOfBounds
      else bindR (find_cs (st_heap s) (st_map s (hash_key s i)) i) (\<lambda>p.
        case p of
          None \<Rightarrow>
            (case alloc e of (ok, e) \<Rightarrow>
              if \<not> ok then Err NullDeref
              else let a = st_fresh s;
                       n = \<lparr>cs_refcnt = 2, cs_next = st_map s (hash_key s i), cs_client_id = i,
                            total_connections = 0, live_connections = 0, requests = 0\<rparr>
                in Ok (a, e, s\<lparr>st_heap := (st_heap s)(a \<mapsto> n),
                               st_map := (st_map s)(hash_key s i := Some a),
                               st_fresh := Suc a\<rparr>))
        | Some a \<Rightarrow>
            (case st_heap s a of
               None \<Rightarrow> Err NullDeref
             | Some n \<Rightarrow>
                 Ok (a, e, s\<lparr>st_heap := (st_heap s)
                       (a \<mapsto> n\<lparr>cs_refcnt := refcount_incr (cs_refcnt n)\<rparr>)\<rparr>))))"

text \<open>Free a client stats structure.\<close>

definition free_client_stats :: "statistics \<Rightarrow> addr \<Rightarrow> statistics" where
  "free_client_stats s a = s\<lparr>st_heap := (st_heap s)(a := None)\<rparr>"

text \<open>Drop one reference, and free the object with the last one.\<close>

definition drop_ref :: "statistics \<Rightarrow> addr \<Rightarrow> statistics res" where
  "drop_ref s a =
     (case st_heap s a of
        None \<Rightarrow> Err NullDeref
      | Some n \<Rightarrow>
          let s' = s\<lparr>st_heap := (st_heap s)(a \<mapsto> n\<lparr>cs_refcnt := refcount_decr (cs_refcnt n)\<rparr>)\<rparr>
          in Ok (if refcount_decr (cs_refcnt n) = 0 then free_client_stats s' a else s'))"

text \<open>The search of \<open>rm_client_stats\<close>, which remembers the predecessor.\<close>

partial_function (option) find_prev ::
  "(addr \<Rightarrow> client_stats option) \<Rightarrow> addr option \<Rightarrow> addr option \<Rightarrow> int \<Rightarrow>
   (addr option \<times> addr option) res"
where
  "find_prev h prev p i =
     (case p of
        None \<Rightarrow> Ok (prev, None)
      | Some a \<Rightarrow>
          (case h a of
             None \<Rightarrow> Err NullDeref
           | Some n \<Rightarrow>
               if cs_client_id n \<noteq> i then find_prev h (Some a) (cs_next n) i
               else Ok (prev, Some a)))"

text \<open>Remove a client's stats structure.\<close>

definition rm_client_stats :: "statistics \<Rightarrow> int \<Rightarrow> statistics res" where
  "rm_client_stats s i =
     (if \<not> in_map s i then Err OutOfBounds
      else bindR (find_prev (st_heap s) None (st_map s (hash_key s i)) i) (\<lambda>(prev, p).
        case p of
          None \<Rightarrow> Ok s
        | Some a \<Rightarrow>
            (case prev of
               None \<Rightarrow> drop_ref (s\<lparr>st_map := (st_map s)(hash_key s i := None)\<rparr>) a
             | Some q \<Rightarrow>
                 (case (st_heap s q, st_heap s a) of
                    (Some m, Some n) \<Rightarrow>
                      drop_ref (s\<lparr>st_heap := (st_heap s)(q \<mapsto> m\<lparr>cs_next := cs_next n\<rparr>)\<rparr>) a
                  | _ \<Rightarrow> Err NullDeref))))"

text \<open>Generate some test client data in stats.\<close>

fun stat_test_data :: "nat \<Rightarrow> env \<Rightarrow> statistics \<Rightarrow> (env \<times> statistics) res" where
  "stat_test_data 0 e s = Ok (e, s)"
| "stat_test_data (Suc amount) e s =
     (case rand e of (i, e) \<Rightarrow>
        bindR (get_client_stats e s i) (\<lambda>(a, e, s).
          case st_heap s a of
            None \<Rightarrow> Err NullDeref
          | Some n \<Rightarrow>
              stat_test_data amount e
                (s\<lparr>st_heap := (st_heap s)(a \<mapsto> n\<lparr>cs_refcnt := refcount_decr (cs_refcnt n)\<rparr>)\<rparr>)))"

section \<open>Chains\<close>

fun chain :: "(addr \<Rightarrow> client_stats option) \<Rightarrow> addr option \<Rightarrow> addr list \<Rightarrow> bool" where
  "chain h p [] \<longleftrightarrow> p = None"
| "chain h p (a # as) \<longleftrightarrow>
     p = Some a \<and> (case h a of None \<Rightarrow> False | Some n \<Rightarrow> chain h (cs_next n) as)"

definition id_at :: "(addr \<Rightarrow> client_stats option) \<Rightarrow> addr \<Rightarrow> int" where
  "id_at h a = (case h a of None \<Rightarrow> 0 | Some n \<Rightarrow> cs_client_id n)"

lemma chain_mapped: "chain h p as \<Longrightarrow> a \<in> set as \<Longrightarrow> \<exists>n. h a = Some n"
  by (induction as arbitrary: p) (auto split: option.splits)

lemma chain_fun_upd: "a \<notin> set as \<Longrightarrow> chain (h(a := x)) p as = chain h p as"
  by (induction as arbitrary: p) (auto split: option.split)

lemma chain_same_next:
  "h a = Some n \<Longrightarrow> cs_next n' = cs_next n \<Longrightarrow> chain (h(a \<mapsto> n')) p as = chain h p as"
  by (induction as arbitrary: p) (auto split: option.split)

lemma find_cs_chain:
  "chain h p as \<Longrightarrow> find_cs h p i = Ok (List.find (\<lambda>a. id_at h a = i) as)"
proof (induction as arbitrary: p)
  case Nil
  then show ?case by (simp add: find_cs.simps)
next
  case (Cons a as)
  then show ?case
    by (subst find_cs.simps) (auto simp: id_at_def split: option.splits)
qed

lemma find_prev_chain:
  "chain h p (xs @ a # as) \<Longrightarrow> \<forall>x \<in> set xs. id_at h x \<noteq> i \<Longrightarrow> id_at h a = i \<Longrightarrow>
   find_prev h prev p i = Ok (if xs = [] then prev else Some (last xs), Some a)"
proof (induction xs arbitrary: p prev)
  case Nil
  then show ?case by (subst find_prev.simps) (auto simp: id_at_def split: option.splits)
next
  case (Cons x xs)
  then show ?case
    by (subst find_prev.simps) (auto simp: id_at_def split: option.splits)
qed

lemma find_prev_none:
  "chain h p as \<Longrightarrow> \<forall>x \<in> set as. id_at h x \<noteq> i \<Longrightarrow> \<exists>q. find_prev h prev p i = Ok (q, None)"
proof (induction as arbitrary: p prev)
  case Nil
  then show ?case by (simp add: find_prev.simps)
next
  case (Cons a as)
  then show ?case
    by (subst find_prev.simps) (auto simp: id_at_def split: option.splits)
qed

lemma chain_unlink:
  "chain h p (xs @ q # a # as) \<Longrightarrow> distinct (xs @ q # a # as) \<Longrightarrow>
   h q = Some m \<Longrightarrow> h a = Some n \<Longrightarrow>
   chain (h(q \<mapsto> m\<lparr>cs_next := cs_next n\<rparr>)) p (xs @ q # as)"
proof (induction xs arbitrary: p)
  case Nil
  then show ?case by (auto simp: chain_fun_upd fun_upd_same simp del: fun_upd_apply)
next
  case (Cons x xs)
  then show ?case by (auto split: option.splits)
qed

section \<open>The map and its invariant\<close>

definition lookup :: "statistics \<Rightarrow> int \<Rightarrow> addr option" where
  "lookup s i =
     (case find_cs (st_heap s) (st_map s (hash_key s i)) i of Some (Inr p) \<Rightarrow> p | _ \<Rightarrow> None)"

definition bucket_ok :: "statistics \<Rightarrow> int \<Rightarrow> addr list \<Rightarrow> bool" where
  "bucket_ok s k as \<longleftrightarrow>
     chain (st_heap s) (st_map s k) as \<and> distinct (map (id_at (st_heap s)) as) \<and>
     (\<forall>a \<in> set as. hash_key s (id_at (st_heap s) a) = k \<and> a < st_fresh s)"

definition stats_inv :: "statistics \<Rightarrow> bool" where
  "stats_inv s \<longleftrightarrow>
     0 < map_size s \<and> (\<forall>k. 0 \<le> k \<and> k < map_size s \<longrightarrow> (\<exists>as. bucket_ok s k as)) \<and>
     (\<forall>a \<ge> st_fresh s. st_heap s a = None)"

lemma stats_inv_new: "stats_inv new_stats"
proof -
  have "bucket_ok new_stats k []" for k by (simp add: bucket_ok_def new_stats_def)
  then show ?thesis by (auto simp: stats_inv_def new_stats_def STATS_HASH_MAP_SIZE_def)
qed

lemma stats_inv_bucket:
  assumes "stats_inv s" and "in_map s i"
  obtains as where "bucket_ok s (hash_key s i) as"
  using assms by (auto simp: stats_inv_def in_map_def)

lemma lookup_bucket:
  "bucket_ok s (hash_key s i) as \<Longrightarrow> lookup s i = List.find (\<lambda>a. id_at (st_heap s) a = i) as"
  unfolding bucket_ok_def lookup_def by (elim conjE) (simp add: find_cs_chain)

lemma find_eq_Some:
  "List.find P xs = Some x \<Longrightarrow> x \<in> set xs \<and> P x"
  by (induction xs) (auto split: if_splits)

lemma find_None_iff_all: "List.find P xs = None \<longleftrightarrow> (\<forall>x \<in> set xs. \<not> P x)"
  by (auto simp: find_None_iff)

lemma lookup_node:
  assumes "stats_inv s" and "in_map s i" and "lookup s i = Some a"
  shows "\<exists>n. st_heap s a = Some n \<and> cs_client_id n = i" and "a < st_fresh s"
proof -
  obtain as where as: "bucket_ok s (hash_key s i) as"
    using stats_inv_bucket [OF assms(1,2)] .
  then have a: "a \<in> set as" "id_at (st_heap s) a = i"
    using assms(3) find_eq_Some by (fastforce simp: lookup_bucket)+
  then show "\<exists>n. st_heap s a = Some n \<and> cs_client_id n = i"
    using as chain_mapped by (fastforce simp: bucket_ok_def id_at_def)
  show "a < st_fresh s" using as a(1) by (simp add: bucket_ok_def)
qed

text \<open>A change of an object that keeps its place in the chain and its client.\<close>

lemma id_at_touch:
  "st_heap s a = Some n \<Longrightarrow> cs_client_id n' = cs_client_id n \<Longrightarrow>
   id_at ((st_heap s)(a \<mapsto> n')) = id_at (st_heap s)"
  by (auto simp: id_at_def fun_eq_iff)

lemma bucket_ok_touch:
  assumes "st_heap s a = Some n" "cs_next n' = cs_next n" "cs_client_id n' = cs_client_id n"
  shows "bucket_ok (s\<lparr>st_heap := (st_heap s)(a \<mapsto> n')\<rparr>) k as = bucket_ok s k as"
  using assms by (simp add: bucket_ok_def chain_same_next id_at_touch hash_key_def)

lemma stats_inv_touch:
  assumes "st_heap s a = Some n" "cs_next n' = cs_next n" "cs_client_id n' = cs_client_id n"
    and "stats_inv s"
  shows "stats_inv (s\<lparr>st_heap := (st_heap s)(a \<mapsto> n')\<rparr>)"
proof -
  have "a < st_fresh s" using assms(1,4) by (force simp: stats_inv_def not_le [symmetric])
  then show ?thesis
    using assms(4) bucket_ok_touch [OF assms(1-3)] by (simp add: stats_inv_def)
qed

lemma in_map_update [simp]:
  "in_map (s\<lparr>st_heap := h\<rparr>) = in_map s" "in_map (s\<lparr>st_map := m\<rparr>) = in_map s"
  "in_map (s\<lparr>st_fresh := f\<rparr>) = in_map s"
  by (simp_all add: in_map_def hash_key_def fun_eq_iff)

lemma hash_key_update [simp]:
  "hash_key (s\<lparr>st_heap := h\<rparr>) = hash_key s" "hash_key (s\<lparr>st_map := m\<rparr>) = hash_key s"
  "hash_key (s\<lparr>st_fresh := f\<rparr>) = hash_key s"
  by (simp_all add: hash_key_def fun_eq_iff)

lemma lookup_touch:
  assumes "st_heap s a = Some n" "cs_next n' = cs_next n" "cs_client_id n' = cs_client_id n"
    and "stats_inv s" "in_map s i"
  shows "lookup (s\<lparr>st_heap := (st_heap s)(a \<mapsto> n')\<rparr>) i = lookup s i"
proof -
  obtain as where as: "bucket_ok s (hash_key s i) as"
    using stats_inv_bucket [OF assms(4,5)] .
  then have "bucket_ok (s\<lparr>st_heap := (st_heap s)(a \<mapsto> n')\<rparr>) (hash_key s i) as"
    using bucket_ok_touch [OF assms(1-3)] by simp
  then show ?thesis
    using as assms(1,3) by (simp add: lookup_bucket id_at_touch)
qed

text \<open>A new object at the head of its chain.\<close>

definition insert_node :: "statistics \<Rightarrow> int \<Rightarrow> statistics" where
  "insert_node s i =
     s\<lparr>st_heap := (st_heap s)(st_fresh s \<mapsto>
         \<lparr>cs_refcnt = 2, cs_next = st_map s (hash_key s i), cs_client_id = i,
          total_connections = 0, live_connections = 0, requests = 0\<rparr>),
       st_map := (st_map s)(hash_key s i := Some (st_fresh s)), st_fresh := Suc (st_fresh s)\<rparr>"

lemma insert_node_sel:
  "st_map (insert_node s i) = (st_map s)(hash_key s i := Some (st_fresh s))"
  "st_fresh (insert_node s i) = Suc (st_fresh s)"
  "map_size (insert_node s i) = map_size s"
  "hash_key (insert_node s i) = hash_key s" "in_map (insert_node s i) = in_map s"
  by (simp_all add: insert_node_def)

lemma id_at_insert:
  "id_at (st_heap (insert_node s i)) = (id_at (st_heap s))(st_fresh s := i)"
  by (auto simp: id_at_def insert_node_def fun_eq_iff)

lemma chain_insert_other:
  "st_fresh s \<notin> set as \<Longrightarrow> chain (st_heap (insert_node s i)) p as = chain (st_heap s) p as"
  by (simp add: insert_node_def chain_fun_upd del: fun_upd_apply)

lemma chain_insert_head:
  "st_fresh s \<notin> set as \<Longrightarrow> chain (st_heap s) (st_map s (hash_key s i)) as \<Longrightarrow>
   chain (st_heap (insert_node s i)) (Some (st_fresh s)) (st_fresh s # as)"
  by (simp add: insert_node_def chain_fun_upd fun_upd_same del: fun_upd_apply)

lemma ids_insert:
  "st_fresh s \<notin> set as \<Longrightarrow>
   map (id_at (st_heap (insert_node s i))) as = map (id_at (st_heap s)) as"
  by (auto simp: id_at_insert)

lemma bucket_fresh: "bucket_ok s k as \<Longrightarrow> st_fresh s \<notin> set as"
  by (auto simp: bucket_ok_def)

lemma bucket_ok_insert_other:
  assumes "bucket_ok s k as" and "k \<noteq> hash_key s i"
  shows "bucket_ok (insert_node s i) k as"
  using assms bucket_fresh [OF assms(1)]
  unfolding bucket_ok_def insert_node_sel
  by (auto simp: chain_insert_other ids_insert id_at_insert)

lemma bucket_ok_insert_head:
  assumes "bucket_ok s (hash_key s i) as" and "i \<notin> id_at (st_heap s) ` set as"
  shows "bucket_ok (insert_node s i) (hash_key s i) (st_fresh s # as)"
  using assms bucket_fresh [OF assms(1)] chain_insert_head [of s as i]
  unfolding bucket_ok_def insert_node_sel
  by (auto simp: ids_insert id_at_insert image_iff)

lemma lookup_None_ids:
  "bucket_ok s (hash_key s i) as \<Longrightarrow> lookup s i = None \<longleftrightarrow> i \<notin> id_at (st_heap s) ` set as"
  by (auto simp: lookup_bucket find_None_iff_all)

lemma stats_inv_insert:
  assumes "stats_inv s" "in_map s i" "lookup s i = None"
  shows "stats_inv (insert_node s i)"
proof -
  obtain as where as: "bucket_ok s (hash_key s i) as"
    using stats_inv_bucket [OF assms(1,2)] .
  have "\<exists>bs. bucket_ok (insert_node s i) k bs" if "0 \<le> k" "k < map_size s" for k
  proof (cases "k = hash_key s i")
    case True
    then show ?thesis
      using bucket_ok_insert_head as assms(3) lookup_None_ids by blast
  next
    case False
    then show ?thesis
      using that assms(1) bucket_ok_insert_other by (metis stats_inv_def)
  qed
  moreover have "st_heap (insert_node s i) a = None" if "Suc (st_fresh s) \<le> a" for a
    using that assms(1) by (simp add: insert_node_def stats_inv_def)
  ultimately show ?thesis
    using assms(1) by (auto simp: stats_inv_def insert_node_sel)
qed

lemma lookup_insert:
  assumes "stats_inv s" "in_map s i" "in_map s j" "lookup s i = None"
  shows "lookup (insert_node s i) j = (if j = i then Some (st_fresh s) else lookup s j)"
proof (cases "hash_key s j = hash_key s i")
  case True
  obtain as where as: "bucket_ok s (hash_key s i) as"
    using stats_inv_bucket [OF assms(1,2)] .
  then have new: "bucket_ok (insert_node s i) (hash_key (insert_node s i) j) (st_fresh s # as)"
    using bucket_ok_insert_head assms(4) lookup_None_ids True by (metis insert_node_sel(4))
  have "List.find (\<lambda>a. id_at (st_heap (insert_node s i)) a = j) as =
      List.find (\<lambda>a. id_at (st_heap s) a = j) as"
    using bucket_fresh [OF as] by (intro find_cong) (auto simp: id_at_insert)
  then show ?thesis
    using lookup_bucket [OF new] lookup_bucket [of s j as] as True by (simp add: id_at_insert)
next
  case False
  obtain as where as: "bucket_ok s (hash_key s j) as"
    using stats_inv_bucket [OF assms(1,3)] .
  then have new: "bucket_ok (insert_node s i) (hash_key (insert_node s i) j) as"
    using bucket_ok_insert_other False by (metis insert_node_sel(4))
  have "List.find (\<lambda>a. id_at (st_heap (insert_node s i)) a = j) as =
      List.find (\<lambda>a. id_at (st_heap s) a = j) as"
    using bucket_fresh [OF as] by (intro find_cong) (auto simp: id_at_insert)
  then show ?thesis
    using lookup_bucket [OF new] lookup_bucket [OF as] False by auto
qed

section \<open>The registry interface\<close>

text \<open>
  What the connections and the test-data generator rely on: \<open>get\<close> returns the object of a
  client, the same one each time, holds one more reference on it, and leaves the objects of
  every other client alone.
\<close>

locale client_registry =
  fixes inv :: "'s \<Rightarrow> bool"
    and valid :: "'s \<Rightarrow> int \<Rightarrow> bool"
    and find :: "'s \<Rightarrow> int \<Rightarrow> addr option"
    and node :: "'s \<Rightarrow> addr \<Rightarrow> client_stats option"
    and get :: "env \<Rightarrow> 's \<Rightarrow> int \<Rightarrow> (addr \<times> env \<times> 's) res"
  assumes get_hit: "inv s \<Longrightarrow> valid s i \<Longrightarrow> find s i = Some a \<Longrightarrow>
      \<exists>n s'. node s a = Some n \<and> get e s i = Ok (a, e, s') \<and>
        node s' = (node s)(a \<mapsto> n\<lparr>cs_refcnt := refcount_incr (cs_refcnt n)\<rparr>)"
    and get_miss: "inv s \<Longrightarrow> valid s i \<Longrightarrow> find s i = None \<Longrightarrow> alloc_ok e (allocs e) \<Longrightarrow>
      \<exists>a n s'. node s a = None \<and> get e s i = Ok (a, snd (alloc e), s') \<and>
        node s' = (node s)(a \<mapsto> n) \<and> cs_refcnt n = 2 \<and>
        total_connections n = 0 \<and> live_connections n = 0 \<and> requests n = 0"
    and get_inv: "inv s \<Longrightarrow> get e s i = Ok (a, e', s') \<Longrightarrow> inv s' \<and> valid s' = valid s"
    and get_find: "inv s \<Longrightarrow> get e s i = Ok (a, e', s') \<Longrightarrow> valid s j \<Longrightarrow>
      find s' j = (if j = i then Some a else find s j)"
    and get_valid: "get e s i = Ok (a, e', s') \<Longrightarrow> valid s i"
    and find_node: "inv s \<Longrightarrow> valid s i \<Longrightarrow> find s i = Some a \<Longrightarrow>
      \<exists>n. node s a = Some n \<and> cs_client_id n = i"
begin

text \<open>With memory available \<open>get\<close> always returns.\<close>

lemma get_returns:
  assumes "inv s" "valid s i" "mem_ok e"
  shows "\<exists>a e' s'. get e s i = Ok (a, e', s') \<and> mem_ok e'"
proof (cases "find s i")
  case None
  then obtain a n s' where "get e s i = Ok (a, snd (alloc e), s')"
    using get_miss [OF assms(1,2) None, of e] assms(3) by auto
  then show ?thesis using assms(3) by auto
next
  case (Some a)
  then show ?thesis using get_hit [OF assms(1,2) Some, of e] assms(3) by blast
qed

text \<open>The object that is returned belongs to the client.\<close>

lemma get_client:
  assumes "inv s" "get e s i = Ok (a, e', s')"
  shows "\<exists>n. node s' a = Some n \<and> cs_client_id n = i"
proof -
  have "inv s'" "valid s' i" "find s' i = Some a"
    using assms get_inv get_valid get_find by (metis)+
  then show ?thesis by (rule find_node)
qed

text \<open>A second request for the same client yields the same object, one reference up.\<close>

lemma get_again:
  assumes "inv s" "get e s i = Ok (a, e', s')" "node s' a = Some n"
  shows "\<exists>s''. get e'' s' i = Ok (a, e'', s'') \<and>
     node s'' a = Some (n\<lparr>cs_refcnt := refcount_incr (cs_refcnt n)\<rparr>)"
proof -
  have "inv s'" "valid s' i" "find s' i = Some a"
    using assms get_inv get_valid get_find by (metis)+
  from get_hit [OF this, of e''] assms(3) show ?thesis by auto
qed

text \<open>Different clients never share an object.\<close>

lemma get_distinct:
  assumes "inv s" "get e s i = Ok (a, e', s')" "get e'' s' j = Ok (b, e3, s'')" "i \<noteq> j"
  shows "a \<noteq> b"
proof
  assume ab: "a = b"
  have s': "inv s'" "valid s' = valid s" using assms get_inv by blast+
  have s'': "inv s''" "valid s'' = valid s'" using assms s' get_inv by blast+
  have v: "valid s i" "valid s j" using assms get_valid s' by metis+
  have "find s' i = Some a" using assms v get_find by metis
  then have "find s'' i = Some a" using assms s' v get_find by metis
  moreover have "find s'' j = Some a" using assms s' v get_find ab by metis
  ultimately have "\<exists>n. node s'' a = Some n \<and> cs_client_id n = i"
    "\<exists>n. node s'' a = Some n \<and> cs_client_id n = j"
    using s' s'' v by (metis find_node)+
  then show False using assms(4) by auto
qed

end

lemma get_client_stats_hit:
  assumes "stats_inv s" "in_map s i" "lookup s i = Some a"
  shows "\<exists>n. st_heap s a = Some n \<and> cs_client_id n = i \<and>
     get_client_stats e s i = Ok (a, e, s\<lparr>st_heap := (st_heap s)
       (a \<mapsto> n\<lparr>cs_refcnt := refcount_incr (cs_refcnt n)\<rparr>)\<rparr>)"
proof -
  obtain as where as: "bucket_ok s (hash_key s i) as"
    using stats_inv_bucket [OF assms(1,2)] .
  obtain n where "st_heap s a = Some n" "cs_client_id n = i"
    using lookup_node [OF assms] by blast
  then show ?thesis
    using as assms(2,3) find_cs_chain [of "st_heap s" "st_map s (hash_key s i)" as i]
    by (simp add: get_client_stats_def lookup_bucket bucket_ok_def)
qed

lemma get_client_stats_miss:
  assumes "stats_inv s" "in_map s i" "lookup s i = None"
  shows "get_client_stats e s i =
    (if alloc_ok e (allocs e) then Ok (st_fresh s, snd (alloc e), insert_node s i) else Err NullDeref)"
proof -
  obtain as where as: "bucket_ok s (hash_key s i) as"
    using stats_inv_bucket [OF assms(1,2)] .
  then show ?thesis
    using assms(2,3) find_cs_chain [of "st_heap s" "st_map s (hash_key s i)" as i]
    by (simp add: get_client_stats_def lookup_bucket bucket_ok_def alloc_def insert_node_def Let_def)
qed

lemma get_client_stats_cases:
  assumes "stats_inv s" "get_client_stats e s i = Ok (a, e', s')"
  obtains (hit) n where "in_map s i" "lookup s i = Some a" "st_heap s a = Some n" "e' = e"
      "s' = s\<lparr>st_heap := (st_heap s)(a \<mapsto> n\<lparr>cs_refcnt := refcount_incr (cs_refcnt n)\<rparr>)\<rparr>"
  | (miss) "in_map s i" "lookup s i = None" "a = st_fresh s" "e' = snd (alloc e)"
      "s' = insert_node s i"
proof -
  have v: "in_map s i" using assms(2) by (auto simp: get_client_stats_def split: if_splits)
  show ?thesis
  proof (cases "lookup s i")
    case None
    with assms v show ?thesis
      by (intro miss) (auto simp: get_client_stats_miss split: if_splits)
  next
    case (Some b)
    from get_client_stats_hit [OF assms(1) v Some, of e] assms(2) Some v show ?thesis
      by (auto intro: hit)
  qed
qed

interpretation registry: client_registry stats_inv in_map lookup st_heap get_client_stats
proof unfold_locales
  fix s :: statistics and i a and e :: env
  assume "stats_inv s" "in_map s i" "lookup s i = Some a"
  from get_client_stats_hit [OF this, of e] show "\<exists>n s'. st_heap s a = Some n \<and>
      get_client_stats e s i = Ok (a, e, s') \<and>
      st_heap s' = (st_heap s)(a \<mapsto> n\<lparr>cs_refcnt := refcount_incr (cs_refcnt n)\<rparr>)" by auto
next
  fix s :: statistics and i and e :: env
  assume "stats_inv s" "in_map s i" "lookup s i = None" "alloc_ok e (allocs e)"
  then show "\<exists>a n s'. st_heap s a = None \<and> get_client_stats e s i = Ok (a, snd (alloc e), s') \<and>
      st_heap s' = (st_heap s)(a \<mapsto> n) \<and> cs_refcnt n = 2 \<and>
      total_connections n = 0 \<and> live_connections n = 0 \<and> requests n = 0"
    by (auto simp: get_client_stats_miss insert_node_def stats_inv_def)
next
  fix s :: statistics and e i a e' s'
  assume inv: "stats_inv s" and g: "get_client_stats e s i = Ok (a, e', s')"
  from inv g show "stats_inv s' \<and> in_map s' = in_map s"
  proof (cases rule: get_client_stats_cases)
    case (hit n)
    then show ?thesis using inv by (simp add: stats_inv_touch)
  next
    case miss
    then show ?thesis using inv by (simp add: stats_inv_insert insert_node_sel)
  qed
next
  fix s :: statistics and e i a e' s' j
  assume inv: "stats_inv s" and g: "get_client_stats e s i = Ok (a, e', s')" and v: "in_map s j"
  from inv g show "lookup s' j = (if j = i then Some a else lookup s j)"
  proof (cases rule: get_client_stats_cases)
    case (hit n)
    then show ?thesis using inv v by (simp add: lookup_touch)
  next
    case miss
    then show ?thesis using inv v by (simp add: lookup_insert)
  qed
next
  show "in_map s i" if "get_client_stats e s i = Ok (a, e', s')" for e s i a e' s'
    using that by (auto simp: get_client_stats_def split: if_splits)
next
  show "\<exists>n. st_heap s a = Some n \<and> cs_client_id n = i"
    if "stats_inv s" "in_map s i" "lookup s i = Some a" for s i a
    using lookup_node [OF that] by blast
qed

text \<open>A non-negative identifier, such as every result of \<open>rand\<close>, has a slot in the map.\<close>

lemma in_map_nonneg: "stats_inv s \<Longrightarrow> 0 \<le> i \<Longrightarrow> in_map s i"
  by (simp add: in_map_def hash_key_def stats_inv_def smod_int_compares)

section \<open>Removal\<close>

lemma bucket_distinct: "bucket_ok s k as \<Longrightarrow> distinct as"
  by (auto simp: bucket_ok_def distinct_map)

lemma bucket_ids_inj:
  assumes "bucket_ok s k (xs @ a # ys)" and "x \<in> set (xs @ ys)"
  shows "id_at (st_heap s) x \<noteq> id_at (st_heap s) a"
proof -
  have "id_at (st_heap s) a \<notin> id_at (st_heap s) ` set (xs @ ys)"
    using assms by (auto simp: bucket_ok_def)
  then show ?thesis using assms(2) by (metis imageI)
qed

text \<open>What \<open>drop_ref\<close> does to the object.\<close>

definition dec_node :: "client_stats \<Rightarrow> client_stats option" where
  "dec_node n = (if cs_refcnt n = 1 then None else Some (n\<lparr>cs_refcnt := refcount_decr (cs_refcnt n)\<rparr>))"

lemma drop_ref_eq:
  "st_heap s a = Some n \<Longrightarrow> drop_ref s a = Ok (s\<lparr>st_heap := (st_heap s)(a := dec_node n)\<rparr>)"
  by (auto simp: drop_ref_def dec_node_def refcount_decr_def free_client_stats_def Let_def)

lemma bucket_ok_drop_outside:
  assumes "bucket_ok s k as" and "a \<notin> set as"
  shows "bucket_ok (s\<lparr>st_heap := (st_heap s)(a := x)\<rparr>) k as"
proof -
  have ids: "id_at ((st_heap s)(a := x)) b = id_at (st_heap s) b" if "b \<in> set as" for b
    using that assms(2) by (auto simp: id_at_def)
  then have "map (id_at ((st_heap s)(a := x))) as = map (id_at (st_heap s)) as" by simp
  then show ?thesis
    using assms ids by (simp add: bucket_ok_def chain_fun_upd hash_key_def del: map_eq_conv fun_upd_apply)
qed

lemma bucket_ok_unlink:
  assumes "bucket_ok s k (xs @ q # a # as)" and "st_heap s q = Some m" and "st_heap s a = Some n"
  shows "bucket_ok (s\<lparr>st_heap := (st_heap s)(q \<mapsto> m\<lparr>cs_next := cs_next n\<rparr>)\<rparr>) k (xs @ q # as)"
proof -
  have "id_at ((st_heap s)(q \<mapsto> m\<lparr>cs_next := cs_next n\<rparr>)) = id_at (st_heap s)"
    by (rule id_at_touch) (use assms(2) in simp_all)
  moreover have "chain ((st_heap s)(q \<mapsto> m\<lparr>cs_next := cs_next n\<rparr>)) (st_map s k) (xs @ q # as)"
    using assms bucket_distinct [OF assms(1)] by (intro chain_unlink [of _ _ _ _ a]) (simp_all add: bucket_ok_def)
  ultimately show ?thesis
    using assms(1) by (simp add: bucket_ok_def hash_key_def)
qed

text \<open>A client that is not the head of its chain is unlinked, and the rest of the chain stays.\<close>

lemma rm_client_stats_inner:
  assumes "in_map s i" and b: "bucket_ok s (hash_key s i) (xs @ q # a # as)"
    and "id_at (st_heap s) a = i"
  shows "\<exists>s'. rm_client_stats s i = Ok s' \<and> bucket_ok s' (hash_key s i) (xs @ q # as) \<and>
    (\<forall>b. b \<noteq> a \<longrightarrow> id_at (st_heap s') b = id_at (st_heap s) b) \<and> hash_key s' = hash_key s"
proof -
  let ?h = "st_heap s"
  have ch: "chain ?h (st_map s (hash_key s i)) ((xs @ [q]) @ a # as)"
    using b by (simp add: bucket_ok_def)
  obtain m n where mn: "?h q = Some m" "?h a = Some n"
    using chain_mapped [OF ch] by fastforce
  have "\<forall>x \<in> set (xs @ [q]). id_at ?h x \<noteq> i"
    using bucket_ids_inj [of s "hash_key s i" "xs @ [q]" a as] b assms(3) by auto
  then have find: "find_prev ?h None (st_map s (hash_key s i)) i = Ok (Some q, Some a)"
    using find_prev_chain [OF ch] assms(3) by simp
  let ?s1 = "s\<lparr>st_heap := ?h(q \<mapsto> m\<lparr>cs_next := cs_next n\<rparr>)\<rparr>"
  have d: "q \<noteq> a" "a \<notin> set (xs @ q # as)" using bucket_distinct [OF b] by auto
  have a1: "st_heap ?s1 a = Some n" using mn d by simp
  have rm: "rm_client_stats s i = Ok (?s1\<lparr>st_heap := (st_heap ?s1)(a := dec_node n)\<rparr>)"
    using assms(1) find mn drop_ref_eq [OF a1] by (simp add: rm_client_stats_def)
  moreover have "bucket_ok (?s1\<lparr>st_heap := (st_heap ?s1)(a := dec_node n)\<rparr>) (hash_key s i) (xs @ q # as)"
    by (rule bucket_ok_drop_outside [OF bucket_ok_unlink [OF b mn] d(2)])
  moreover have "id_at (st_heap (?s1\<lparr>st_heap := (st_heap ?s1)(a := dec_node n)\<rparr>)) b = id_at ?h b"
    if "b \<noteq> a" for b
    using that mn by (auto simp: id_at_def)
  ultimately show ?thesis
    by (intro exI [of _ "?s1\<lparr>st_heap := (st_heap ?s1)(a := dec_node n)\<rparr>"] conjI)
       (simp_all del: fun_upd_apply)
qed

lemma rm_client_stats_head:
  assumes "in_map s i" and b: "bucket_ok s (hash_key s i) (a # as)" and "id_at (st_heap s) a = i"
  shows "\<exists>s'. rm_client_stats s i = Ok s' \<and> st_map s' = (st_map s)(hash_key s i := None) \<and>
    hash_key s' = hash_key s"
proof -
  let ?h = "st_heap s"
  have ch: "chain ?h (st_map s (hash_key s i)) ([] @ a # as)"
    using b by (simp add: bucket_ok_def)
  obtain n where n: "?h a = Some n"
    using chain_mapped [OF ch] by fastforce
  have find: "find_prev ?h None (st_map s (hash_key s i)) i = Ok (None, Some a)"
    using find_prev_chain [OF ch] assms(3) by simp
  show ?thesis
    using assms(1) find n
    by (simp add: rm_client_stats_def drop_ref_eq [of "s\<lparr>st_map := _\<rparr>"])
qed

lemma rm_client_stats_absent:
  assumes "stats_inv s" "in_map s i" "lookup s i = None"
  shows "rm_client_stats s i = Ok s"
proof -
  obtain as where as: "bucket_ok s (hash_key s i) as"
    using stats_inv_bucket [OF assms(1,2)] .
  then have "\<forall>x \<in> set as. id_at (st_heap s) x \<noteq> i"
    using assms(3) lookup_None_ids by fastforce
  then obtain q where "find_prev (st_heap s) None (st_map s (hash_key s i)) i = Ok (q, None)"
    using find_prev_none [of "st_heap s" "st_map s (hash_key s i)" as i None] as
    by (auto simp: bucket_ok_def)
  then show ?thesis using assms(2) by (simp add: rm_client_stats_def)
qed

section \<open>The test data\<close>

lemma refcount_incr_decr [simp]: "refcount_decr (refcount_incr r) = r"
  by (simp add: refcount_decr_def refcount_incr_def)

text \<open>One round: register the drawn client, keep the map's reference only.\<close>

lemma test_data_round:
  assumes "stats_inv s" "mem_ok e" "0 \<le> i"
  shows "\<exists>a e' s' n s''. get_client_stats e s i = Ok (a, e', s') \<and> st_heap s' a = Some n \<and>
    s'' = s'\<lparr>st_heap := (st_heap s')(a \<mapsto> n\<lparr>cs_refcnt := refcount_decr (cs_refcnt n)\<rparr>)\<rparr> \<and>
    stats_inv s'' \<and> mem_ok e' \<and> rands e' = rands e \<and> nrand e' = nrand e \<and>
    lookup s'' i \<noteq> None \<and> (\<forall>j. 0 \<le> j \<longrightarrow> lookup s j \<noteq> None \<longrightarrow> lookup s'' j \<noteq> None) \<and>
    (\<forall>b m. st_heap s b = Some m \<longrightarrow> st_heap s'' b = Some m)"
proof -
  have v: "in_map s i" using assms by (simp add: in_map_nonneg)
  obtain a e' s' where g: "get_client_stats e s i = Ok (a, e', s')" "mem_ok e'"
    using registry.get_returns [OF assms(1) v assms(2)] by blast
  obtain n where n: "st_heap s' a = Some n"
    using registry.get_client [OF assms(1) g(1)] by blast
  let ?s'' = "s'\<lparr>st_heap := (st_heap s')(a \<mapsto> n\<lparr>cs_refcnt := refcount_decr (cs_refcnt n)\<rparr>)\<rparr>"
  have inv': "stats_inv s'" "in_map s' = in_map s"
    using registry.get_inv [OF assms(1) g(1)] by auto
  have "stats_inv ?s''" using inv' n by (simp add: stats_inv_touch)
  moreover have look: "lookup ?s'' j = (if j = i then Some a else lookup s j)" if "in_map s j" for j
    using that n inv' registry.get_find [OF assms(1) g(1) that] by (simp add: lookup_touch)
  moreover have "st_heap ?s'' b = Some m" if "st_heap s b = Some m" for b m
    using assms(1) g(1)
  proof (cases rule: get_client_stats_cases)
    case (hit n0)
    then show ?thesis using that n by auto
  next
    case miss
    then have "a \<noteq> b" using that assms(1) by (auto simp: stats_inv_def)
    then show ?thesis using that miss by (simp add: insert_node_def)
  qed
  moreover have "rands e' = rands e" "nrand e' = nrand e"
    using assms(1) g(1) by (cases rule: get_client_stats_cases; simp)+
  ultimately show ?thesis using g n v look in_map_nonneg [OF assms(1)] by fastforce
qed

lemma stat_test_data_ok:
  "stats_inv s \<Longrightarrow> mem_ok e \<Longrightarrow> \<forall>k. 0 \<le> rands e k \<Longrightarrow>
   \<exists>e' s'. stat_test_data n e s = Ok (e', s') \<and> stats_inv s' \<and>
     (\<forall>k < n. lookup s' (rands e (nrand e + k)) \<noteq> None) \<and>
     (\<forall>j. 0 \<le> j \<longrightarrow> lookup s j \<noteq> None \<longrightarrow> lookup s' j \<noteq> None) \<and>
     (\<forall>b m. st_heap s b = Some m \<longrightarrow> st_heap s' b = Some m)"
proof (induction n arbitrary: e s)
  case 0
  then show ?case by simp
next
  case (Suc n)
  define e1 where "e1 = e\<lparr>nrand := Suc (nrand e)\<rparr>"
  have e1: "mem_ok e1" "rands e1 = rands e" "nrand e1 = Suc (nrand e)"
    using Suc.prems by (simp_all add: e1_def mem_ok_def)
  obtain a e' s' m s'' where r: "get_client_stats e1 s (rands e (nrand e)) = Ok (a, e', s')"
    "st_heap s' a = Some m"
    "s'' = s'\<lparr>st_heap := (st_heap s')(a \<mapsto> m\<lparr>cs_refcnt := refcount_decr (cs_refcnt m)\<rparr>)\<rparr>"
    "stats_inv s''" "mem_ok e'" "rands e' = rands e1" "nrand e' = nrand e1"
    "lookup s'' (rands e (nrand e)) \<noteq> None"
    "\<forall>j. 0 \<le> j \<longrightarrow> lookup s j \<noteq> None \<longrightarrow> lookup s'' j \<noteq> None"
    "\<forall>b m. st_heap s b = Some m \<longrightarrow> st_heap s'' b = Some m"
    using test_data_round [OF Suc.prems(1) e1(1) spec [OF Suc.prems(3), of "nrand e"]]
    by (elim exE conjE) (rule that)
  obtain e3 s3 where ih: "stat_test_data n e' s'' = Ok (e3, s3)" "stats_inv s3"
    "\<forall>k < n. lookup s3 (rands e' (nrand e' + k)) \<noteq> None"
    "\<forall>j. 0 \<le> j \<longrightarrow> lookup s'' j \<noteq> None \<longrightarrow> lookup s3 j \<noteq> None"
    "\<forall>b m. st_heap s'' b = Some m \<longrightarrow> st_heap s3 b = Some m"
    using Suc.IH [OF r(4,5)] r(6) e1(2) Suc.prems(3) by auto
  have step: "stat_test_data (Suc n) e s = Ok (e3, s3)"
    using r(1-3) ih(1) by (simp add: rand_def e1_def)
  have "lookup s3 (rands e (nrand e + k)) \<noteq> None" if "k < Suc n" for k
  proof (cases k)
    case 0
    then show ?thesis using ih(4) r(8) Suc.prems(3) by simp
  next
    case (Suc k')
    then show ?thesis using ih(3) r(6,7) e1(2,3) that by force
  qed
  moreover have "\<forall>j. 0 \<le> j \<longrightarrow> lookup s j \<noteq> None \<longrightarrow> lookup s3 j \<noteq> None"
    using ih(4) r(9) by simp
  moreover have "\<forall>b m. st_heap s b = Some m \<longrightarrow> st_heap s3 b = Some m"
    using ih(5) r(10) by simp
  ultimately show ?case using step ih(2) by (intro exI [of _ e3] exI [of _ s3]) simp
qed

section \<open>Properties\<close>

text \<open>
  C15. On a well-formed map and with memory available, \<open>get_client_stats\<close> returns for every
  non-negative client the one object of that client: the object already in the map with one
  more reference, or a new object with zero counters and two references. The map stays
  well-formed, no other client's entry changes, and no other object is written.
\<close>

theorem get_client_stats_spec:
  assumes "stats_inv s" and "0 \<le> i" and "mem_ok e"
  shows "\<exists>a e' s' n. get_client_stats e s i = Ok (a, e', s') \<and> stats_inv s' \<and>
    st_heap s' = (st_heap s)(a \<mapsto> n) \<and> cs_client_id n = i \<and>
    (\<forall>j \<ge> 0. lookup s' j = (if j = i then Some a else lookup s j)) \<and>
    (case lookup s i of
       None \<Rightarrow> st_heap s a = None \<and> cs_refcnt n = 2 \<and> total_connections n = 0 \<and>
               live_connections n = 0 \<and> requests n = 0
     | Some b \<Rightarrow> b = a \<and> (\<exists>n0. st_heap s a = Some n0 \<and> n = n0\<lparr>cs_refcnt := cs_refcnt n0 + 1\<rparr>))"
proof -
  have v: "in_map s i" using assms by (simp add: in_map_nonneg)
  obtain a e' s' where g: "get_client_stats e s i = Ok (a, e', s')"
    using registry.get_returns [OF assms(1) v assms(3)] by blast
  have look: "\<forall>j \<ge> 0. lookup s' j = (if j = i then Some a else lookup s j)"
    using registry.get_find [OF assms(1) g] in_map_nonneg [OF assms(1)] by blast
  have inv': "stats_inv s'" using registry.get_inv [OF assms(1) g] by simp
  show ?thesis
  proof (cases "lookup s i")
    case None
    then obtain n where n: "st_heap s a = None" "st_heap s' = (st_heap s)(a \<mapsto> n)" "cs_refcnt n = 2"
      "total_connections n = 0" "live_connections n = 0" "requests n = 0"
      using registry.get_miss [OF assms(1) v None, of e] assms(3) g by auto
    moreover have "cs_client_id n = i" using registry.get_client [OF assms(1) g] n(2) by simp
    ultimately show ?thesis using None g look inv' by auto
  next
    case (Some b)
    then obtain n0 where "st_heap s b = Some n0" "a = b"
      "st_heap s' = (st_heap s)(a \<mapsto> n0\<lparr>cs_refcnt := refcount_incr (cs_refcnt n0)\<rparr>)"
      using registry.get_hit [OF assms(1) v Some, of e] g by auto
    moreover from this have "cs_client_id n0 = i" using registry.get_client [OF assms(1) g] by simp
    ultimately show ?thesis using Some g look inv' by (auto simp: refcount_incr_def)
  qed
qed

theorem get_client_stats_spec_witness:
  "\<exists>a e' s' n. get_client_stats calm_env new_stats 7 = Ok (a, e', s') \<and>
     st_heap s' a = Some n \<and> cs_client_id n = 7"
  using get_client_stats_spec [of new_stats 7 calm_env] stats_inv_new by fastforce

text \<open>
  Two different clients never share a statistics object, and asking again for the same
  client gives the same object: whatever happens in between for the second client, the map
  hands out one object per client.
\<close>

lemma get_client_stats_distinct:
  assumes "stats_inv s" and "get_client_stats e s i = Ok (a, e1, s1)"
    and "get_client_stats e1 s1 j = Ok (b, e2, s2)" and "i \<noteq> j"
  shows "a \<noteq> b \<and> lookup s2 i = Some a \<and> lookup s2 j = Some b"
proof -
  have 1: "stats_inv s1" "in_map s1 = in_map s" using registry.get_inv [OF assms(1,2)] by auto
  have v: "in_map s i" "in_map s j" using registry.get_valid assms(2,3) 1(2) by metis+
  have "lookup s1 i = Some a" using registry.get_find [OF assms(1,2) v(1)] by simp
  then have "lookup s2 i = Some a" "lookup s2 j = Some b"
    using registry.get_find [OF 1(1) assms(3)] v 1(2) assms(4) by auto
  then show ?thesis using registry.get_distinct [OF assms] by simp
qed

text \<open>
  \<open>rm_client_stats\<close> of a client inside a chain takes exactly that client out: the chain
  keeps its other objects in order.
\<close>

lemma rm_client_stats_unlinks:
  assumes "in_map s i" and "bucket_ok s (hash_key s i) (xs @ q # a # as)"
    and "id_at (st_heap s) a = i"
  shows "\<exists>s'. rm_client_stats s i = Ok s' \<and> bucket_ok s' (hash_key s i) (xs @ q # as) \<and>
    lookup s' i = None"
proof -
  obtain s' where s': "rm_client_stats s i = Ok s'" "bucket_ok s' (hash_key s i) (xs @ q # as)"
    "\<forall>b. b \<noteq> a \<longrightarrow> id_at (st_heap s') b = id_at (st_heap s) b" "hash_key s' = hash_key s"
    using rm_client_stats_inner [OF assms] by blast
  have "id_at (st_heap s') b \<noteq> i" if "b \<in> set ((xs @ [q]) @ as)" for b
  proof -
    have "b \<noteq> a" using that bucket_distinct [OF assms(2)] by auto
    then show ?thesis
      using bucket_ids_inj [of s "hash_key s i" "xs @ [q]" a as b] that assms(2,3) s'(3) by simp
  qed
  then have "i \<notin> id_at (st_heap s') ` set (xs @ q # as)" by auto
  then show ?thesis
    using s' lookup_None_ids [of s' i "xs @ q # as"] by simp
qed

text \<open>
  C33. \<open>rm_client_stats\<close> of a client at the head of its chain empties the whole chain: every
  other client with the same hash is lost from the map too, because the code stores a null
  pointer instead of the rest of the chain.
\<close>

theorem rm_client_stats_head_loses_chain:
  assumes "in_map s i" and "bucket_ok s (hash_key s i) (a # as)" and "id_at (st_heap s) a = i"
    and "b \<in> set as" and "j = id_at (st_heap s) b"
  shows "lookup s j = Some b \<and> j \<noteq> i \<and> (\<exists>s'. rm_client_stats s i = Ok s' \<and> lookup s' j = None)"
proof -
  have hj: "hash_key s j = hash_key s i" using assms(2,4,5) by (simp add: bucket_ok_def)
  then have b: "bucket_ok s (hash_key s j) (a # as)" using assms(2) by simp
  have ne: "j \<noteq> i" using bucket_ids_inj [of s _ "[]" a as b] assms by auto
  have "lookup s j = Some b"
  proof (cases "lookup s j")
    case None
    then show ?thesis using lookup_None_ids [OF b] assms(4,5) by auto
  next
    case (Some c)
    then have "List.find (\<lambda>a. id_at (st_heap s) a = j) (a # as) = Some c"
      using lookup_bucket [OF b] by simp
    from find_eq_Some [OF this] have "c \<in> set (a # as)" "id_at (st_heap s) c = id_at (st_heap s) b"
      using assms(5) by simp_all
    moreover have "inj_on (id_at (st_heap s)) (set (a # as))"
      using assms(2) by (auto simp: bucket_ok_def distinct_map)
    ultimately show ?thesis using Some assms(4) by (metis inj_onD list.set_intros(2))
  qed
  moreover obtain s' where "rm_client_stats s i = Ok s'" "st_map s' = (st_map s)(hash_key s i := None)"
    "hash_key s' = hash_key s"
    using rm_client_stats_head [OF assms(1-3)] by blast
  then have "rm_client_stats s i = Ok s' \<and> lookup s' j = None"
    using hj by (simp add: lookup_def find_cs.simps)
  ultimately show ?thesis using ne by blast
qed

theorem rm_client_stats_head_loses_chain_witness:
  "\<exists>s i j b s'. lookup s j = Some b \<and> j \<noteq> i \<and> rm_client_stats s i = Ok s' \<and> lookup s' j = None"
proof -
  let ?s = "insert_node (insert_node new_stats 5) 1000005"
  have "bucket_ok ?s (hash_key ?s 1000005) (2 # [1])"
    by (simp add: bucket_ok_def insert_node_def new_stats_def hash_key_def id_at_def
        STATS_HASH_MAP_SIZE_def)
  moreover have "in_map ?s 1000005" "id_at (st_heap ?s) 2 = 1000005"
    by (simp_all add: in_map_def hash_key_def insert_node_def new_stats_def STATS_HASH_MAP_SIZE_def
        id_at_def)
  ultimately show ?thesis
    using rm_client_stats_head_loses_chain [of ?s 1000005 2 "[1]" 1] by auto
qed

text \<open>
  C28. \<open>stat_test_data\<close> registers every client it draws, gives back the reference it took, and
  leaves every object that existed before exactly as it was.
\<close>

theorem stat_test_data_registers:
  assumes "stats_inv s" and "mem_ok e" and "\<forall>k. 0 \<le> rands e k"
  shows "\<exists>e' s'. stat_test_data n e s = Ok (e', s') \<and> stats_inv s' \<and>
    (\<forall>k < n. lookup s' (rands e (nrand e + k)) \<noteq> None) \<and>
    (\<forall>b m. st_heap s b = Some m \<longrightarrow> st_heap s' b = Some m)"
  using stat_test_data_ok [OF assms, of n] by blast

theorem stat_test_data_registers_witness:
  "\<exists>e' s'. stat_test_data 3 calm_env new_stats = Ok (e', s') \<and> stats_inv s' \<and> lookup s' 0 \<noteq> None"
proof -
  have r: "\<forall>k. 0 \<le> rands calm_env k" by (simp add: calm_env_def)
  obtain e' s' where g: "stat_test_data 3 calm_env new_stats = Ok (e', s')" "stats_inv s'"
    "\<forall>k < 3. lookup s' (rands calm_env (nrand calm_env + k)) \<noteq> None"
    using stat_test_data_registers [OF stats_inv_new mem_ok_calm r, of 3] by blast
  from g(3) [THEN spec, of 0] have "lookup s' 0 \<noteq> None" by (simp add: calm_env_def)
  then show ?thesis using g by blast
qed

end
