(* ===== verification/Conn.thy ===== *)
theory Conn
  imports Fsm Items Stats
begin

text \<open>
  The connection structure of \<open>connections.h\<close> and the operations of \<open>connections.c\<close> on one
  connection that do not build output: state changes, event registration, the item list and
  the queue of backend requests.

  A buffer is a list of its bytes and a pointer into it an offset; an array is a list as long
  as its allocation. The bytes of a read or write buffer that were not written yet are whatever
  the environment says (\<open>unwritten\<close>): the scan for a large multiget in \<open>read_command\<close> can reach
  them. In the arrays of pointers and structures new entries are null; the code
  does not read those before writing them. A null array is the empty list, so that an access
  through it is out of bounds.
\<close>

definition DATA_BUFFER_SIZE :: int where "DATA_BUFFER_SIZE = 2048"
definition IOV_LIST_INITIAL :: nat where "IOV_LIST_INITIAL = 400"
definition MSG_LIST_INITIAL :: nat where "MSG_LIST_INITIAL = 10"
definition ITEM_LIST_INITIAL :: nat where "ITEM_LIST_INITIAL = 200"
definition MAX_PAYLOAD_SIZE :: int where "MAX_PAYLOAD_SIZE = 1400"
definition MEMCACHE_RPC_QUEUE :: nat where "MEMCACHE_RPC_QUEUE = 2048"

text \<open>From the system's headers.\<close>

definition IOV_MAX :: nat where "IOV_MAX = 1024"
definition EV_READ_PERSIST :: int where "EV_READ_PERSIST = 18"
definition EV_WRITE_PERSIST :: int where "EV_WRITE_PERSIST = 20"

datatype conn_type = client_conn | memcached_conn

record iovec =
  iov_base :: "char list"   \<comment> \<open>the bytes from the pointer to the end of its object\<close>
  iov_len :: nat

record msghdr =
  msg_iov :: nat            \<comment> \<open>index into the connection's \<open>iov\<close> array\<close>
  msg_iovlen :: nat

record conn =
  c_type :: conn_type
  c_next :: "addr option"
  c_client_id :: int
  c_sfd :: int
  ev_flags :: int
  old_ev_flags :: int
  c_thread :: "nat option"
  c_state :: conn_states
  after_write :: conn_states
  after_timeout :: conn_states
  c_which :: int
  c_cmd :: int
  c_timeout :: int
  rsize :: int
  rbuf :: "char list"
  rcurr :: int
  rbytes :: int
  wsize :: int
  wbuf :: "char list"
  wcurr :: int
  wbytes :: int
  sbytes :: int
  msglist :: "msghdr list"
  msgsize :: nat
  msgused :: nat
  msgcurr :: nat
  msgbytes :: int
  iov :: "iovec list"
  iovsize :: nat
  iovused :: nat
  ilist :: "item option list"
  isize :: nat
  icurr :: nat
  ileft :: nat
  rpcwaiting :: int
  rpc :: "nat list"
  rpcsize :: nat
  rpcused :: nat
  rpcdone :: nat
  c_stats :: "addr option"
  mem_blob :: "int option"   \<comment> \<open>the size of the blob, \<open>None\<close> for the null pointer\<close>
  mem_free_delay :: int

text \<open>What \<open>calloc\<close> returns.\<close>

definition zero_iovec :: iovec where "zero_iovec = \<lparr>iov_base = [], iov_len = 0\<rparr>"
definition zero_msghdr :: msghdr where "zero_msghdr = \<lparr>msg_iov = 0, msg_iovlen = 0\<rparr>"

definition zero_conn :: conn where
  "zero_conn =
     \<lparr>c_type = client_conn, c_next = None, c_client_id = 0, c_sfd = 0, ev_flags = 0,
      old_ev_flags = 0, c_thread = None, c_state = conn_min_state, after_write = conn_min_state,
      after_timeout = conn_min_state, c_which = 0, c_cmd = 0, c_timeout = 0, rsize = 0, rbuf = [],
      rcurr = 0, rbytes = 0, wsize = 0, wbuf = [], wcurr = 0, wbytes = 0, sbytes = 0, msglist = [],
      msgsize = 0, msgused = 0, msgcurr = 0, msgbytes = 0, iov = [], iovsize = 0, iovused = 0,
      ilist = [], isize = 0, icurr = 0, ileft = 0, rpcwaiting = 0, rpc = [], rpcsize = 0,
      rpcused = 0, rpcdone = 0, c_stats = None, mem_blob = None, mem_free_delay = 0\<rparr>"

section \<open>State and events\<close>

text \<open>Sets a connection's current state in the state machine.\<close>

definition conn_set_state :: "conn \<Rightarrow> conn_states \<Rightarrow> conn res" where
  "conn_set_state c state =
     bindR (assertR (conn_min_state < state \<and> state < conn_max_state)) (\<lambda>_.
       Ok (if state \<noteq> c_state c then c\<lparr>c_state := state\<rparr> else c))"

lemma conn_set_state_proper [simp]:
  "proper_state st \<Longrightarrow> conn_set_state c st = Ok (c\<lparr>c_state := st\<rparr>)"
  by (simp add: conn_set_state_def proper_state_def)

lemma conn_set_state_improper: "\<not> proper_state st \<Longrightarrow> conn_set_state c st = Err Abort"
  by (simp add: conn_set_state_def proper_state_def)

text \<open>
  Update the event type for a connection that we are listening on. The result is \<open>False\<close> when
  libevent fails; the timeout is passed on to libevent only.
\<close>

definition conn_update_event_t :: "env \<Rightarrow> conn \<Rightarrow> int \<Rightarrow> int option \<Rightarrow> bool \<times> env \<times> conn" where
  "conn_update_event_t e c new_flags t =
     (if ev_flags c = new_flags then (True, e, c)
      else case event_call e of (del_ok, e) \<Rightarrow>
        if \<not> del_ok then (False, e, c)
        else case event_call e of (add_ok, e) \<Rightarrow> (add_ok, e, c\<lparr>ev_flags := new_flags\<rparr>))"

definition conn_update_event :: "env \<Rightarrow> conn \<Rightarrow> int \<Rightarrow> bool \<times> env \<times> conn" where
  "conn_update_event e c new_flags = conn_update_event_t e c new_flags None"

lemma conn_update_event_cases:
  assumes "conn_update_event e c fl = (ok, e', c')"
  obtains (same) "ok" "ev_flags c = fl" "e' = e" "c' = c"
  | (changed) "ok" "ev_flags c \<noteq> fl" "c' = c\<lparr>ev_flags := fl\<rparr>" "e' = e\<lparr>events := events e + 2\<rparr>"
  | (failed) "\<not> ok" "c' = c \<or> c' = c\<lparr>ev_flags := fl\<rparr>"
      "e' = e\<lparr>events := events e + 1\<rparr> \<or> e' = e\<lparr>events := events e + 2\<rparr>"
  using assms
  by (cases "ev_flags c = fl"; cases "event_ok e (events e)"; cases "event_ok e (Suc (events e))")
     (auto simp: conn_update_event_def conn_update_event_t_def event_call_def numeral_2_eq_2)

text \<open>A successful update leaves the connection listening for exactly the wanted events.\<close>

lemma conn_update_event_ok:
  "conn_update_event e c fl = (True, e', c') \<Longrightarrow> c' = c\<lparr>ev_flags := fl\<rparr>"
  by (erule conn_update_event_cases) auto

text \<open>This should only be called in between requests; the body is an assertion only.\<close>

definition conn_shrink :: "conn \<Rightarrow> conn" where
  "conn_shrink c = c"

section \<open>The item list\<close>

text \<open>Grow the item list of a connection.\<close>

definition conn_expand_items :: "env \<Rightarrow> conn \<Rightarrow> bool \<times> env \<times> conn" where
  "conn_expand_items e c =
     (case alloc e of (ok, e) \<Rightarrow>
        if ok then (True, e, c\<lparr>isize := isize c * 2, ilist := ilist c @ replicate (isize c) None\<rparr>)
        else (False, e, c))"

definition items_ok :: "conn \<Rightarrow> bool" where
  "items_ok c \<longleftrightarrow> length (ilist c) = isize c \<and> 0 < isize c"

lemma conn_expand_items_ok:
  "conn_expand_items e c = (True, e', c') \<Longrightarrow> items_ok c \<Longrightarrow>
     items_ok c' \<and> isize c' = 2 * isize c \<and> take (isize c) (ilist c') = ilist c"
  by (auto simp: conn_expand_items_def alloc_def items_ok_def split: if_splits)

section \<open>The queue of backend requests\<close>

text \<open>
  \<open>memmove\<close> of \<open>n\<close> bytes to the start of an array of 8-byte pointers, from element \<open>src\<close>: the
  first \<open>n div 8\<close> elements are copied whole, and of the next one the \<open>n mod 8\<close> low bytes
  (little-endian).
\<close>

definition mix_bytes :: "nat \<Rightarrow> nat \<Rightarrow> nat \<Rightarrow> nat" where
  "mix_bytes r new old = new mod 256 ^ r + (old - old mod 256 ^ r)"

definition memmove_ptrs :: "nat list \<Rightarrow> nat \<Rightarrow> nat \<Rightarrow> nat list" where
  "memmove_ptrs xs src n =
     map (\<lambda>j. if j < n div 8 then xs ! (src + j)
              else if j = n div 8 \<and> n mod 8 \<noteq> 0 then mix_bytes (n mod 8) (xs ! (src + j)) (xs ! j)
              else xs ! j) [0 ..< length xs]"

text \<open>Grow the rpc queue if needed. The byte count of the \<open>memmove\<close> is the number of elements.\<close>

definition conn_ensure_rpc_space :: "env \<Rightarrow> conn \<Rightarrow> (bool \<times> env \<times> conn) res" where
  "conn_ensure_rpc_space e mc =
     bindR (assertR (c_type mc = memcached_conn)) (\<lambda>_.
       if rpcused mc \<ge> rpcsize mc then
         if rpcdone mc = 0 then
           (case alloc e of (ok, e) \<Rightarrow>
              if \<not> ok then Ok (False, e, mc)
              else Ok (True, e, mc\<lparr>rpc := rpc mc @ replicate (rpcsize mc) 0, rpcsize := rpcsize mc * 2\<rparr>))
         else
           let used = rpcused mc - rpcdone mc in
           Ok (True, e, mc\<lparr>rpc := memmove_ptrs (rpc mc) (rpcdone mc) used,
                           rpcused := used, rpcdone := 0\<rparr>)
       else Ok (True, e, mc))"

text \<open>The requests in flight, oldest first.\<close>

definition rpc_pending :: "conn \<Rightarrow> nat list" where
  "rpc_pending mc = take (rpcused mc - rpcdone mc) (drop (rpcdone mc) (rpc mc))"

definition rpc_ok :: "conn \<Rightarrow> bool" where
  "rpc_ok mc \<longleftrightarrow>
     length (rpc mc) = rpcsize mc \<and> 0 < rpcsize mc \<and> rpcdone mc \<le> rpcused mc \<and> rpcused mc \<le> rpcsize mc"

lemma length_memmove_ptrs [simp]: "length (memmove_ptrs xs s n) = length xs"
  by (simp add: memmove_ptrs_def)

lemma rpc_ok_ensure:
  assumes "rpc_ok mc" "c_type mc = memcached_conn"
    and "conn_ensure_rpc_space e mc = Ok (True, e', mc')"
  shows "rpc_ok mc' \<and> rpcused mc' < rpcsize mc' \<and>
    rpcused mc' - rpcdone mc' = rpcused mc - rpcdone mc"
  using assms
  by (auto simp: conn_ensure_rpc_space_def rpc_ok_def alloc_def Let_def split: if_splits)

text \<open>With memory there is always a free slot afterwards; the requests in flight are those of the old queue, or what the
  \<open>memmove\<close> leaves of them.\<close>

definition kept_requests :: "conn \<Rightarrow> nat list" where
  "kept_requests mc =
     (if rpcused mc < rpcsize mc \<or> rpcdone mc = 0 then rpc_pending mc
      else let used = rpcused mc - rpcdone mc in take used (memmove_ptrs (rpc mc) (rpcdone mc) used))"

lemma conn_ensure_rpc_space_ok:
  assumes "rpc_ok mc" "c_type mc = memcached_conn" "mem_ok e"
  obtains e' mc' where "conn_ensure_rpc_space e mc = Ok (True, e', mc')" "mem_ok e'" "rpc_ok mc'" "rpcused mc' < rpcsize mc'"
    "rpc_pending mc' = kept_requests mc"
    "mc' = mc\<lparr>rpc := rpc mc', rpcsize := rpcsize mc', rpcused := rpcused mc', rpcdone := rpcdone mc'\<rparr>"
proof -
  obtain e' mc' where r: "conn_ensure_rpc_space e mc = Ok (True, e', mc')" "mem_ok e'"
    using assms(2,3) by (cases "rpcused mc < rpcsize mc"; cases "rpcdone mc = 0")
      (simp_all add: conn_ensure_rpc_space_def alloc_def Let_def)
  moreover have "mc' = mc\<lparr>rpc := rpc mc', rpcsize := rpcsize mc', rpcused := rpcused mc', rpcdone := rpcdone mc'\<rparr>"
    using r(1) assms(2,3) by (auto simp: conn_ensure_rpc_space_def alloc_def Let_def split: if_splits)
  moreover have "rpc_pending mc' = kept_requests mc"
    using r(1) assms
    by (auto simp: conn_ensure_rpc_space_def rpc_ok_def rpc_pending_def kept_requests_def alloc_def Let_def split: if_splits)
  ultimately show ?thesis using that rpc_ok_ensure [OF assms(1,2) r(1)] by blast
qed

lemma kept_requests_some:
  assumes "rpc_ok mc"
  shows "length (kept_requests mc) = length (rpc_pending mc)"
    and "take (length (rpc_pending mc) div 8) (kept_requests mc) = take (length (rpc_pending mc) div 8) (rpc_pending mc)"
    and "rpcused mc < rpcsize mc \<or> rpcdone mc = 0 \<or> rpcdone mc = rpcused mc \<Longrightarrow> kept_requests mc = rpc_pending mc"
proof -
  have len: "length (rpc mc) = rpcsize mc" "rpcdone mc \<le> rpcused mc" "rpcused mc \<le> rpcsize mc"
    using assms by (simp_all add: rpc_ok_def)
  then have n: "length (rpc_pending mc) = rpcused mc - rpcdone mc" by (simp add: rpc_pending_def)
  show "length (kept_requests mc) = length (rpc_pending mc)"
    using len n by (simp add: kept_requests_def Let_def)
  show "take (length (rpc_pending mc) div 8) (kept_requests mc) = take (length (rpc_pending mc) div 8) (rpc_pending mc)"
    unfolding n using len by (intro nth_equalityI) (auto simp: kept_requests_def rpc_pending_def memmove_ptrs_def Let_def)
  show "rpcused mc < rpcsize mc \<or> rpcdone mc = 0 \<or> rpcdone mc = rpcused mc \<Longrightarrow> kept_requests mc = rpc_pending mc"
    by (auto simp: kept_requests_def rpc_pending_def)
qed

text \<open>The queue keeps its requests when it has room, when it grows, and when it is empty.\<close>

lemma rpc_pending_ensure:
  assumes "rpc_ok mc" "c_type mc = memcached_conn"
    and "conn_ensure_rpc_space e mc = Ok (True, e', mc')"
    and "rpcused mc < rpcsize mc \<or> rpcdone mc = 0 \<or> rpcdone mc = rpcused mc"
  shows "rpc_pending mc' = rpc_pending mc"
  using assms
  by (auto simp: conn_ensure_rpc_space_def rpc_ok_def rpc_pending_def alloc_def Let_def
      split: if_splits)

section \<open>Properties\<close>

text \<open>
  \<open>conn_ensure_rpc_space\<close> always leaves a free slot when it succeeds, and keeps the requests
  in flight, in order, when the queue had room, when it is grown, and when nothing is in
  flight.
\<close>

lemma conn_ensure_rpc_space_keeps:
  assumes "rpc_ok mc" and "c_type mc = memcached_conn"
    and "conn_ensure_rpc_space e mc = Ok (True, e', mc')"
    and "rpcused mc < rpcsize mc \<or> rpcdone mc = 0 \<or> rpcdone mc = rpcused mc"
  shows "rpc_ok mc' \<and> rpcused mc' < rpcsize mc' \<and> rpc_pending mc' = rpc_pending mc"
  using rpc_ok_ensure [OF assms(1-3)] rpc_pending_ensure [OF assms] by simp

text \<open>
  C34. When a full queue is compacted, the \<open>memmove\<close> counts bytes where it means elements: beyond
  the first \<open>used / 8\<close> elements nothing is moved, so the \<open>j\<close>-th request in flight becomes the
  stale \<open>j\<close>-th array entry instead of the entry \<open>rpcdone + j\<close>.
\<close>

theorem conn_ensure_rpc_space_compaction:
  assumes "rpc_ok mc" and "c_type mc = memcached_conn" and "rpcused mc = rpcsize mc"
    and "0 < rpcdone mc" and "(rpcused mc - rpcdone mc) div 8 < j" and "j < rpcused mc - rpcdone mc"
  shows "rpc_pending mc ! j = rpc mc ! (rpcdone mc + j) \<and>
    (\<exists>mc'. conn_ensure_rpc_space e mc = Ok (True, e, mc') \<and> rpc_pending mc' ! j = rpc mc ! j)"
proof -
  let ?mc = "mc\<lparr>rpc := memmove_ptrs (rpc mc) (rpcdone mc) (rpcused mc - rpcdone mc),
      rpcused := rpcused mc - rpcdone mc, rpcdone := 0\<rparr>"
  have "conn_ensure_rpc_space e mc = Ok (True, e, ?mc)"
    using assms by (simp add: conn_ensure_rpc_space_def Let_def)
  moreover have "rpc_pending ?mc ! j = rpc mc ! j"
    using assms by (simp add: rpc_pending_def memmove_ptrs_def rpc_ok_def)
  moreover have "rpc_pending mc ! j = rpc mc ! (rpcdone mc + j)"
    using assms by (simp add: rpc_pending_def rpc_ok_def)
  ultimately show ?thesis by blast
qed

theorem conn_ensure_rpc_space_compaction_witness:
  "\<exists>mc mc'. rpc_pending mc = [2000, 3000] \<and> conn_ensure_rpc_space calm_env mc = Ok (True, calm_env, mc') \<and>
     rpc_pending mc' ! 1 = 2000"
proof -
  let ?mc = "zero_conn\<lparr>c_type := memcached_conn, rpc := [1000, 2000, 3000], rpcsize := 3,
     rpcused := 3, rpcdone := 1\<rparr>"
  have "rpc_ok ?mc" "c_type ?mc = memcached_conn" "rpcused ?mc = rpcsize ?mc" "0 < rpcdone ?mc"
    "(rpcused ?mc - rpcdone ?mc) div 8 < 1" "1 < rpcused ?mc - rpcdone ?mc"
    by (simp_all add: rpc_ok_def zero_conn_def)
  from conn_ensure_rpc_space_compaction [OF this, of calm_env]
  obtain mc' where "conn_ensure_rpc_space calm_env ?mc = Ok (True, calm_env, mc')"
    "rpc_pending mc' ! 1 = rpc ?mc ! 1" by blast
  moreover have "rpc_pending ?mc = [2000, 3000]" "rpc ?mc ! 1 = 2000"
    by (simp_all add: rpc_pending_def)
  ultimately show ?thesis by metis
qed

end
