(* ===== verification/Output.thy ===== *)
theory Output
  imports Conn
begin

text \<open>
  The output side of \<open>connections.c\<close>: message headers and the flat \<open>iovec\<close> array they point
  into. \<open>conn_add_msghdr\<close> opens a message, \<open>conn_add_iov\<close> appends data to the last one and
  splits it where the first packet would exceed \<open>MAX_PAYLOAD_SIZE\<close> or a message would exceed
  \<open>IOV_MAX\<close> entries.

  \<open>out_rep c msgs\<close> relates the arrays to the list of messages they stand for, each a list of
  \<open>iovec\<close>s; the operations are proved against that list, and \<open>out_data\<close> reads off the bytes.
\<close>

text \<open>Adds a message header to a connection: \<open>False\<close> when out of memory.\<close>

definition conn_add_msghdr :: "env \<Rightarrow> conn \<Rightarrow> (bool \<times> env \<times> conn) res" where
  "conn_add_msghdr e c =
     (case (if msgsize c = msgused c then
              case alloc e of (ok, e) \<Rightarrow>
                if ok then (True, e, c\<lparr>msglist := msglist c @ replicate (msgsize c) zero_msghdr,
                                       msgsize := msgsize c * 2\<rparr>)
                else (False, e, c)
            else (True, e, c)) of
       (ok, e, c) \<Rightarrow>
         if \<not> ok then Ok (False, e, c)
         else if msgused c < length (msglist c) then
           Ok (True, e, c\<lparr>msglist := (msglist c)[msgused c := \<lparr>msg_iov = iovused c, msg_iovlen = 0\<rparr>],
                          msgbytes := 0, msgused := msgused c + 1\<rparr>)
         else Err OutOfBounds)"

text \<open>The loop that points all the message headers at the new list.\<close>

fun repoint :: "nat \<Rightarrow> nat \<Rightarrow> msghdr list \<Rightarrow> msghdr list" where
  "repoint 0 iovnum ms = ms"
| "repoint (Suc n) iovnum [] = []"
| "repoint (Suc n) iovnum (m # ms) = m\<lparr>msg_iov := iovnum\<rparr> # repoint n (iovnum + msg_iovlen m) ms"

text \<open>Ensures that there is room for another \<open>iovec\<close>: \<open>False\<close> when out of memory.\<close>

definition conn_ensure_iov_space :: "env \<Rightarrow> conn \<Rightarrow> bool \<times> env \<times> conn" where
  "conn_ensure_iov_space e c =
     (if iovused c \<ge> iovsize c then
        case alloc e of (ok, e) \<Rightarrow>
          if ok then (True, e, c\<lparr>iov := iov c @ replicate (iovsize c) zero_iovec,
                                 iovsize := iovsize c * 2,
                                 msglist := repoint (msgused c) 0 (msglist c)\<rparr>)
          else (False, e, c)
      else (True, e, c))"

text \<open>
  One round of the loop of \<open>conn_add_iov\<close>: whether it succeeded, what is left of the buffer, how
  many bytes are left over, and the new state.
\<close>

definition add_iov_step ::
  "env \<Rightarrow> conn \<Rightarrow> char list \<Rightarrow> int \<Rightarrow> (bool \<times> char list \<times> int \<times> env \<times> conn) res"
where
  "add_iov_step e c buf len =
     (if msgused c = 0 \<or> length (msglist c) < msgused c then Err OutOfBounds
      else let m = msglist c ! (msgused c - 1); limit_to_mtu = (msgused c = 1) in
      bindR (if msg_iovlen m = IOV_MAX \<or> (limit_to_mtu \<and> msgbytes c \<ge> MAX_PAYLOAD_SIZE)
             then conn_add_msghdr e c else Ok (True, e, c)) (\<lambda>(_, e, c).
      case conn_ensure_iov_space e c of (ok, e, c) \<Rightarrow>
        if \<not> ok then Ok (False, buf, 0, e, c)
        else
          let leftover = (if limit_to_mtu \<and> i32 (len + msgbytes c) > MAX_PAYLOAD_SIZE
                          then i32 (len + msgbytes c) - MAX_PAYLOAD_SIZE else 0);
              len = len - leftover;
              k = msgused c - 1;
              m = msglist c ! k;
              i = msg_iov m + msg_iovlen m in
          if i < length (iov c) then
            Ok (True, drop (nat len) buf, leftover, e,
                c\<lparr>iov := (iov c)[i := \<lparr>iov_base = buf, iov_len = nat len\<rparr>],
                  msgbytes := i32 (msgbytes c + len), iovused := iovused c + 1,
                  msglist := (msglist c)[k := m\<lparr>msg_iovlen := msg_iovlen m + 1\<rparr>]\<rparr>)
          else Err OutOfBounds))"

text \<open>Adds data to the list of pending data that will be written out to a connection.\<close>

partial_function (option) conn_add_iov ::
  "env \<Rightarrow> conn \<Rightarrow> char list \<Rightarrow> int \<Rightarrow> (bool \<times> env \<times> conn) res"
where
  "conn_add_iov e c buf len =
     (case add_iov_step e c buf len of
        None \<Rightarrow> None
      | Some (Inl x) \<Rightarrow> Err x
      | Some (Inr (ok, buf', leftover, e', c')) \<Rightarrow>
          if \<not> ok then Ok (False, e', c')
          else if leftover > 0 then conn_add_iov e' c' buf' leftover
          else Ok (True, e', c'))"

section \<open>The messages the arrays stand for\<close>

fun layout :: "nat \<Rightarrow> iovec list list \<Rightarrow> msghdr list" where
  "layout off [] = []"
| "layout off (m # ms) = \<lparr>msg_iov = off, msg_iovlen = length m\<rparr> # layout (off + length m) ms"

definition msg_len :: "iovec list \<Rightarrow> nat" where
  "msg_len m = sum_list (map iov_len m)"

definition iov_data :: "iovec \<Rightarrow> char list" where
  "iov_data v = take (iov_len v) (iov_base v)"

definition out_data :: "iovec list list \<Rightarrow> char list" where
  "out_data msgs = concat (map iov_data (concat msgs))"

definition out_rep :: "conn \<Rightarrow> iovec list list \<Rightarrow> bool" where
  "out_rep c msgs \<longleftrightarrow>
     length (msglist c) = msgsize c \<and> length (iov c) = iovsize c \<and> 2 \<le> msgsize c \<and> 0 < iovsize c \<and>
     msgused c \<le> msgsize c \<and> iovused c \<le> iovsize c \<and>
     take (msgused c) (msglist c) = layout 0 msgs \<and> take (iovused c) (iov c) = concat msgs \<and>
     (msgs \<noteq> [] \<longrightarrow> msgbytes c = i32 (int (msg_len (last msgs))))"

lemma length_layout [simp]: "length (layout off msgs) = length msgs"
  by (induction msgs arbitrary: off) auto

lemma layout_append:
  "layout off (ms @ ns) = layout off ms @ layout (off + length (concat ms)) ns"
  by (induction ms arbitrary: off) (simp_all add: add.assoc)

lemma out_data_append [simp]: "out_data (ms @ ns) = out_data ms @ out_data ns"
  by (simp add: out_data_def)

lemma out_data_Cons: "out_data (m # ms) = concat (map iov_data m) @ out_data ms"
  by (simp add: out_data_def)

lemma out_rep_used:
  assumes "out_rep c msgs"
  shows "msgused c = length msgs" and "iovused c = length (concat msgs)"
proof -
  have "length (take (msgused c) (msglist c)) = length (layout 0 msgs)"
    "length (take (iovused c) (iov c)) = length (concat msgs)"
    using assms by (simp_all add: out_rep_def)
  then show "msgused c = length msgs" "iovused c = length (concat msgs)"
    using assms by (simp_all add: out_rep_def)
qed

lemma repoint_layout:
  "repoint (length msgs) off (layout off' msgs @ r) = layout off msgs @ r"
  by (induction msgs arbitrary: off off') auto

lemma repoint_take:
  "take n ms = layout 0 msgs \<Longrightarrow> n \<le> length ms \<Longrightarrow> repoint n 0 ms = ms"
  using repoint_layout [of msgs 0 0 "drop n ms"] append_take_drop_id [of n ms]
  by (metis length_layout length_take min.absorb2)

lemma open_msg_rep:
  assumes "out_rep c msgs" and "msgused c < msgsize c"
  shows "out_rep (c\<lparr>msglist := (msglist c)[msgused c := \<lparr>msg_iov = iovused c, msg_iovlen = 0\<rparr>],
      msgbytes := 0, msgused := msgused c + 1\<rparr>) (msgs @ [[]])"
proof -
  have "take (Suc (msgused c)) ((msglist c)[msgused c := \<lparr>msg_iov = iovused c, msg_iovlen = 0\<rparr>]) =
      layout 0 (msgs @ [[]])"
    using assms out_rep_used [OF assms(1)]
    by (simp add: take_update_last layout_append out_rep_def del: take_Suc)
  then show ?thesis using assms by (simp add: out_rep_def msg_len_def)
qed

lemma grow_msglist_rep:
  "out_rep c msgs \<Longrightarrow>
   out_rep (c\<lparr>msglist := msglist c @ replicate (msgsize c) zero_msghdr, msgsize := msgsize c * 2\<rparr>) msgs"
  by (simp add: out_rep_def)

lemma conn_add_msghdr_room:
  "msgused c < msgsize c \<Longrightarrow> out_rep c msgs \<Longrightarrow>
   conn_add_msghdr e c = Ok (True, e,
     c\<lparr>msglist := (msglist c)[msgused c := \<lparr>msg_iov = iovused c, msg_iovlen = 0\<rparr>],
       msgbytes := 0, msgused := msgused c + 1\<rparr>)"
  by (simp add: conn_add_msghdr_def out_rep_def)

lemma conn_add_msghdr_full:
  assumes "msgused c = msgsize c" "out_rep c msgs"
  shows "conn_add_msghdr e c =
    (if alloc_ok e (allocs e)
     then conn_add_msghdr (snd (alloc e))
       (c\<lparr>msglist := msglist c @ replicate (msgsize c) zero_msghdr, msgsize := msgsize c * 2\<rparr>)
     else Ok (False, snd (alloc e), c))"
  using assms by (simp add: conn_add_msghdr_def alloc_def out_rep_def)

section \<open>What the output operations leave alone\<close>

text \<open>Everything of a connection but the message headers and the \<open>iovec\<close>s.\<close>

definition but_out :: "conn \<Rightarrow> conn" where
  "but_out c = c\<lparr>msglist := [], msgsize := 0, msgused := 0, msgbytes := 0, iov := [], iovsize := 0,
     iovused := 0\<rparr>"

definition same_out :: "conn \<Rightarrow> conn \<Rightarrow> bool" where
  "same_out c c' \<longleftrightarrow> but_out c' = but_out c"

lemma same_out_refl [simp]: "same_out c c"
  by (simp add: same_out_def)

lemma same_out_trans: "same_out c d \<Longrightarrow> same_out d f \<Longrightarrow> same_out c f"
  by (simp add: same_out_def)

lemma same_out_fields:
  assumes "same_out c c'"
  shows "c_state c' = c_state c" "c_type c' = c_type c" "c_sfd c' = c_sfd c" "rbuf c' = rbuf c"
    "rcurr c' = rcurr c" "rbytes c' = rbytes c" "rsize c' = rsize c" "sbytes c' = sbytes c"
    "msgcurr c' = msgcurr c" "after_write c' = after_write c" "ilist c' = ilist c"
    "isize c' = isize c" "ileft c' = ileft c" "icurr c' = icurr c" "wbuf c' = wbuf c"
    "wsize c' = wsize c" "wcurr c' = wcurr c" "wbytes c' = wbytes c" "c_stats c' = c_stats c"
    "mem_blob c' = mem_blob c" "mem_free_delay c' = mem_free_delay c" "ev_flags c' = ev_flags c"
    "rpc c' = rpc c" "rpcused c' = rpcused c" "rpcdone c' = rpcdone c" "rpcsize c' = rpcsize c"
    "rpcwaiting c' = rpcwaiting c" "c_thread c' = c_thread c" "c_client_id c' = c_client_id c"
  using assms by (cases c; cases c'; simp add: same_out_def but_out_def)+

lemma conn_add_msghdr_same:
  "conn_add_msghdr e c = Ok (ok, e', c') \<Longrightarrow> same_out c c'"
  by (auto simp: conn_add_msghdr_def same_out_def but_out_def alloc_def split: if_splits)

lemma conn_ensure_iov_space_same:
  "conn_ensure_iov_space e c = (ok, e', c') \<Longrightarrow> same_out c c'"
  by (auto simp: conn_ensure_iov_space_def same_out_def but_out_def alloc_def split: if_splits)

section \<open>The operations on the list of messages\<close>

lemma conn_add_msghdr_room_rep:
  assumes "out_rep c msgs" and "msgused c < msgsize c"
  obtains c' where "conn_add_msghdr e c = Ok (True, e, c')" and "out_rep c' (msgs @ [[]])"
  using conn_add_msghdr_room [OF assms(2,1)] open_msg_rep [OF assms] that by blast

lemma conn_add_msghdr_rep:
  assumes "out_rep c msgs"
  shows "\<exists>ok e' c'. conn_add_msghdr e c = Ok (ok, e', c') \<and>
    (ok \<longrightarrow> out_rep c' (msgs @ [[]])) \<and> (\<not> ok \<longrightarrow> c' = c \<and> msgused c = msgsize c) \<and>
    (mem_ok e \<longrightarrow> ok \<and> mem_ok e')"
proof (cases "msgused c < msgsize c")
  case True
  then obtain c' where "conn_add_msghdr e c = Ok (True, e, c')" "out_rep c' (msgs @ [[]])"
    using conn_add_msghdr_room_rep [OF assms] by metis
  then show ?thesis by auto
next
  case False
  define d where "d = c\<lparr>msglist := msglist c @ replicate (msgsize c) zero_msghdr, msgsize := msgsize c * 2\<rparr>"
  have full: "msgused c = msgsize c" using False assms by (simp add: out_rep_def)
  have "out_rep d msgs" "msgused d < msgsize d"
    using grow_msglist_rep [OF assms] assms full by (simp_all add: out_rep_def d_def)
  then obtain c' where c': "conn_add_msghdr (snd (alloc e)) d = Ok (True, snd (alloc e), c')"
    "out_rep c' (msgs @ [[]])"
    using conn_add_msghdr_room_rep by metis
  have eq: "conn_add_msghdr e c =
      (if alloc_ok e (allocs e) then Ok (True, snd (alloc e), c') else Ok (False, snd (alloc e), c))"
    using conn_add_msghdr_full [OF full assms, of e] c'(1) by (simp only: d_def)
  show ?thesis
  proof (cases "alloc_ok e (allocs e)")
    case True
    then show ?thesis using eq c'(2) by auto
  next
    case noalloc: False
    then have "\<not> mem_ok e" using mem_okD by blast
    then show ?thesis using eq noalloc full by auto
  qed
qed

lemma conn_ensure_iov_space_rep:
  assumes "out_rep c msgs"
  shows "\<exists>ok e' c'. conn_ensure_iov_space e c = (ok, e', c') \<and> out_rep c' msgs \<and>
    msgused c' = msgused c \<and> msgbytes c' = msgbytes c \<and>
    (ok \<longrightarrow> iovused c' < iovsize c') \<and> (mem_ok e \<longrightarrow> ok \<and> mem_ok e')"
proof (cases "iovused c \<ge> iovsize c \<and> alloc_ok e (allocs e)")
  case True
  define d where "d = c\<lparr>iov := iov c @ replicate (iovsize c) zero_iovec, iovsize := iovsize c * 2,
      msglist := repoint (msgused c) 0 (msglist c)\<rparr>"
  have r: "repoint (msgused c) 0 (msglist c) = msglist c"
    using assms by (intro repoint_take [where msgs = msgs]) (simp_all add: out_rep_def)
  have "conn_ensure_iov_space e c = (True, snd (alloc e), d)"
    using True by (simp add: conn_ensure_iov_space_def alloc_def d_def)
  moreover have "out_rep d msgs" "msgused d = msgused c" "msgbytes d = msgbytes c" "iovused d < iovsize d"
    using assms True by (simp_all add: out_rep_def d_def r)
  ultimately show ?thesis by auto
next
  case False
  then have "conn_ensure_iov_space e c =
      (if iovused c \<ge> iovsize c then (False, snd (alloc e), c) else (True, e, c))"
    by (auto simp: conn_ensure_iov_space_def alloc_def)
  then show ?thesis using False assms mem_okD [of e] by (cases "iovused c \<ge> iovsize c") auto
qed

lemma append_iov_rep:
  assumes rep: "out_rep c (msgs @ [m])" and room: "iovused c < iovsize c"
  defines "h \<equiv> msglist c ! (msgused c - 1)"
  shows "msg_iov h + msg_iovlen h = iovused c" and "msg_iovlen h = length m"
    and "out_rep (c\<lparr>iov := (iov c)[iovused c := v], msgbytes := i32 (msgbytes c + int (iov_len v)),
           iovused := iovused c + 1,
           msglist := (msglist c)[msgused c - 1 := h\<lparr>msg_iovlen := msg_iovlen h + 1\<rparr>]\<rparr>)
         (msgs @ [m @ [v]])"
proof -
  let ?k = "length msgs"
  have used: "msgused c = Suc ?k" "iovused c = length (concat msgs) + length m"
    using out_rep_used [OF rep] by simp_all
  have ml: "take (Suc ?k) (msglist c) = layout 0 msgs @ [\<lparr>msg_iov = length (concat msgs), msg_iovlen = length m\<rparr>]"
    using rep used by (simp add: out_rep_def layout_append)
  have len: "Suc ?k \<le> length (msglist c)" "length (iov c) = iovsize c"
    using rep used by (simp_all add: out_rep_def)
  have h: "h = \<lparr>msg_iov = length (concat msgs), msg_iovlen = length m\<rparr>"
    using arg_cong [OF ml, of "\<lambda>l. l ! ?k"] used by (simp add: h_def nth_append)
  then show "msg_iov h + msg_iovlen h = iovused c" "msg_iovlen h = length m"
    using used by simp_all
  have pre: "take ?k (msglist c) = layout 0 msgs"
    using arg_cong [OF ml, of "take ?k"] by simp
  have "take (Suc ?k) ((msglist c)[?k := h\<lparr>msg_iovlen := msg_iovlen h + 1\<rparr>]) = layout 0 (msgs @ [m @ [v]])"
    using len pre h by (simp add: take_update_last layout_append del: take_Suc)
  moreover have "take (Suc (iovused c)) ((iov c)[iovused c := v]) = concat (msgs @ [m @ [v]])"
    using rep room len by (simp add: take_update_last out_rep_def del: take_Suc)
  moreover have "i32 (msgbytes c + int (iov_len v)) = i32 (int (msg_len (m @ [v])))"
    using rep by (simp add: out_rep_def msg_len_def i32_add)
  ultimately show "out_rep (c\<lparr>iov := (iov c)[iovused c := v], msgbytes := i32 (msgbytes c + int (iov_len v)),
           iovused := iovused c + 1,
           msglist := (msglist c)[msgused c - 1 := h\<lparr>msg_iovlen := msg_iovlen h + 1\<rparr>]\<rparr>)
         (msgs @ [m @ [v]])"
    using rep room used by (simp add: out_rep_def)
qed

text \<open>Packet limits: the first message fits one packet, and no message has too many entries.\<close>

definition out_limits :: "iovec list list \<Rightarrow> bool" where
  "out_limits msgs \<longleftrightarrow>
     (msgs \<noteq> [] \<longrightarrow> int (msg_len (hd msgs)) \<le> MAX_PAYLOAD_SIZE) \<and> (\<forall>m \<in> set msgs. length m \<le> IOV_MAX)"

text \<open>Where a round puts its data: in the last message, or in a new one when that is full.\<close>

lemma last_hdr_len:
  assumes "out_rep c (msgs @ [m])"
  shows "msg_iovlen (msglist c ! (msgused c - 1)) = length m"
proof -
  have "msgused c = Suc (length msgs)" using out_rep_used(1) [OF assms] by simp
  moreover have "take (msgused c) (msglist c) ! length msgs = layout 0 (msgs @ [m]) ! length msgs"
    using assms by (simp add: out_rep_def)
  ultimately show ?thesis by (simp add: layout_append nth_append)
qed

lemma out_limits_open: "out_limits msgs \<Longrightarrow> msgs \<noteq> [] \<Longrightarrow> out_limits (msgs @ [[]])"
  by (auto simp: out_limits_def)

lemma add_iov_open:
  assumes rep: "out_rep c (msgs @ [m])"
  shows "\<exists>ok e' c' ms m'.
     (if msg_iovlen (msglist c ! (msgused c - 1)) = IOV_MAX \<or>
         (msgused c = 1 \<and> msgbytes c \<ge> MAX_PAYLOAD_SIZE)
      then conn_add_msghdr e c else Ok (True, e, c)) = Ok (ok, e', c') \<and> same_out c c' \<and>
     out_rep c' (ms @ [m']) \<and> concat (ms @ [m']) = concat (msgs @ [m]) \<and>
     (msgused c = 1 \<longrightarrow> msgbytes c' < MAX_PAYLOAD_SIZE) \<and> (ms = [] \<longrightarrow> msgused c = 1) \<and>
     (mem_ok e \<longrightarrow> mem_ok e' \<and>
        (out_limits (msgs @ [m]) \<longrightarrow> out_limits (ms @ [m']) \<and> length m' < IOV_MAX))"
proof (cases "length m = IOV_MAX \<or> (msgused c = 1 \<and> msgbytes c \<ge> MAX_PAYLOAD_SIZE)")
  case False
  have "ms = [] \<Longrightarrow> msgused c = 1" if "ms = msgs" for ms
    using that out_rep_used(1) [OF rep] by simp
  moreover have "length m < IOV_MAX" if "out_limits (msgs @ [m])"
    using that False by (auto simp: out_limits_def)
  ultimately show ?thesis
    using False rep
    by (intro exI [of _ True] exI [of _ e] exI [of _ c] exI [of _ msgs] exI [of _ m])
       (auto simp: last_hdr_len [OF rep, simplified])
next
  case True
  obtain ok e' c' where a: "conn_add_msghdr e c = Ok (ok, e', c')"
    "ok \<longrightarrow> out_rep c' ((msgs @ [m]) @ [[]])" "\<not> ok \<longrightarrow> c' = c \<and> msgused c = msgsize c"
    "mem_ok e \<longrightarrow> ok \<and> mem_ok e'"
    using conn_add_msghdr_rep [OF rep, of e] by blast
  have same: "same_out c c'" using a(1) by (rule conn_add_msghdr_same)
  have cond: "(if msg_iovlen (msglist c ! (msgused c - 1)) = IOV_MAX \<or>
         (msgused c = 1 \<and> msgbytes c \<ge> MAX_PAYLOAD_SIZE)
      then conn_add_msghdr e c else Ok (True, e, c)) = Ok (ok, e', c')"
    using True a(1) by (simp only: last_hdr_len [OF rep] if_True)
  show ?thesis
  proof (cases ok)
    case ok: True
    then have rep': "out_rep c' ((msgs @ [m]) @ [[]])" using a(2) by simp
    then have "msgbytes c' < MAX_PAYLOAD_SIZE"
      by (simp add: out_rep_def msg_len_def MAX_PAYLOAD_SIZE_def)
    then show ?thesis
      using cond same rep' a(4) out_limits_open [of "msgs @ [m]"]
      by (intro exI [of _ ok] exI [of _ e'] exI [of _ c'] exI [of _ "msgs @ [m]"] exI [of _ "[]"] conjI)
         (simp_all add: out_data_def IOV_MAX_def)
  next
    case False
    then have "c' = c" "msgused c \<noteq> 1" "\<not> mem_ok e"
      using a rep by (auto simp: out_rep_def)
    then show ?thesis
      using cond rep out_rep_used(1) [OF rep]
      by (intro exI [of _ ok] exI [of _ e'] exI [of _ c'] exI [of _ msgs] exI [of _ m] conjI) simp_all
  qed
qed

lemma out_limits_put:
  assumes "out_limits (ms @ [m])" "length m < IOV_MAX"
    and "ms = [] \<longrightarrow> int (msg_len m) + int (iov_len v) \<le> MAX_PAYLOAD_SIZE"
  shows "out_limits (ms @ [m @ [v]])"
  using assms by (cases ms) (auto simp: out_limits_def msg_len_def)

text \<open>One round: it adds a prefix of the data and shortens what is left.\<close>

lemma add_iov_step_rep:
  assumes rep: "out_rep c msgs" and ne: "msgs \<noteq> []" and len: "0 \<le> len"
  shows "\<exists>ok buf' lo e' c' ms. add_iov_step e c buf len = Ok (ok, buf', lo, e', c') \<and> same_out c c' \<and>
    out_rep c' ms \<and> ms \<noteq> [] \<and>
    (mem_ok e \<longrightarrow> ok \<and> mem_ok e' \<and> (out_limits msgs \<and> len \<le> INT_MAX - MAX_PAYLOAD_SIZE \<longrightarrow> out_limits ms)) \<and>
    (ok \<longrightarrow> buf' = drop (nat (len - lo)) buf \<and> 0 \<le> lo \<and> lo \<le> len \<and> (0 < lo \<longrightarrow> lo < len) \<and>
       concat ms = concat msgs @ [\<lparr>iov_base = buf, iov_len = nat (len - lo)\<rparr>])"
proof -
  obtain ps p where msgs: "msgs = ps @ [p]" using ne by (metis rev_exhaust)
  obtain ok1 e1 c1 ms m where o: "(if msg_iovlen (msglist c ! (msgused c - 1)) = IOV_MAX \<or>
         (msgused c = 1 \<and> msgbytes c \<ge> MAX_PAYLOAD_SIZE)
      then conn_add_msghdr e c else Ok (True, e, c)) = Ok (ok1, e1, c1)" "same_out c c1"
    "out_rep c1 (ms @ [m])" "concat (ms @ [m]) = concat msgs"
    "msgused c = 1 \<longrightarrow> msgbytes c1 < MAX_PAYLOAD_SIZE" "ms = [] \<longrightarrow> msgused c = 1"
    "mem_ok e \<longrightarrow> mem_ok e1 \<and> (out_limits msgs \<longrightarrow> out_limits (ms @ [m]) \<and> length m < IOV_MAX)"
    using add_iov_open [of c ps p e] rep msgs by blast
  obtain ok2 e2 c2 where s: "conn_ensure_iov_space e1 c1 = (ok2, e2, c2)" "out_rep c2 (ms @ [m])"
    "msgused c2 = msgused c1" "msgbytes c2 = msgbytes c1" "ok2 \<longrightarrow> iovused c2 < iovsize c2"
    "mem_ok e1 \<longrightarrow> ok2 \<and> mem_ok e2"
    using conn_ensure_iov_space_rep [OF o(3), of e1] by blast
  have same2: "same_out c c2"
    using o(2) conn_ensure_iov_space_same [OF s(1)] by (rule same_out_trans)
  have guard: "\<not> (msgused c = 0 \<or> length (msglist c) < msgused c)"
    using rep ne out_rep_used(1) [OF rep] by (simp add: out_rep_def)
  show ?thesis
  proof (cases ok2)
    case False
    then have "add_iov_step e c buf len = Ok (False, buf, 0, e2, c2)"
      using guard o(1) s(1) by (simp add: add_iov_step_def Let_def del: One_nat_def)
    then show ?thesis using same2 s(2,6) o(7) False by auto
  next
    case True
    define lo where "lo = (if msgused c = 1 \<and> i32 (len + msgbytes c1) > MAX_PAYLOAD_SIZE
      then i32 (len + msgbytes c1) - MAX_PAYLOAD_SIZE else 0)"
    define h where "h = msglist c2 ! (msgused c2 - 1)"
    define v where "v = \<lparr>iov_base = buf, iov_len = nat (len - lo)\<rparr>"
    define c3 where "c3 = c2\<lparr>iov := (iov c2)[iovused c2 := v], msgbytes := i32 (msgbytes c2 + int (iov_len v)),
        iovused := iovused c2 + 1,
        msglist := (msglist c2)[msgused c2 - 1 := h\<lparr>msg_iovlen := msg_iovlen h + 1\<rparr>]\<rparr>"
    have room: "iovused c2 < iovsize c2" using s(5) True by simp
    note app = append_iov_rep [OF s(2) room, folded h_def]
    have mb: "msgbytes c1 = i32 (int (msg_len m))" using o(3) by (simp add: out_rep_def)
    have "i32 (len + msgbytes c1) \<le> len + msgbytes c1"
      using i32_range [of "int (msg_len m)"] len by (intro i32_le) (simp add: mb)
    then have lo: "0 \<le> lo" "lo \<le> len" "0 < lo \<longrightarrow> lo < len" using len o(5) by (auto simp: lo_def)
    have step: "add_iov_step e c buf len = Ok (True, drop (nat (len - lo)) buf, lo, e2, c3)"
      using guard o(1) s(1,2,4) True room app(1) lo(2)
      by (simp add: add_iov_step_def Let_def out_rep_def c3_def v_def h_def lo_def del: One_nat_def)
    have "out_rep c3 (ms @ [m @ [v]])" using app(3) by (simp add: c3_def)
    moreover have "same_out c c3" using same2 by (simp add: c3_def same_out_def but_out_def)
    moreover have "concat (ms @ [m @ [v]]) = concat msgs @ [\<lparr>iov_base = buf, iov_len = nat (len - lo)\<rparr>]"
      using o(4) by (simp add: v_def)
    moreover have "out_limits (ms @ [m @ [v]])" if "mem_ok e" "out_limits msgs" "len \<le> INT_MAX - MAX_PAYLOAD_SIZE"
    proof (rule out_limits_put)
      show "out_limits (ms @ [m])" "length m < IOV_MAX" using that o(7) by simp_all
      show "ms = [] \<longrightarrow> int (msg_len m) + int (iov_len v) \<le> MAX_PAYLOAD_SIZE"
      proof
        assume first: "ms = []"
        then have "int (msg_len m) \<le> MAX_PAYLOAD_SIZE" using that o(7) by (auto simp: out_limits_def)
        then have "msgbytes c1 = int (msg_len m)" "i32 (len + msgbytes c1) = len + msgbytes c1"
          using mb len that(3) by (simp_all add: MAX_PAYLOAD_SIZE_def)
        then show "int (msg_len m) + int (iov_len v) \<le> MAX_PAYLOAD_SIZE"
          using o(6) lo(2) len first by (auto simp: v_def lo_def)
      qed
    qed
    ultimately show ?thesis using step lo s(6) o(7) by (intro exI conjI) (assumption | simp)+
  qed
qed

section \<open>Adding data\<close>

text \<open>An entry reads inside its object.\<close>

definition iov_ok :: "iovec \<Rightarrow> bool" where
  "iov_ok v \<longleftrightarrow> iov_len v \<le> length (iov_base v)"

definition out_safe :: "iovec list list \<Rightarrow> bool" where
  "out_safe msgs \<longleftrightarrow> list_all iov_ok (concat msgs)"

definition out_len :: "iovec list list \<Rightarrow> nat" where
  "out_len msgs = sum_list (map iov_len (concat msgs))"

text \<open>\<open>ms\<close> is \<open>msgs\<close> with \<open>n\<close> bytes from \<open>buf\<close> added, in one or more pieces.\<close>

definition added :: "iovec list list \<Rightarrow> char list \<Rightarrow> nat \<Rightarrow> iovec list list \<Rightarrow> bool" where
  "added msgs buf n ms \<longleftrightarrow>
     out_data ms = out_data msgs @ take n buf \<and> out_len ms = out_len msgs + n \<and>
     (out_safe msgs \<longrightarrow> n \<le> length buf \<longrightarrow> out_safe ms)"

lemma added_one:
  "concat ms = concat msgs @ [\<lparr>iov_base = buf, iov_len = n\<rparr>] \<Longrightarrow> added msgs buf n ms"
  by (simp add: added_def out_data_def out_len_def out_safe_def iov_data_def iov_ok_def)

lemma added_trans:
  assumes "added msgs buf n ms" and "added ms (drop n buf) k ms'"
  shows "added msgs buf (n + k) ms'"
  using assms by (auto simp: added_def take_add)

lemma out_safe_len: "out_safe ms \<Longrightarrow> length (out_data ms) = out_len ms"
proof -
  have "list_all iov_ok vs \<Longrightarrow> length (concat (map iov_data vs)) = sum_list (map iov_len vs)" for vs
    by (induction vs) (auto simp: iov_ok_def iov_data_def)
  then show "out_safe ms \<Longrightarrow> length (out_data ms) = out_len ms"
    by (simp add: out_safe_def out_data_def out_len_def)
qed

lemma added_unsafe:
  assumes "added msgs buf n ms" and "length buf < n" and "out_safe msgs"
  shows "\<not> out_safe ms"
proof
  assume "out_safe ms"
  then have "length (out_data ms) = out_len ms" by (rule out_safe_len)
  with assms out_safe_len [OF assms(3)] show False by (simp add: added_def)
qed

lemma conn_add_iov_limited:
  assumes "out_rep c msgs" and "msgs \<noteq> []" and "0 \<le> len"
  shows "\<exists>ok e' c' ms. conn_add_iov e c buf len = Ok (ok, e', c') \<and> same_out c c' \<and>
    out_rep c' ms \<and> ms \<noteq> [] \<and>
    (mem_ok e \<longrightarrow> ok \<and> mem_ok e' \<and> (out_limits msgs \<and> len \<le> INT_MAX - MAX_PAYLOAD_SIZE \<longrightarrow> out_limits ms)) \<and>
    (ok \<longrightarrow> added msgs buf (nat len) ms)"
  using assms
proof (induction "nat len" arbitrary: e c buf len msgs rule: less_induct)
  case less
  obtain ok buf' lo e1 c1 ms where st: "add_iov_step e c buf len = Ok (ok, buf', lo, e1, c1)"
    "same_out c c1" "out_rep c1 ms" "ms \<noteq> []"
    "mem_ok e \<longrightarrow> ok \<and> mem_ok e1 \<and> (out_limits msgs \<and> len \<le> INT_MAX - MAX_PAYLOAD_SIZE \<longrightarrow> out_limits ms)"
    "ok \<longrightarrow> buf' = drop (nat (len - lo)) buf \<and> 0 \<le> lo \<and> lo \<le> len \<and> (0 < lo \<longrightarrow> lo < len) \<and>
       concat ms = concat msgs @ [\<lparr>iov_base = buf, iov_len = nat (len - lo)\<rparr>]"
    using add_iov_step_rep [OF less.prems, of e buf] by blast
  consider (fail) "\<not> ok" | (last) "ok" "lo = 0" | (more) "ok" "0 < lo" using st(6) by fastforce
  then show ?case
  proof cases
    case fail
    then have "conn_add_iov e c buf len = Ok (False, e1, c1)"
      using st(1) by (subst conn_add_iov.simps) simp
    then show ?thesis using fail st(2-5) by auto
  next
    case last
    then have "conn_add_iov e c buf len = Ok (True, e1, c1)"
      using st(1) by (subst conn_add_iov.simps) simp
    moreover have "added msgs buf (nat len) ms" using last st(6) added_one by simp
    ultimately show ?thesis using last st(2-5) by auto
  next
    case more
    then have lo: "0 \<le> lo" "lo < len" "buf' = drop (nat (len - lo)) buf"
      "added msgs buf (nat (len - lo)) ms"
      using st(6) added_one by simp_all
    obtain ok' e2 c2 ms' where r: "conn_add_iov e1 c1 buf' lo = Ok (ok', e2, c2)" "same_out c1 c2"
      "out_rep c2 ms'" "ms' \<noteq> []"
      "mem_ok e1 \<longrightarrow> ok' \<and> mem_ok e2 \<and> (out_limits ms \<and> lo \<le> INT_MAX - MAX_PAYLOAD_SIZE \<longrightarrow> out_limits ms')"
      "ok' \<longrightarrow> added ms buf' (nat lo) ms'"
      using less.hyps [OF _ st(3,4) lo(1), of e1 buf'] lo(1,2) by auto
    have "conn_add_iov e c buf len = Ok (ok', e2, c2)"
      using st(1) more r(1) by (subst conn_add_iov.simps) simp
    moreover have "added msgs buf (nat len) ms'" if ok'
    proof -
      have "added msgs buf (nat (len - lo) + nat lo) ms'"
        using lo(3,4) r(6) that by (intro added_trans [OF lo(4)]) simp
      then show ?thesis using lo(1,2) by (simp add: nat_add_distrib [symmetric])
    qed
    ultimately show ?thesis using same_out_trans [OF st(2) r(2)] r(3-5) st(5) lo(2)
      by (intro exI [of _ ok'] exI [of _ e2] exI [of _ c2] exI [of _ ms']) auto
  qed
qed

lemma conn_add_iov_rep:
  assumes "out_rep c msgs" and "msgs \<noteq> []" and "0 \<le> len"
  shows "\<exists>ok e' c' ms. conn_add_iov e c buf len = Ok (ok, e', c') \<and> same_out c c' \<and>
    out_rep c' ms \<and> ms \<noteq> [] \<and> (mem_ok e \<longrightarrow> ok \<and> mem_ok e') \<and> (ok \<longrightarrow> added msgs buf (nat len) ms)"
  using conn_add_iov_limited [OF assms, of e buf] by blast

text \<open>A small connection with one open message.\<close>

definition small_conn :: conn where
  "small_conn = zero_conn\<lparr>msglist := [zero_msghdr, zero_msghdr], msgsize := 2, msgused := 1,
     iov := [zero_iovec], iovsize := 1\<rparr>"

lemma small_conn_rep: "out_rep small_conn [[]]" "out_limits [[]]"
  by (simp_all add: out_rep_def out_limits_def small_conn_def zero_conn_def zero_msghdr_def msg_len_def
      MAX_PAYLOAD_SIZE_def)

section \<open>Properties\<close>

text \<open>
  C13. \<open>conn_add_iov\<close> returns for every buffer and length, and on success the pending output is
  what it was followed by exactly the first \<open>len\<close> bytes of the buffer, however the data was
  split over messages and however the arrays were reallocated. With memory available it
  succeeds. No other field of the connection changes.
\<close>

theorem conn_add_iov_appends:
  assumes "out_rep c msgs" and "msgs \<noteq> []" and "0 \<le> len"
  shows "\<exists>ok e' c' ms. conn_add_iov e c buf len = Ok (ok, e', c') \<and> out_rep c' ms \<and>
    (mem_ok e \<longrightarrow> ok) \<and> (ok \<longrightarrow> out_data ms = out_data msgs @ take (nat len) buf) \<and> but_out c' = but_out c"
  using conn_add_iov_rep [OF assms, of e buf] by (auto simp: added_def same_out_def)

theorem conn_add_iov_appends_witness:
  "\<exists>e' c' ms. conn_add_iov calm_env small_conn ''END\<newline>'' 4 = Ok (True, e', c') \<and> out_rep c' ms \<and>
     out_data ms = ''END\<newline>''"
  using conn_add_iov_appends [OF small_conn_rep(1), of 4 calm_env "''END\<newline>''"]
  by (auto simp: out_data_def)

text \<open>
  C25. With memory available \<open>conn_add_iov\<close> keeps the limits of the network: the first message
  never exceeds \<open>MAX_PAYLOAD_SIZE\<close> bytes and no message has more than \<open>IOV_MAX\<close> entries. The sum
  of the length and of the bytes of the message is computed at 32 bits, so the length
  must be \<open>MAX_PAYLOAD_SIZE\<close> below the largest \<open>int\<close>: for a longer one the sum can wrap to a negative number, and then
  the data is not split.
\<close>

theorem conn_add_iov_limits:
  assumes "out_rep c msgs" and "msgs \<noteq> []" and "0 \<le> len" and "len \<le> INT_MAX - MAX_PAYLOAD_SIZE" and "mem_ok e"
    and "out_limits msgs"
  shows "\<exists>e' c' ms. conn_add_iov e c buf len = Ok (True, e', c') \<and> out_rep c' ms \<and>
    int (msg_len (hd ms)) \<le> MAX_PAYLOAD_SIZE \<and> (\<forall>m \<in> set ms. length m \<le> IOV_MAX)"
proof -
  obtain ok e' c' ms where r: "conn_add_iov e c buf len = Ok (ok, e', c')" "out_rep c' ms" "ms \<noteq> []"
    "ok" "out_limits ms"
    using conn_add_iov_limited [OF assms(1-3), of e buf] assms(4-6) by blast
  then show ?thesis by (auto simp: out_limits_def)
qed

theorem conn_add_iov_limits_witness:
  "\<exists>e' c' ms. conn_add_iov calm_env small_conn (replicate 3000 (CHR ''x'')) 3000 = Ok (True, e', c') \<and>
     out_rep c' ms \<and> int (msg_len (hd ms)) \<le> MAX_PAYLOAD_SIZE"
  using conn_add_iov_limits [OF small_conn_rep(1) _ _ _ mem_ok_calm small_conn_rep(2),
      of 3000 "replicate 3000 (CHR ''x'')"]
  by (auto simp: MAX_PAYLOAD_SIZE_def)

end
