(* ===== verification/Transmit.thy ===== *)
theory Transmit
  imports Output
begin

text \<open>
  \<open>error_response\<close> and \<open>transmit\<close> of \<open>server.c\<close>: the line a connection sends outside of a get
  response, and the writer that hands the pending messages to \<open>sendmsg\<close>.

  \<open>tx_rep c msgs\<close> says which messages are still to be sent while a transmission is under way:
  the message headers from \<open>msgcurr\<close> on cover one contiguous part of the \<open>iov\<close> array.
\<close>

datatype write_result =
    TRANSMIT_COMPLETE
  | TRANSMIT_INCOMPLETE
  | TRANSMIT_SOFT_ERROR
  | TRANSMIT_HARD_ERROR

text \<open>Write out a string to the connection, clearing any existing pending data.\<close>

definition error_response :: "env \<Rightarrow> conn \<Rightarrow> string \<Rightarrow> (env \<times> conn) res" where
  "error_response e c str =
     bindR (conn_add_msghdr e (c\<lparr>msgcurr := 0, msgused := 0, iovused := 0\<rparr>)) (\<lambda>(_, e, c).
     let str = (if int (length str) + 2 > wsize c then ''SERVER_ERROR output line too long'' else str);
         len = int (length str) in
     bindR (memwrite (wbuf c) 0 str) (\<lambda>b.
     bindR (memwrite b len CRLF) (\<lambda>b.
     bindR (conn_set_state (c\<lparr>wbuf := b, wbytes := len + 2, wcurr := 0\<rparr>) conn_write) (\<lambda>c.
       Ok (e, c\<lparr>after_write := conn_new_cmd\<rparr>)))))"

text \<open>The loop that removes the completed \<open>iovec\<close>s: \<open>res\<close> bytes, at index \<open>i\<close>, \<open>n\<close> entries left.\<close>

fun tx_consume :: "iovec list \<Rightarrow> nat \<Rightarrow> nat \<Rightarrow> nat \<Rightarrow> nat \<times> nat \<times> nat" where
  "tx_consume v res i 0 = (res, i, 0)"
| "tx_consume v res i (Suc n) =
     (if res \<ge> iov_len (v ! i) then tx_consume v (res - iov_len (v ! i)) (i + 1) n else (res, i, Suc n))"

text \<open>
  After a \<open>sendmsg\<close> that took \<open>res > 0\<close> bytes of the current message. A partly sent entry is
  advanced so that the next write does the rest.
\<close>

definition tx_sent :: "conn \<Rightarrow> nat \<Rightarrow> conn res" where
  "tx_sent c res =
     (let m = msglist c ! msgcurr c in
      case tx_consume (iov c) res (msg_iov m) (msg_iovlen m) of (res, i, n) \<Rightarrow>
        let c = c\<lparr>msglist := (msglist c)[msgcurr c := \<lparr>msg_iov = i, msg_iovlen = n\<rparr>]\<rparr> in
        if res > 0 then
          if i < length (iov c) then
            let v = iov c ! i in
            Ok (c\<lparr>iov := (iov c)[i := \<lparr>iov_base = drop res (iov_base v), iov_len = iov_len v - res\<rparr>]\<rparr>)
          else Err OutOfBounds
        else Ok c)"

text \<open>Skip the current message when it is finished.\<close>

definition tx_skip :: "conn \<Rightarrow> conn" where
  "tx_skip c =
     (if msgcurr c < msgused c \<and> msg_iovlen (msglist c ! msgcurr c) = 0
      then c\<lparr>msgcurr := msgcurr c + 1\<rparr> else c)"

text \<open>
  Hand the current message to \<open>sendmsg\<close>, which reads its entries: an entry that reaches outside
  its object is an out-of-bounds access.
\<close>

definition tx_send :: "env \<Rightarrow> conn \<Rightarrow> (write_result \<times> env \<times> conn) res" where
  "tx_send e c =
     (if msgcurr c < msgused c then
        let m = msglist c ! msgcurr c;
            vs = take (msg_iovlen m) (drop (msg_iov m) (iov c)) in
        if length (msglist c) \<le> msgcurr c \<or> length (iov c) < msg_iov m + msg_iovlen m \<or>
           \<not> list_all iov_ok vs then Err OutOfBounds
        else
          (case sys_send e (c_sfd c) (concat (map iov_data vs)) of
             (Sent k, e) \<Rightarrow>
               if 0 < k then
                 bindR (tx_sent c k) (\<lambda>c. Ok (TRANSMIT_INCOMPLETE, e, c))
               else bindR (conn_set_state c conn_closing) (\<lambda>c. Ok (TRANSMIT_HARD_ERROR, e, c))
           | (SdAgain, e) \<Rightarrow>
               (case conn_update_event e c EV_WRITE_PERSIST of (ok, e, c) \<Rightarrow>
                  if \<not> ok then bindR (conn_set_state c conn_closing) (\<lambda>c. Ok (TRANSMIT_HARD_ERROR, e, c))
                  else Ok (TRANSMIT_SOFT_ERROR, e, c))
           | (SdErr, e) \<Rightarrow>
               bindR (conn_set_state c conn_closing) (\<lambda>c. Ok (TRANSMIT_HARD_ERROR, e, c)))
      else Ok (TRANSMIT_COMPLETE, e, c))"

text \<open>Transmit the next chunk of data from the list of messages.\<close>

definition transmit :: "env \<Rightarrow> conn \<Rightarrow> (write_result \<times> env \<times> conn) res" where
  "transmit e c = tx_send e (tx_skip c)"

section \<open>The error line\<close>

text \<open>The arrays of a connection as \<open>conn_new\<close> allocates them.\<close>

definition arrays_ok :: "conn \<Rightarrow> bool" where
  "arrays_ok c \<longleftrightarrow>
     length (msglist c) = msgsize c \<and> length (iov c) = iovsize c \<and> 2 \<le> msgsize c \<and> 0 < iovsize c"

definition wbuf_ok :: "conn \<Rightarrow> bool" where
  "wbuf_ok c \<longleftrightarrow> int (length (wbuf c)) = wsize c \<and> 64 \<le> wsize c"

lemma out_rep_arrays: "out_rep c msgs \<Longrightarrow> arrays_ok c"
  by (simp add: out_rep_def arrays_ok_def)

lemma out_rep_reset: "arrays_ok c \<Longrightarrow> out_rep (c\<lparr>msgcurr := 0, msgused := 0, iovused := 0\<rparr>) []"
  by (simp add: out_rep_def arrays_ok_def)

text \<open>Opening the first message never needs memory.\<close>

lemma conn_add_msghdr_first:
  assumes "arrays_ok c"
  obtains c' where "conn_add_msghdr e (c\<lparr>msgcurr := 0, msgused := 0, iovused := 0\<rparr>) = Ok (True, e, c')"
    and "out_rep c' [[]]" and "same_out (c\<lparr>msgcurr := 0\<rparr>) c'"
proof -
  let ?c = "c\<lparr>msgcurr := 0, msgused := 0, iovused := 0\<rparr>"
  have rep: "out_rep ?c []" "msgused ?c < msgsize ?c"
    using assms out_rep_reset [OF assms] by (simp_all add: arrays_ok_def)
  obtain c' where c': "conn_add_msghdr e ?c = Ok (True, e, c')" "out_rep c' [[]]"
    using conn_add_msghdr_room_rep [OF rep, of e] by auto
  moreover have "same_out (c\<lparr>msgcurr := 0\<rparr>) c'"
    using conn_add_msghdr_same [OF c'(1)] by (simp add: same_out_def but_out_def)
  ultimately show ?thesis using that by blast
qed

definition error_line :: "conn \<Rightarrow> string \<Rightarrow> string" where
  "error_line c str =
     (if int (length str) + 2 > wsize c then ''SERVER_ERROR output line too long'' else str) @ CRLF"

text \<open>Everything of a connection but its output and its state.\<close>

definition but_resp :: "conn \<Rightarrow> conn" where
  "but_resp c = (but_out c)\<lparr>msgcurr := 0, wbuf := [], wbytes := 0, wcurr := 0,
     c_state := conn_min_state, after_write := conn_min_state\<rparr>"

definition same_resp :: "conn \<Rightarrow> conn \<Rightarrow> bool" where
  "same_resp c c' \<longleftrightarrow> but_resp c' = but_resp c"

lemma same_resp_refl [simp]: "same_resp c c"
  by (simp add: same_resp_def)

lemma same_resp_trans: "same_resp c d \<Longrightarrow> same_resp d f \<Longrightarrow> same_resp c f"
  by (simp add: same_resp_def)

lemma same_out_resp: "same_out c c' \<Longrightarrow> same_resp c c'"
  by (simp add: same_out_def same_resp_def but_resp_def)

lemma same_resp_update [simp]:
  "same_resp c (c'\<lparr>c_state := st\<rparr>) = same_resp c c'"
  "same_resp c (c'\<lparr>after_write := st\<rparr>) = same_resp c c'"
  "same_resp c (c'\<lparr>msgcurr := k\<rparr>) = same_resp c c'"
  "same_resp c (c'\<lparr>wbuf := b\<rparr>) = same_resp c c'"
  "same_resp c (c'\<lparr>wbytes := n\<rparr>) = same_resp c c'"
  "same_resp c (c'\<lparr>wcurr := n\<rparr>) = same_resp c c'"
  "same_resp c (c'\<lparr>iov := v\<rparr>) = same_resp c c'"
  "same_resp c (c'\<lparr>msglist := m\<rparr>) = same_resp c c'"
  "same_resp (c\<lparr>msgcurr := k\<rparr>) c' = same_resp c c'"
  by (simp_all add: same_resp_def but_resp_def but_out_def)

lemma same_resp_fields:
  assumes "same_resp c c'"
  shows "c_type c' = c_type c" "c_sfd c' = c_sfd c" "rbuf c' = rbuf c"
    "rcurr c' = rcurr c" "rbytes c' = rbytes c" "rsize c' = rsize c" "sbytes c' = sbytes c"
    "ilist c' = ilist c" "isize c' = isize c" "ileft c' = ileft c" "icurr c' = icurr c"
    "wsize c' = wsize c" "c_stats c' = c_stats c"
    "mem_blob c' = mem_blob c" "mem_free_delay c' = mem_free_delay c" "ev_flags c' = ev_flags c"
    "rpc c' = rpc c" "rpcused c' = rpcused c" "rpcdone c' = rpcdone c" "rpcsize c' = rpcsize c"
    "rpcwaiting c' = rpcwaiting c" "c_thread c' = c_thread c" "c_client_id c' = c_client_id c"
  using assms by (cases c; cases c'; simp add: same_resp_def but_resp_def but_out_def)+

lemma length_error_line: "wbuf_ok c \<Longrightarrow> int (length (error_line c str)) \<le> wsize c"
  by (simp add: error_line_def wbuf_ok_def)

lemma error_response_ok:
  assumes "arrays_ok c" and "wbuf_ok c"
  obtains c' where "error_response e c str = Ok (e, c')" "out_rep c' [[]]" "msgcurr c' = 0"
    "c_state c' = conn_write" "after_write c' = conn_new_cmd" "wcurr c' = 0"
    "take (nat (wbytes c')) (wbuf c') = error_line c str" "wbytes c' = int (length (error_line c str))"
    "wbuf_ok c'" "same_resp c c'"
proof -
  obtain d where d: "conn_add_msghdr e (c\<lparr>msgcurr := 0, msgused := 0, iovused := 0\<rparr>) = Ok (True, e, d)"
    "out_rep d [[]]" "same_out (c\<lparr>msgcurr := 0\<rparr>) d"
    using conn_add_msghdr_first [OF assms(1)] .
  note f = same_out_fields [OF d(3), simplified]
  define s where "s = (if int (length str) + 2 > wsize c then ''SERVER_ERROR output line too long'' else str)"
  have s: "length s + 2 \<le> length (wbuf c)" "error_line c str = s @ CRLF"
    using assms(2) by (auto simp: s_def wbuf_ok_def error_line_def)
  define b where "b = blit (blit (wbuf c) 0 s) (length s) CRLF"
  have b: "length b = length (wbuf c)" "take (length s + 2) b = s @ CRLF"
    using s(1) by (simp_all add: b_def blit_def)
  define c' where "c' = d\<lparr>wbuf := b, wbytes := int (length s) + 2, wcurr := 0, c_state := conn_write,
    after_write := conn_new_cmd\<rparr>"
  have "error_response e c str = Ok (e, c')"
    using d(1) s(1) f by (simp add: error_response_def memwrite_def Let_def s_def [symmetric] b_def c'_def)
  moreover have "out_rep c' [[]]" using d(2) by (simp add: c'_def out_rep_def)
  moreover have "same_resp c c'"
    using same_out_resp [OF d(3)] by (simp add: c'_def)
  moreover have "wbuf_ok c'" using assms(2) b(1) f by (simp add: c'_def wbuf_ok_def)
  moreover have "take (nat (wbytes c')) (wbuf c') = error_line c str"
    "wbytes c' = int (length (error_line c str))"
    using b(2) s(2) by (simp_all add: c'_def nat_add_distrib)
  moreover have "msgcurr c' = 0" using f by (simp add: c'_def)
  ultimately show ?thesis using that by (simp add: c'_def)
qed

text \<open>A connection that is about to write one line and then to read the next command.\<close>

definition says :: "conn \<Rightarrow> string \<Rightarrow> bool" where
  "says c line \<longleftrightarrow>
     out_rep c [[]] \<and> msgcurr c = 0 \<and> c_state c = conn_write \<and> after_write c = conn_new_cmd \<and>
     wcurr c = 0 \<and> wbytes c = int (length line) \<and> take (length line) (wbuf c) = line \<and> wbuf_ok c"

lemma error_response_says:
  assumes "arrays_ok c" and "wbuf_ok c" and "length str \<le> 62"
  obtains c' where "error_response e c str = Ok (e, c')" "says c' (str @ CRLF)" "same_resp c c'"
proof -
  have "error_line c str = str @ CRLF" using assms(2,3) by (simp add: error_line_def wbuf_ok_def)
  moreover obtain c' where c': "error_response e c str = Ok (e, c')" "out_rep c' [[]]" "msgcurr c' = 0"
    "c_state c' = conn_write" "after_write c' = conn_new_cmd" "wcurr c' = 0"
    "take (nat (wbytes c')) (wbuf c') = error_line c str" "wbytes c' = int (length (error_line c str))"
    "wbuf_ok c'" "same_resp c c'"
    using error_response_ok [OF assms(1,2)] .
  ultimately have "take (length (str @ CRLF)) (wbuf c') = str @ CRLF" "wbytes c' = int (length (str @ CRLF))"
    by (simp_all only: nat_int)
  with c' have "says c' (str @ CRLF)" by (simp only: says_def)
  with c'(1,10) show ?thesis by (intro that)
qed

section \<open>Sending\<close>

definition tx_rep :: "conn \<Rightarrow> iovec list list \<Rightarrow> bool" where
  "tx_rep c msgs \<longleftrightarrow>
     msgcurr c \<le> msgused c \<and> msgused c \<le> length (msglist c) \<and>
     (\<exists>off. take (msgused c - msgcurr c) (drop (msgcurr c) (msglist c)) = layout off msgs \<and>
        off + length (concat msgs) \<le> length (iov c) \<and>
        take (length (concat msgs)) (drop off (iov c)) = concat msgs)"

lemma out_rep_tx:
  assumes "out_rep c msgs" and "msgcurr c = 0"
  shows "tx_rep c msgs"
  unfolding tx_rep_def using assms out_rep_used(2) [OF assms(1), symmetric]
  by (intro conjI exI [of _ 0]) (simp_all add: out_rep_def del: length_concat)

lemma tx_rep_count: "tx_rep c msgs \<Longrightarrow> length msgs = msgused c - msgcurr c"
proof -
  assume "tx_rep c msgs"
  then obtain off where "take (msgused c - msgcurr c) (drop (msgcurr c) (msglist c)) = layout off msgs"
    "msgused c \<le> length (msglist c)" "msgcurr c \<le> msgused c"
    by (auto simp: tx_rep_def)
  from arg_cong [OF this(1), of length] this(2,3) show ?thesis by simp
qed

text \<open>The current message of a transmission.\<close>

lemma tx_rep_head:
  assumes "tx_rep c (m # ms)"
  obtains off where "msgcurr c < msgused c" "msgused c \<le> length (msglist c)"
    "msglist c ! msgcurr c = \<lparr>msg_iov = off, msg_iovlen = length m\<rparr>"
    "take (msgused c - Suc (msgcurr c)) (drop (Suc (msgcurr c)) (msglist c)) = layout (off + length m) ms"
    "off + length m + length (concat ms) \<le> length (iov c)"
    "take (length m) (drop off (iov c)) = m"
    "take (length (concat ms)) (drop (off + length m) (iov c)) = concat ms"
proof -
  obtain off where o: "take (msgused c - msgcurr c) (drop (msgcurr c) (msglist c)) = layout off (m # ms)"
    "off + length (concat (m # ms)) \<le> length (iov c)"
    "take (length (concat (m # ms))) (drop off (iov c)) = concat (m # ms)" "msgused c \<le> length (msglist c)"
    using assms by (auto simp: tx_rep_def)
  have lt: "msgcurr c < msgused c" using tx_rep_count [OF assms] by simp
  then have "drop (msgcurr c) (msglist c) = msglist c ! msgcurr c # drop (Suc (msgcurr c)) (msglist c)"
    using o(4) by (simp add: Cons_nth_drop_Suc)
  moreover have "msgused c - msgcurr c = Suc (msgused c - Suc (msgcurr c))" using lt by simp
  ultimately have "msglist c ! msgcurr c = \<lparr>msg_iov = off, msg_iovlen = length m\<rparr>"
    "take (msgused c - Suc (msgcurr c)) (drop (Suc (msgcurr c)) (msglist c)) = layout (off + length m) ms"
    using o(1) by simp_all
  moreover have "length (take (length m) (drop off (iov c))) = length m" using o(2) by simp
  then have "take (length m) (drop off (iov c)) = m"
    "take (length (concat ms)) (drop (off + length m) (iov c)) = concat ms"
    using o(3) by (simp_all add: take_add add.commute append_eq_append_conv)
  ultimately show ?thesis using that lt o(2,4) by simp
qed

lemma tx_consume_sent:
  assumes "tx_consume v res i n = (r, j, k)" and "i + n \<le> length v"
    and "list_all iov_ok (take n (drop i v))"
    and "res \<le> length (concat (map iov_data (take n (drop i v))))"
  shows "j + k = i + n \<and> i \<le> j \<and> (0 < r \<longrightarrow> 0 < k \<and> r < iov_len (v ! j)) \<and>
    drop r (concat (map iov_data (take k (drop j v)))) =
      drop res (concat (map iov_data (take n (drop i v))))"
  using assms
proof (induction v res i n rule: tx_consume.induct)
  case (1 v res i)
  then show ?case by auto
next
  case (2 v res i n)
  have region: "take (Suc n) (drop i v) = v ! i # take n (drop (Suc i) v)"
    using "2.prems"(2) by (simp add: Cons_nth_drop_Suc [symmetric])
  have ok: "length (iov_data (v ! i)) = iov_len (v ! i)"
    using "2.prems"(3) by (simp add: region iov_ok_def iov_data_def)
  show ?case
  proof (cases "res \<ge> iov_len (v ! i)")
    case True
    have "j + k = i + 1 + n \<and> i + 1 \<le> j \<and> (0 < r \<longrightarrow> 0 < k \<and> r < iov_len (v ! j)) \<and>
      drop r (concat (map iov_data (take k (drop j v)))) =
        drop (res - iov_len (v ! i)) (concat (map iov_data (take n (drop (i + 1) v))))"
      using "2.prems" True region ok by (intro "2.IH") auto
    then show ?thesis using True region ok by auto
  next
    case False
    then show ?thesis using "2.prems"(1) by auto
  qed
qed

text \<open>The entries of a message after \<open>res\<close> of its bytes were sent.\<close>

lemma tx_sent_rep:
  assumes rep: "tx_rep c (m # ms)" and safe: "list_all iov_ok m"
    and res: "res \<le> length (concat (map iov_data m))"
  shows "\<exists>c' m'. tx_sent c res = Ok c' \<and> tx_rep c' (m' # ms) \<and> list_all iov_ok m' \<and>
    concat (map iov_data m') = drop res (concat (map iov_data m)) \<and> same_resp c c' \<and>
    c_state c' = c_state c \<and> msgused c' = msgused c"
proof -
  obtain off where o: "msgcurr c < msgused c" "msgused c \<le> length (msglist c)"
    "msglist c ! msgcurr c = \<lparr>msg_iov = off, msg_iovlen = length m\<rparr>"
    "take (msgused c - Suc (msgcurr c)) (drop (Suc (msgcurr c)) (msglist c)) = layout (off + length m) ms"
    "off + length m + length (concat ms) \<le> length (iov c)" "take (length m) (drop off (iov c)) = m"
    "take (length (concat ms)) (drop (off + length m) (iov c)) = concat ms"
    using tx_rep_head [OF rep] .
  obtain r j k where cons: "tx_consume (iov c) res off (length m) = (r, j, k)"
    by (cases "tx_consume (iov c) res off (length m)") auto
  have post: "j + k = off + length m" "off \<le> j" "0 < r \<longrightarrow> 0 < k \<and> r < iov_len (iov c ! j)"
    "drop r (concat (map iov_data (take k (drop j (iov c))))) = drop res (concat (map iov_data m))"
    using tx_consume_sent [OF cons] o(5,6) safe res by auto
  define v where "v = (if 0 < r then (iov c)[j := \<lparr>iov_base = drop r (iov_base (iov c ! j)),
      iov_len = iov_len (iov c ! j) - r\<rparr>] else iov c)"
  define m' where "m' = take k (drop j v)"
  define c' where "c' = c\<lparr>msglist := (msglist c)[msgcurr c := \<lparr>msg_iov = j, msg_iovlen = k\<rparr>], iov := v\<rparr>"
  have len: "length v = length (iov c)" by (simp add: v_def)
  have k: "length m' = k" using post(1) o(5) len by (simp add: m'_def)
  have "tx_sent c res = Ok c'"
    using cons post o(3,5) by (auto simp: tx_sent_def Let_def c'_def v_def)
  moreover have "tx_rep c' (m' # ms)"
  proof -
    have "drop (off + length m) v = drop (off + length m) (iov c)"
      using post(1,3) by (auto simp: v_def drop_update_cancel)
    then have "take (length (concat (m' # ms))) (drop j v) = concat (m' # ms)"
      using o(7) post(1) k by (simp add: take_add add.commute m'_def)
    moreover have "take (msgused c - msgcurr c) (drop (msgcurr c)
        ((msglist c)[msgcurr c := \<lparr>msg_iov = j, msg_iovlen = k\<rparr>])) = layout j (m' # ms)"
      using o(1,2,4) post(1) k
      by (simp add: Cons_nth_drop_Suc [symmetric] drop_update_cancel Suc_diff_Suc [symmetric])
    ultimately show ?thesis
      using o(1,2,5) post(1) k len by (auto simp: tx_rep_def c'_def intro!: exI [of _ j])
  qed
  moreover have "list_all iov_ok m' \<and> concat (map iov_data m') = drop r (concat (map iov_data (take k (drop j (iov c)))))"
  proof -
    have "take k (drop j (iov c)) = drop (j - off) m"
      using o(6) post(1,2) by (metis add_diff_cancel_left' diff_diff_eq drop_drop drop_take le_add_diff_inverse2)
    then have ok: "list_all iov_ok (take k (drop j (iov c)))"
      using safe by (metis append_take_drop_id list_all_append)
    show ?thesis
    proof (cases "0 < r")
      case False
      then show ?thesis using ok by (simp add: m'_def v_def)
    next
      case True
      define w where "w = iov c ! j"
      obtain k' where k': "k = Suc k'" using True post(3) by (cases k) auto
      have j: "j < length (iov c)" using post(1) o(5) k' by simp
      then have R: "take k (drop j (iov c)) = w # take k' (drop (Suc j) (iov c))"
        by (simp add: k' w_def Cons_nth_drop_Suc [symmetric])
      have "m' = \<lparr>iov_base = drop r (iov_base w), iov_len = iov_len w - r\<rparr> # take k' (drop (Suc j) (iov c))"
        using True j by (simp add: m'_def v_def k' w_def Cons_nth_drop_Suc [symmetric] drop_update_cancel)
      moreover have "iov_ok w" "r < iov_len w" using ok R True post(3) by (simp_all add: w_def)
      ultimately show ?thesis
        using ok R by (auto simp: iov_ok_def iov_data_def drop_take)
    qed
  qed
  then have "list_all iov_ok m'" "concat (map iov_data m') = drop res (concat (map iov_data m))"
    using post(4) by simp_all
  ultimately show ?thesis by (auto simp: c'_def intro!: exI [of _ c'] exI [of _ m'])
qed

lemma tx_rep_skip:
  assumes "tx_rep c ([] # ms)"
  shows "tx_rep (c\<lparr>msgcurr := msgcurr c + 1\<rparr>) ms"
proof -
  obtain off where o: "msgcurr c < msgused c" "msgused c \<le> length (msglist c)"
    "msglist c ! msgcurr c = \<lparr>msg_iov = off, msg_iovlen = length ([] :: iovec list)\<rparr>"
    "take (msgused c - Suc (msgcurr c)) (drop (Suc (msgcurr c)) (msglist c)) = layout (off + length ([] :: iovec list)) ms"
    "off + length ([] :: iovec list) + length (concat ms) \<le> length (iov c)"
    "take (length ([] :: iovec list)) (drop off (iov c)) = []"
    "take (length (concat ms)) (drop (off + length ([] :: iovec list)) (iov c)) = concat ms"
    using tx_rep_head [OF assms] .
  have z: "length ([] :: iovec list) = 0" by simp
  note o' = o [unfolded z add_0_right]
  define d where "d = c\<lparr>msgcurr := Suc (msgcurr c)\<rparr>"
  have d: "msgcurr d = Suc (msgcurr c)" "msgused d = msgused c" "msglist d = msglist c" "iov d = iov c"
    by (simp_all add: d_def)
  have "tx_rep d ms"
    unfolding tx_rep_def d using o'(1,2,4,5,7) by (intro conjI exI [of _ off]) (simp only: Suc_le_eq)+
  then show ?thesis by (simp add: d_def)
qed

lemma tx_skip_rep:
  assumes "tx_rep c msgs"
  obtains "msgs = []" "tx_skip c = c" | m ms where "msgs = m # ms" "m \<noteq> []" "tx_skip c = c"
  | ms where "msgs = [] # ms" "tx_skip c = c\<lparr>msgcurr := msgcurr c + 1\<rparr>" "tx_rep (tx_skip c) ms"
proof (cases msgs)
  case Nil
  moreover from Nil have "tx_skip c = c" using tx_rep_count [OF assms] by (simp add: tx_skip_def)
  ultimately show ?thesis by (rule that(1))
next
  case (Cons m ms)
  obtain off where h: "msgcurr c < msgused c"
    "msglist c ! msgcurr c = \<lparr>msg_iov = off, msg_iovlen = length m\<rparr>"
    using tx_rep_head [OF assms [unfolded Cons]] by metis
  show ?thesis
  proof (cases "m = []")
    case True
    then have "msgs = [] # ms" "tx_skip c = c\<lparr>msgcurr := msgcurr c + 1\<rparr>"
      using Cons h by (simp_all add: tx_skip_def)
    then show ?thesis using tx_rep_skip [of c ms] assms by (intro that(3)) simp_all
  next
    case False
    then have "tx_skip c = c" using h by (simp add: tx_skip_def)
    with Cons False show ?thesis by (rule that(2))
  qed
qed

text \<open>Everything of a connection that the writer leaves alone.\<close>

definition same_tx :: "conn \<Rightarrow> conn \<Rightarrow> bool" where
  "same_tx c c' \<longleftrightarrow> (but_resp c')\<lparr>ev_flags := 0\<rparr> = (but_resp c)\<lparr>ev_flags := 0\<rparr>"

lemma same_tx_simps [simp]:
  "same_tx c c" "same_tx c (c'\<lparr>c_state := st\<rparr>) = same_tx c c'"
  "same_tx c (c'\<lparr>ev_flags := fl\<rparr>) = same_tx c c'" "same_tx (c\<lparr>msgcurr := k\<rparr>) c' = same_tx c c'"
  by (simp_all add: same_tx_def but_resp_def but_out_def)

lemma same_resp_tx: "same_resp c c' \<Longrightarrow> same_tx c c'"
  by (simp add: same_tx_def same_resp_def)

lemma same_tx_fields:
  assumes "same_tx c c'"
  shows "c_type c' = c_type c" "c_sfd c' = c_sfd c" "rbuf c' = rbuf c"
    "rcurr c' = rcurr c" "rbytes c' = rbytes c" "rsize c' = rsize c" "sbytes c' = sbytes c"
    "ilist c' = ilist c" "isize c' = isize c" "ileft c' = ileft c" "icurr c' = icurr c"
    "wsize c' = wsize c" "c_stats c' = c_stats c"
    "mem_blob c' = mem_blob c" "mem_free_delay c' = mem_free_delay c"
    "rpc c' = rpc c" "rpcused c' = rpcused c" "rpcdone c' = rpcdone c" "rpcsize c' = rpcsize c"
    "rpcwaiting c' = rpcwaiting c" "c_thread c' = c_thread c" "c_client_id c' = c_client_id c"
  using assms by (cases c; cases c'; simp add: same_tx_def but_resp_def but_out_def)+

text \<open>
  The conservation law of the writer: what was sent and what is pending, joined, do not change. A message is sent
  only when all of its entries lie inside their objects.
\<close>

definition tx_step :: "env \<Rightarrow> conn \<Rightarrow> iovec list list \<Rightarrow> write_result \<Rightarrow> env \<Rightarrow> conn \<Rightarrow> iovec list list \<Rightarrow> bool" where
  "tx_step e c msgs r e' c' ms \<longleftrightarrow>
     tx_rep c' ms \<and> (out_safe msgs \<longrightarrow> out_safe ms) \<and> wire e' (c_sfd c) @ out_data ms = wire e (c_sfd c) @ out_data msgs \<and>
     (\<forall>fd. fd \<noteq> c_sfd c \<longrightarrow> wire e' fd = wire e fd) \<and>
     same_tx c c' \<and>
     (case r of
        TRANSMIT_COMPLETE \<Rightarrow> out_data msgs = [] \<and> e' = e \<and> c_state c' = c_state c
      | TRANSMIT_INCOMPLETE \<Rightarrow> length (out_data ms) < length (out_data msgs) \<and> c_state c' = c_state c
      | TRANSMIT_SOFT_ERROR \<Rightarrow> ev_flags c' = EV_WRITE_PERSIST \<and> c_state c' = c_state c \<and> out_data ms = out_data msgs
      | TRANSMIT_HARD_ERROR \<Rightarrow> c_state c' = conn_closing \<and> out_data ms = out_data msgs)"

lemma tx_rep_update [simp]:
  "tx_rep (c\<lparr>c_state := st\<rparr>) = tx_rep c" "tx_rep (c\<lparr>ev_flags := fl\<rparr>) = tx_rep c"
  by (simp_all add: tx_rep_def fun_eq_iff)

lemma sys_send_wire_other:
  "sys_send e fd bs = (r, e') \<Longrightarrow> fd' \<noteq> fd \<Longrightarrow> wire e' fd' = wire e fd'"
  by (auto simp: sys_send_def split: list.splits sd.splits)

lemma tx_send_step:
  assumes rep: "tx_rep c msgs"
  shows "tx_send e c = Err OutOfBounds \<and> \<not> out_safe msgs \<or>
    (\<exists>r e' c' ms. tx_send e c = Ok (r, e', c') \<and> tx_step e c msgs r e' c' ms)"
proof (cases msgs)
  case Nil
  then have "tx_send e c = Ok (TRANSMIT_COMPLETE, e, c)"
    using tx_rep_count [OF rep] by (simp add: tx_send_def)
  then show ?thesis using rep Nil by (auto simp: tx_step_def out_data_def)
next
  case (Cons m ms)
  obtain off where o: "msgcurr c < msgused c" "msgused c \<le> length (msglist c)"
    "msglist c ! msgcurr c = \<lparr>msg_iov = off, msg_iovlen = length m\<rparr>"
    "off + length m + length (concat ms) \<le> length (iov c)" "take (length m) (drop off (iov c)) = m"
    using tx_rep_head [of c m ms] rep Cons by metis
  show ?thesis
  proof (cases "list_all iov_ok m")
    case False
    then have "tx_send e c = Err OutOfBounds" using o by (simp add: tx_send_def Let_def)
    then show ?thesis using False Cons by (simp add: out_safe_def)
  next
    case okm: True
    define bs where "bs = concat (map iov_data m)"
    have data: "out_data msgs = bs @ out_data ms" by (simp add: Cons bs_def out_data_Cons)
    obtain x e1 where snd: "sys_send e (c_sfd c) bs = (x, e1)" by fastforce
    have other: "wire e1 fd = wire e fd" if "fd \<noteq> c_sfd c" for fd
      using sys_send_wire_other [OF snd that] .
    have send: "tx_send e c = (case (x, e1) of
               (Sent k, e) \<Rightarrow>
                 if 0 < k then bindR (tx_sent c k) (\<lambda>c. Ok (TRANSMIT_INCOMPLETE, e, c))
                 else bindR (conn_set_state c conn_closing) (\<lambda>c. Ok (TRANSMIT_HARD_ERROR, e, c))
             | (SdAgain, e) \<Rightarrow>
                 (case conn_update_event e c EV_WRITE_PERSIST of (ok, e, c) \<Rightarrow>
                    if \<not> ok then bindR (conn_set_state c conn_closing) (\<lambda>c. Ok (TRANSMIT_HARD_ERROR, e, c))
                    else Ok (TRANSMIT_SOFT_ERROR, e, c))
             | (SdErr, e) \<Rightarrow>
                 bindR (conn_set_state c conn_closing) (\<lambda>c. Ok (TRANSMIT_HARD_ERROR, e, c)))"
      using o okm snd by (simp add: tx_send_def Let_def bs_def)
    show ?thesis
    proof (cases x)
      case (Sent k)
      have k: "k \<le> length bs" "wire e1 (c_sfd c) = wire e (c_sfd c) @ take k bs"
        using sys_send_wire [OF snd [unfolded Sent]] by auto
      show ?thesis
      proof (cases "0 < k")
        case True
        obtain c' m' where s: "tx_sent c k = Ok c'" "tx_rep c' (m' # ms)" "list_all iov_ok m'"
          "concat (map iov_data m') = drop k bs" "same_resp c c'" "c_state c' = c_state c"
          using tx_sent_rep [of c m ms k] rep Cons okm k(1) by (auto simp: bs_def)
        have keep: "out_safe msgs \<longrightarrow> out_safe (m' # ms)" using s(3) by (simp add: Cons out_safe_def)
        have "tx_step e c msgs TRANSMIT_INCOMPLETE e1 c' (m' # ms)"
          using s k other True same_resp_tx [OF s(5)] keep
          by (auto simp: tx_step_def data out_data_Cons)
        then show ?thesis using send Sent True s(1) by auto
      next
        case False
        then have "tx_step e c msgs TRANSMIT_HARD_ERROR e1 (c\<lparr>c_state := conn_closing\<rparr>) msgs"
          using rep k other by (simp add: tx_step_def)
        then show ?thesis using send Sent False by auto
      qed
    next
      case SdAgain
      have w: "wire e1 = wire e" using sys_send_fail [OF snd] SdAgain by simp
      obtain ok e2 c2 where u: "conn_update_event e1 c EV_WRITE_PERSIST = (ok, e2, c2)"
        by (cases "conn_update_event e1 c EV_WRITE_PERSIST") auto
      then have c2: "c2 = c \<or> c2 = c\<lparr>ev_flags := EV_WRITE_PERSIST\<rparr>" "wire e2 = wire e"
        "ok \<longrightarrow> ev_flags c2 = EV_WRITE_PERSIST"
        using w by (auto elim!: conn_update_event_cases)
      show ?thesis
      proof (cases ok)
        case True
        then have "tx_step e c msgs TRANSMIT_SOFT_ERROR e2 c2 msgs"
          using rep c2 by (auto simp: tx_step_def)
        then show ?thesis using send SdAgain u True by auto
      next
        case False
        then have "tx_step e c msgs TRANSMIT_HARD_ERROR e2 (c2\<lparr>c_state := conn_closing\<rparr>) msgs"
          using rep c2 by (auto simp: tx_step_def)
        then show ?thesis using send SdAgain u False by auto
      qed
    next
      case SdErr
      have w: "wire e1 = wire e" using sys_send_fail [OF snd] SdErr by simp
      then have "tx_step e c msgs TRANSMIT_HARD_ERROR e1 (c\<lparr>c_state := conn_closing\<rparr>) msgs"
        using rep by (simp add: tx_step_def)
      then show ?thesis using send SdErr by auto
    qed
  qed
qed

lemma transmit_step:
  assumes "tx_rep c msgs"
  shows "transmit e c = Err OutOfBounds \<and> \<not> out_safe msgs \<or>
    (\<exists>r e' c' ms. transmit e c = Ok (r, e', c') \<and> tx_step e c msgs r e' c' ms)"
  using assms
proof (cases rule: tx_skip_rep)
  case (3 ms)
  have eq: "out_data ms = out_data msgs" "out_safe ms = out_safe msgs" using 3(1) by (simp_all add: out_data_def out_safe_def)
  have "tx_step e (tx_skip c) ms r e' c' ms' = tx_step e c msgs r e' c' ms'" for r e' c' ms'
    by (simp add: tx_step_def eq 3(2) split: write_result.splits)
  then show ?thesis using tx_send_step [of "tx_skip c" ms e] 3 eq by (simp add: transmit_def)
qed (use tx_send_step [OF assms, of e] in \<open>auto simp: transmit_def\<close>)

lemma transmit_safe:
  assumes "tx_rep c msgs" and "out_safe msgs"
  shows "\<exists>r e' c' ms. transmit e c = Ok (r, e', c') \<and> tx_step e c msgs r e' c' ms"
  using transmit_step [OF assms(1), of e] assms(2) by blast

section \<open>Properties\<close>

text \<open>
  C9. One call of \<open>transmit\<close> neither loses, repeats nor reorders a byte: what was sent joined with
  what is still pending does not change, whatever \<open>sendmsg\<close> accepts. It reports completion only
  when nothing is pending, an incomplete write only when strictly less is pending than before, a
  soft error only with the connection waiting for writability and a hard error only with the
  connection closing.
\<close>

theorem transmit_conserves:
  assumes "tx_rep c msgs" and "out_safe msgs"
  shows "\<exists>r e' c' ms. transmit e c = Ok (r, e', c') \<and> tx_rep c' ms \<and> out_safe ms \<and>
    wire e' (c_sfd c) @ out_data ms = wire e (c_sfd c) @ out_data msgs \<and>
    (r = TRANSMIT_COMPLETE \<longrightarrow> out_data msgs = [] \<and> e' = e) \<and>
    (r = TRANSMIT_INCOMPLETE \<longrightarrow> length (out_data ms) < length (out_data msgs) \<and> c_state c' = c_state c) \<and>
    (r = TRANSMIT_SOFT_ERROR \<longrightarrow> ev_flags c' = EV_WRITE_PERSIST \<and> c_state c' = c_state c) \<and>
    (r = TRANSMIT_HARD_ERROR \<longrightarrow> c_state c' = conn_closing)"
proof -
  obtain r e' c' ms where "transmit e c = Ok (r, e', c')" "tx_step e c msgs r e' c' ms"
    using transmit_safe [OF assms] by blast
  then show ?thesis using assms(2)
    by (intro exI [of _ r] exI [of _ e'] exI [of _ c'] exI [of _ ms])
       (cases r; auto simp: tx_step_def)
qed

definition hello_conn :: conn where
  "hello_conn = zero_conn\<lparr>c_sfd := 7, c_state := conn_mwrite,
     msglist := [\<lparr>msg_iov = 0, msg_iovlen = 2\<rparr>, zero_msghdr], msgsize := 2, msgused := 1,
     iov := [\<lparr>iov_base = ''hello'', iov_len = 5\<rparr>, \<lparr>iov_base = ''world'', iov_len = 5\<rparr>],
     iovsize := 2, iovused := 2, msgbytes := 10\<rparr>"

definition hello_msgs :: "iovec list list" where
  "hello_msgs = [[\<lparr>iov_base = ''hello'', iov_len = 5\<rparr>, \<lparr>iov_base = ''world'', iov_len = 5\<rparr>]]"

lemma hello_conn_rep: "tx_rep hello_conn hello_msgs" "out_safe hello_msgs" "c_sfd hello_conn = 7"
  by (simp_all add: tx_rep_def hello_conn_def hello_msgs_def out_safe_def iov_ok_def zero_conn_def numeral_2_eq_2)

theorem transmit_conserves_witness:
  "\<exists>r e' c' ms. transmit (calm_env\<lparr>sock_out := \<lambda>_. [Sent 7]\<rparr>) hello_conn = Ok (r, e', c') \<and>
     wire e' 7 = ''hellowo'' \<and> out_data ms = ''rld'' \<and> tx_rep c' ms"
proof -
  let ?e = "calm_env\<lparr>sock_out := \<lambda>_. [Sent 7]\<rparr>"
  obtain r e' c' ms where t: "transmit ?e hello_conn = Ok (r, e', c')" "tx_rep c' ms"
    "wire e' (c_sfd hello_conn) @ out_data ms = wire ?e (c_sfd hello_conn) @ out_data hello_msgs"
    using transmit_conserves [OF hello_conn_rep(1,2), of ?e] by blast
  have "wire e' 7 = ''hellowo''"
    using t(1) by (auto simp: transmit_def tx_skip_def tx_send_def hello_conn_def zero_conn_def sys_send_def
        calm_env_def iov_ok_def iov_data_def tx_sent_def Let_def numeral_2_eq_2 min_def split: if_splits)
  moreover from this have "out_data ms = ''rld''"
    using t(3) by (simp add: hello_conn_rep(3) calm_env_def hello_msgs_def out_data_def iov_data_def)
  ultimately show ?thesis using t(1,2) by blast
qed

text \<open>
  An entry whose length reaches past the end of its object makes \<open>transmit\<close> read outside the
  object as soon as its message is the current one.
\<close>

lemma transmit_overread:
  assumes "tx_rep c (m # ms)" and "m \<noteq> []" and "\<not> list_all iov_ok m"
  shows "transmit e c = Err OutOfBounds"
proof -
  obtain off where h: "msgcurr c < msgused c"
    "msglist c ! msgcurr c = \<lparr>msg_iov = off, msg_iovlen = length m\<rparr>" "take (length m) (drop off (iov c)) = m"
    using tx_rep_head [OF assms(1)] by metis
  then have "tx_skip c = c" using assms(2) by (simp add: tx_skip_def)
  then show ?thesis using h assms(3) by (simp add: transmit_def tx_send_def Let_def)
qed

text \<open>
  C24. \<open>error_response\<close> drops the output that was pending, so that the next message to be sent is the first of
  the list, an empty one, and leaves exactly the given line and a CRLF to be written (or the fallback line when it does not fit the write buffer), with the
  connection in \<open>conn_write\<close> and due to read the next command afterwards. It needs no memory, and
  never writes outside the write buffer.
\<close>

theorem error_response_replaces:
  assumes "arrays_ok c" and "wbuf_ok c"
  shows "\<exists>c'. error_response e c str = Ok (e, c') \<and> out_rep c' [[]] \<and> msgcurr c' = 0 \<and> c_state c' = conn_write \<and>
    after_write c' = conn_new_cmd \<and> rbytes c' = rbytes c \<and> rcurr c' = rcurr c \<and> rbuf c' = rbuf c \<and>
    take (nat (wbytes c')) (drop (nat (wcurr c')) (wbuf c')) =
      (if int (length str) + 2 \<le> wsize c then str @ CRLF else ''SERVER_ERROR output line too long'' @ CRLF)"
proof -
  obtain c' where c': "error_response e c str = Ok (e, c')" "out_rep c' [[]]" "msgcurr c' = 0"
    "c_state c' = conn_write" "after_write c' = conn_new_cmd" "wcurr c' = 0"
    "take (nat (wbytes c')) (wbuf c') = error_line c str" "wbytes c' = int (length (error_line c str))"
    "wbuf_ok c'" "same_resp c c'"
    using error_response_ok [OF assms] .
  then show ?thesis using same_resp_fields [OF c'(10)]
    by (intro exI [of _ c']) (simp add: error_line_def)
qed

theorem error_response_replaces_witness:
  "\<exists>c'. error_response calm_env (hello_conn\<lparr>wsize := 64, wbuf := replicate 64 NUL\<rparr>) ''ERROR'' = Ok (calm_env, c') \<and>
     out_rep c' [[]] \<and> msgcurr c' = 0 \<and> take (nat (wbytes c')) (drop (nat (wcurr c')) (wbuf c')) = ''ERROR'' @ CRLF"
proof -
  let ?c = "hello_conn\<lparr>wsize := 64, wbuf := replicate 64 NUL\<rparr>"
  have "arrays_ok ?c" "wbuf_ok ?c" "wsize ?c = 64"
    by (simp_all add: arrays_ok_def wbuf_ok_def hello_conn_def)
  then show ?thesis using error_response_replaces [of ?c calm_env "''ERROR''"] by auto
qed

end
