(* ===== verification/Tokens.thy ===== *)
theory Tokens
  imports Prelude
begin

text \<open>
  \<open>tokenize_command\<close> of \<open>protocol.c\<close>. It works in place: the command is a C string inside a
  buffer, a token is an offset into that buffer with a length, and the space that ends a
  token is overwritten with NUL so that the token is a C string of its own. The pointers of
  the source are offsets into the buffer here, and the null pointer is \<open>None\<close>.

  The reference definitions \<open>words\<close> and \<open>split_words\<close> say what the tokens are as text;
  \<open>tokenize_correct\<close> is the equivalence.
\<close>

record token_t =
  tvalue :: "nat option"
  tlength :: nat

definition COMMAND_TOKEN :: nat where "COMMAND_TOKEN = 0"
definition KEY_TOKEN :: nat where "KEY_TOKEN = 1"
definition MAX_TOKENS :: nat where "MAX_TOKENS = 8"
definition KEY_MAX_LENGTH :: nat where "KEY_MAX_LENGTH = 250"

lemmas token_consts = COMMAND_TOKEN_def KEY_TOKEN_def MAX_TOKENS_def KEY_MAX_LENGTH_def

section \<open>The scanner\<close>

text \<open>
  The \<open>for\<close> loop, with \<open>len - i\<close> rounds left: the buffer, the start \<open>s\<close> of the current word,
  the scan position \<open>e\<close> and the tokens stored so far.
\<close>

fun tok_loop ::
  "nat \<Rightarrow> nat \<Rightarrow> char list \<Rightarrow> nat \<Rightarrow> nat \<Rightarrow> token_t list \<Rightarrow> char list \<times> nat \<times> nat \<times> token_t list"
where
  "tok_loop mx 0 buf s e toks = (buf, s, e, toks)"
| "tok_loop mx (Suc k) buf s e toks =
     (if buf ! e = SP then
        if s \<noteq> e then
          let toks' = toks @ [\<lparr>tvalue = Some s, tlength = e - s\<rparr>];
              buf' = buf[e := NUL] in
          if length toks' = mx - 1 then (buf', e + 1, e + 1, toks')
          else tok_loop mx k buf' (e + 1) (e + 1) toks'
        else tok_loop mx k buf (e + 1) (e + 1) toks
      else tok_loop mx k buf s (e + 1) toks)"

text \<open>What follows the loop: the last word, and the terminal token.\<close>

definition tok_finish ::
  "char list \<times> nat \<times> nat \<times> token_t list \<Rightarrow> token_t list \<times> char list"
where
  "tok_finish st =
     (case st of (buf, s, e, toks) \<Rightarrow>
        let toks' = (if s \<noteq> e then toks @ [\<lparr>tvalue = Some s, tlength = e - s\<rparr>] else toks)
        in (toks' @ [\<lparr>tvalue = (if buf ! e = NUL then None else Some e), tlength = 0\<rparr>], buf))"

text \<open>
  \<open>tokenize_command buf p mx\<close> scans the command at offset \<open>p\<close>. \<open>strlen\<close> runs off the buffer
  when no NUL follows. The result is the token array and the changed buffer; \<open>ntokens\<close> is the
  length of the array.
\<close>

definition tokenize_command :: "char list \<Rightarrow> nat \<Rightarrow> nat \<Rightarrow> (token_t list \<times> char list) res" where
  "tokenize_command buf p mx =
     (if NUL \<notin> set (drop p buf) then Err OutOfBounds
      else bindR (assertR (1 < mx)) (\<lambda>_.
        Ok (tok_finish (tok_loop mx (length (cstr (drop p buf))) buf p p []))))"

text \<open>A token as a C string.\<close>

definition token_text :: "char list \<Rightarrow> token_t \<Rightarrow> string" where
  "token_text buf t = (case tvalue t of None \<Rightarrow> [] | Some q \<Rightarrow> cstr (drop q buf))"

section \<open>The reference: words of a line\<close>

fun words_go :: "string \<Rightarrow> string \<Rightarrow> string list" where
  "words_go w [] = (if w = [] then [] else [w])"
| "words_go w (c # r) =
     (if c = SP then (if w = [] then words_go [] r else w # words_go [] r) else words_go (w @ [c]) r)"

definition words :: "string \<Rightarrow> string list" where
  "words s = words_go [] s"

text \<open>At most \<open>n\<close> words, and the text after the space that ended the \<open>n\<close>-th.\<close>

fun split_go :: "nat \<Rightarrow> string \<Rightarrow> string \<Rightarrow> string list \<times> string" where
  "split_go n w [] = ((if w = [] then [] else [w]), [])"
| "split_go n w (c # r) =
     (if c = SP then
        if w = [] then split_go n [] r
        else if n \<le> 1 then ([w], r)
        else (case split_go (n - 1) [] r of (ws, rest) \<Rightarrow> (w # ws, rest))
      else split_go n (w @ [c]) r)"

definition split_words :: "nat \<Rightarrow> string \<Rightarrow> string list \<times> string" where
  "split_words n s = split_go n [] s"

lemma split_go_words:
  "split_go n w r = (ws, rest) \<Longrightarrow> words_go w r = ws @ words rest"
proof (induction n w r arbitrary: ws rest rule: split_go.induct)
  case (1 n w)
  then show ?case by (auto simp: words_def split: if_splits)
next
  case (2 n w c r)
  then show ?case by (auto simp: words_def split: if_splits prod.splits)
qed

lemma split_go_length:
  "split_go n w r = (ws, rest) \<Longrightarrow> 0 < n \<Longrightarrow>
     length ws \<le> n \<and> (rest \<noteq> [] \<longrightarrow> length ws = n) \<and> length rest \<le> length r"
proof (induction n w r arbitrary: ws rest rule: split_go.induct)
  case (1 n w)
  then show ?case by (auto split: if_splits)
next
  case (2 n w c r)
  consider (sp_empty) "c = SP" "w = []" | (sp_last) "c = SP" "w \<noteq> []" "n \<le> 1"
    | (sp_more) "c = SP" "w \<noteq> []" "\<not> n \<le> 1" | (ch) "c \<noteq> SP" by blast
  then show ?case
  proof cases
    case sp_empty
    with 2 show ?thesis by fastforce
  next
    case sp_last
    with 2 show ?thesis by auto
  next
    case sp_more
    then obtain ws' where "split_go (n - 1) [] r = (ws', rest)" "ws = w # ws'"
      using 2 by (auto split: prod.splits)
    with sp_more 2 show ?thesis by fastforce
  next
    case ch
    with 2 show ?thesis by fastforce
  qed
qed

lemma split_go_rest_shorter:
  "split_go n w r = (ws, rest) \<Longrightarrow> rest \<noteq> [] \<Longrightarrow> length rest < length r"
proof (induction n w r arbitrary: ws rest rule: split_go.induct)
  case (1 n w)
  then show ?case by simp
next
  case (2 n w c r)
  then show ?case by (fastforce split: if_splits prod.splits)
qed

lemma words_go_word_chars:
  "SP \<notin> set w \<Longrightarrow> x \<in> set (words_go w r) \<Longrightarrow> x \<noteq> [] \<and> SP \<notin> set x"
  by (induction w r rule: words_go.induct) (auto split: if_splits)

lemma words_go_concat: "concat (words_go w r) = w @ filter (\<lambda>c. c \<noteq> SP) r"
  by (induction w r rule: words_go.induct) simp_all

lemma words_chars:
  "x \<in> set (words s) \<Longrightarrow> x \<noteq> [] \<and> SP \<notin> set x" "concat (words s) = filter (\<lambda>c. c \<noteq> SP) s"
  using words_go_word_chars [of "[]" x s] words_go_concat [of "[]" s] by (auto simp: words_def)

lemma words_go_word: "SP \<notin> set x \<Longrightarrow> words_go w (x @ r) = words_go (w @ x) r"
  by (induction x arbitrary: w) auto

text \<open>Words joined by single spaces are found again.\<close>

fun join_words :: "string list \<Rightarrow> string" where
  "join_words [] = []"
| "join_words [w] = w"
| "join_words (w # ws) = w @ SP # join_words ws"

lemma words_join:
  "\<forall>x \<in> set ws. x \<noteq> [] \<and> SP \<notin> set x \<Longrightarrow> words (join_words ws) = ws"
proof (induction ws rule: join_words.induct)
  case 1
  then show ?case by (simp add: words_def)
next
  case (2 w)
  then show ?case using words_go_word [of w "[]" "[]"] by (simp add: words_def)
next
  case (3 w v vs)
  then show ?case by (simp add: words_def words_go_word)
qed

lemma split_go_word: "SP \<notin> set x \<Longrightarrow> split_go n w (x @ r) = split_go n (w @ x) r"
  by (induction x arbitrary: w) auto

lemma split_join:
  "\<forall>x \<in> set ws. x \<noteq> [] \<and> SP \<notin> set x \<Longrightarrow> length ws \<le> n \<Longrightarrow> split_words n (join_words ws) = (ws, [])"
proof (induction ws arbitrary: n rule: join_words.induct)
  case 1
  then show ?case by (simp add: split_words_def)
next
  case (2 w)
  then show ?case using split_go_word [of w n "[]" "[]"] by (simp add: split_words_def)
next
  case (3 w v vs)
  then have "split_words (n - 1) (join_words (v # vs)) = (v # vs, [])" by simp
  with 3 show ?case by (simp add: split_words_def split_go_word)
qed

lemma NUL_notin_join: "\<forall>x \<in> set ws. NUL \<notin> set x \<Longrightarrow> NUL \<notin> set (join_words ws)"
  by (induction ws rule: join_words.induct) auto

section \<open>The scanner finds the words\<close>

text \<open>
  \<open>tok_post buf s r toks n ws rest (out, buf')\<close>: from the tokens \<open>toks\<close> the scan of the text
  \<open>r\<close>, whose current word starts at \<open>s\<close>, added the words \<open>ws\<close> and a terminal token for
  \<open>rest\<close>, and wrote inside the command only.
\<close>

definition tok_post ::
  "char list \<Rightarrow> nat \<Rightarrow> nat \<Rightarrow> token_t list \<Rightarrow> string list \<Rightarrow> string \<Rightarrow> token_t list \<times> char list \<Rightarrow> bool"
where
  "tok_post buf lo hi toks ws rest res \<longleftrightarrow>
     (\<exists>news term buf'. res = (toks @ news @ [term], buf') \<and>
        length buf' = length buf \<and> take lo buf' = take lo buf \<and> drop hi buf' = drop hi buf \<and>
        map (token_text buf') news = ws \<and> map tlength news = map length ws \<and>
        list_all (\<lambda>t. \<exists>q \<ge> lo. tvalue t = Some q \<and> q < hi) news \<and>
        tlength term = 0 \<and> (tvalue term = None \<longleftrightarrow> rest = []) \<and> token_text buf' term = rest \<and>
        (\<forall>q. tvalue term = Some q \<longrightarrow> lo \<le> q \<and> q < hi \<and> NUL \<in> set (drop q buf')))"

lemma token_text_at:
  "NUL \<notin> set w \<Longrightarrow> token_text (pre @ w @ NUL # post) \<lparr>tvalue = Some (length pre), tlength = n\<rparr> = w"
  by (simp add: token_text_def)

lemma token_text_frozen:
  assumes "take k buf' = pre @ w @ [NUL]" and "NUL \<notin> set w"
  shows "token_text buf' \<lparr>tvalue = Some (length pre), tlength = n\<rparr> = w"
proof -
  have "buf' = (pre @ w @ [NUL]) @ drop k buf'"
    using assms(1) append_take_drop_id [of k buf'] by metis
  then have "buf' = pre @ w @ NUL # drop k buf'" by simp
  then show ?thesis using token_text_at [OF assms(2)] by metis
qed

lemma tok_post_weaken:
  assumes "tok_post buf lo' hi toks ws rest res" and "lo \<le> lo'"
  shows "tok_post buf lo hi toks ws rest res"
proof -
  obtain news tm buf' where res: "res = (toks @ news @ [tm], buf')" "length buf' = length buf"
      "take lo' buf' = take lo' buf" "drop hi buf' = drop hi buf"
    and news: "map (token_text buf') news = ws" "map tlength news = map length ws"
      "list_all (\<lambda>t. \<exists>q \<ge> lo'. tvalue t = Some q \<and> q < hi) news"
    and tm: "tlength tm = 0" "(tvalue tm = None) = (rest = [])" "token_text buf' tm = rest"
      "\<forall>q. tvalue tm = Some q \<longrightarrow> lo' \<le> q \<and> q < hi \<and> NUL \<in> set (drop q buf')"
    using assms(1) unfolding tok_post_def by (elim exE conjE) (rule that)
  have "take lo buf' = take lo buf"
    using res(3) assms(2) by (metis min.absorb1 take_take)
  moreover have "list_all (\<lambda>t. \<exists>q \<ge> lo. tvalue t = Some q \<and> q < hi) news"
    using news(3) by (rule list.pred_mono_strong) (use assms(2) in force)
  moreover have "\<forall>q. tvalue tm = Some q \<longrightarrow> lo \<le> q \<and> q < hi \<and> NUL \<in> set (drop q buf')"
    using tm(4) assms(2) by force
  ultimately show ?thesis
    unfolding tok_post_def using res news tm
    by (intro exI [of _ news] exI [of _ tm] exI [of _ buf'] conjI)
qed

lemma tok_post_cons:
  assumes post: "tok_post (pre @ w @ NUL # r) (length pre + length w + 1) hi
      (toks @ [\<lparr>tvalue = Some (length pre), tlength = length w\<rparr>]) ws rest res"
    and w: "NUL \<notin> set w" and hi: "length pre + length w < hi"
  shows "tok_post (pre @ w @ SP # r) (length pre) hi toks (w # ws) rest res"
proof -
  let ?t = "\<lparr>tvalue = Some (length pre), tlength = length w\<rparr>"
  obtain news tm buf' where res: "res = ((toks @ [?t]) @ news @ [tm], buf')"
    and buf'0: "length buf' = length (pre @ w @ NUL # r)"
      "take (length pre + length w + 1) buf' = take (length pre + length w + 1) (pre @ w @ NUL # r)"
      "drop hi buf' = drop hi (pre @ w @ NUL # r)"
    and news: "map (token_text buf') news = ws" "map tlength news = map length ws"
      "list_all (\<lambda>t. \<exists>q \<ge> length pre + length w + 1. tvalue t = Some q \<and> q < hi) news"
    and tm: "tlength tm = 0" "(tvalue tm = None) = (rest = [])" "token_text buf' tm = rest"
      "\<forall>q. tvalue tm = Some q \<longrightarrow>
         length pre + length w + 1 \<le> q \<and> q < hi \<and> NUL \<in> set (drop q buf')"
    using post unfolding tok_post_def by (elim exE conjE) (rule that)
  note buf' = buf'0(1) buf'0(2) [simplified] buf'0(3)
  have t: "token_text buf' ?t = w"
    by (rule token_text_frozen [OF _ w]) (use buf'(2) in simp)
  have "take (length pre) buf' = take (length pre) (pre @ w @ SP # r)"
    using arg_cong [OF buf'(2), of "take (length pre)"] by (simp add: min_def)
  moreover have "drop hi buf' = drop hi (pre @ w @ SP # r)"
    using buf'(3) hi drop_past [of "pre @ w" hi] by simp
  moreover have "list_all (\<lambda>t. \<exists>q \<ge> length pre. tvalue t = Some q \<and> q < hi) (?t # news)"
    using news(3) hi by (auto simp: list_all_iff)
  moreover have "\<forall>q. tvalue tm = Some q \<longrightarrow> length pre \<le> q \<and> q < hi \<and> NUL \<in> set (drop q buf')"
    using tm(4) by auto
  ultimately show ?thesis
    unfolding tok_post_def
    using res buf'(1) news(1,2) tm(1-3) t
    by (intro exI [of _ "?t # news"] exI [of _ tm] exI [of _ buf'] conjI) simp_all
qed

lemma tok_loop_post:
  assumes "NUL \<notin> set w" "NUL \<notin> set r" "length toks + n = mx - 1" "0 < n"
  shows "case split_go n w r of (ws, rest) \<Rightarrow>
    tok_post (pre @ w @ r @ NUL # post) (length pre) (length pre + length w + length r) toks ws rest
      (tok_finish (tok_loop mx (length r) (pre @ w @ r @ NUL # post)
         (length pre) (length pre + length w) toks))"
  using assms
proof (induction n w r arbitrary: pre toks rule: split_go.induct)
  case (1 n w)
  show ?case
    using 1 token_text_at [of w pre post]
    by (cases "w = []")
       (auto simp: tok_post_def tok_finish_def token_text_def nth_append)
next
  case (2 n w c r)
  let ?t = "\<lparr>tvalue = Some (length pre), tlength = length w\<rparr>"
  have upd: "(pre @ w @ (c # r) @ NUL # post)[length pre + length w := NUL] =
      pre @ w @ NUL # r @ NUL # post"
    by (simp add: list_update_append)
  have at: "(pre @ w @ (c # r) @ NUL # post) ! (length pre + length w) = c"
    by (simp add: nth_append)
  consider (sp_empty) "c = SP" "w = []" | (sp_last) "c = SP" "w \<noteq> []" "n \<le> 1"
    | (sp_more) "c = SP" "w \<noteq> []" "\<not> n \<le> 1" | (ch) "c \<noteq> SP" by blast
  then show ?case
  proof cases
    case sp_empty
    show ?thesis
      using "2.IH"(1) [OF sp_empty, of toks "pre @ [SP]"] "2.prems" sp_empty at
      by (auto split: prod.splits intro: tok_post_weaken)
  next
    case sp_last
    have "tok_post (pre @ w @ NUL # r @ NUL # post) (length pre + length w + 1)
        (length pre + length w + 1 + length r) (toks @ [?t]) [] r
        (tok_finish (pre @ w @ NUL # r @ NUL # post, length pre + length w + 1,
           length pre + length w + 1, toks @ [?t]))"
      using "2.prems"
      by (cases r) (auto simp: tok_post_def tok_finish_def token_text_def nth_append)
    from tok_post_cons [OF this] show ?thesis
      using "2.prems" sp_last at upd by (simp add: Let_def)
  next
    case sp_more
    show ?thesis
      using "2.IH"(2) [OF sp_more, of "toks @ [?t]" "pre @ w @ [NUL]"] "2.prems" sp_more at upd
      by (auto simp: Let_def split: prod.splits intro!: tok_post_cons)
  next
    case ch
    show ?thesis
      using "2.IH"(3) [OF ch, of toks pre] "2.prems" ch at
      by simp
  qed
qed

lemma mem_at_cstr:
  assumes "NUL \<in> set (drop p buf)"
  shows "\<exists>post. buf = take p buf @ cstr (drop p buf) @ NUL # post \<and> p < length buf"
proof -
  have "\<exists>post. drop p buf = cstr (drop p buf) @ NUL # post"
    using split_list_first [OF assms] by fastforce
  moreover have "p < length buf"
    using assms by (cases "p < length buf") auto
  ultimately show ?thesis by (metis append_take_drop_id)
qed

lemma tokenize_command_post:
  assumes "NUL \<in> set (drop p buf)" and "1 < mx"
    and "split_words (mx - 1) (cstr (drop p buf)) = (ws, rest)"
  obtains toks buf' where "tokenize_command buf p mx = Ok (toks, buf')"
    and "tok_post buf p (p + length (cstr (drop p buf))) [] ws rest (toks, buf')"
proof -
  obtain post where buf: "buf = take p buf @ cstr (drop p buf) @ NUL # post" and p: "p < length buf"
    using mem_at_cstr [OF assms(1)] by blast
  obtain toks buf' where r: "tok_finish (tok_loop mx (length (cstr (drop p buf))) buf p p []) = (toks, buf')"
    by fastforce
  then have "tokenize_command buf p mx = Ok (toks, buf')"
    using assms by (simp add: tokenize_command_def)
  moreover have "tok_post buf p (p + length (cstr (drop p buf))) [] ws rest (toks, buf')"
    using tok_loop_post [of "[]" "cstr (drop p buf)" "[]" "mx - 1" mx "take p buf" post] assms(2,3) p r
    by (simp add: split_words_def buf [symmetric] min_def)
  ultimately show ?thesis by (rule that)
qed

text \<open>The facts of \<open>tok_post\<close> about a scan that started with no tokens.\<close>

lemma tok_postD:
  assumes "tok_post buf lo hi [] ws rest (toks, buf')"
  shows "length buf' = length buf" "take lo buf' = take lo buf" "drop hi buf' = drop hi buf"
    "map (token_text buf') (butlast toks) = ws" "map tlength (butlast toks) = map length ws"
    "toks \<noteq> []" "tlength (last toks) = 0" "tvalue (last toks) = None \<longleftrightarrow> rest = []"
    "token_text buf' (last toks) = rest" "length toks = Suc (length ws)"
    "tvalue (last toks) = Some q \<Longrightarrow> lo \<le> q \<and> q < hi \<and> NUL \<in> set (drop q buf')"
  using assms unfolding tok_post_def by auto

section \<open>Properties\<close>

text \<open>
  C12. Tokenizing a command string inside a buffer returns, as C strings, the first
  \<open>max_tokens - 1\<close> words of the command in order, each with its length, and then a terminal
  token of length 0 whose pointer is null exactly when nothing is left, and otherwise points
  at the unscanned rest. At most \<open>max_tokens\<close> array entries are written, and no byte of the
  buffer outside the command changes.
\<close>

theorem tokenize_command_words:
  assumes "NUL \<in> set (drop p buf)" and "1 < mx"
    and "split_words (mx - 1) (cstr (drop p buf)) = (ws, rest)"
  shows "\<exists>toks buf'. tokenize_command buf p mx = Ok (toks, buf') \<and> length toks \<le> mx \<and>
    map (token_text buf') (butlast toks) = ws \<and> map tlength (butlast toks) = map length ws \<and>
    tlength (last toks) = 0 \<and> (tvalue (last toks) = None \<longleftrightarrow> rest = []) \<and>
    token_text buf' (last toks) = rest \<and> words (cstr (drop p buf)) = ws @ words rest \<and>
    length buf' = length buf \<and> take p buf' = take p buf \<and>
    drop (p + length (cstr (drop p buf))) buf' = drop (p + length (cstr (drop p buf))) buf"
proof -
  obtain toks buf' where t: "tokenize_command buf p mx = Ok (toks, buf')"
    and post: "tok_post buf p (p + length (cstr (drop p buf))) [] ws rest (toks, buf')"
    using tokenize_command_post [OF assms] .
  have "length ws \<le> mx - 1" "words (cstr (drop p buf)) = ws @ words rest"
    using split_go_length [of "mx - 1" "[]"] split_go_words [of "mx - 1" "[]"] assms(2,3)
    by (auto simp: split_words_def words_def)
  with t tok_postD [OF post] assms(2) show ?thesis by auto
qed

theorem tokenize_command_words_witness:
  "\<exists>toks buf'. tokenize_command (''get a  bc'' @ [NUL, LF]) 0 8 = Ok (toks, buf') \<and>
     map (token_text buf') (butlast toks) = [''get'', ''a'', ''bc''] \<and> tvalue (last toks) = None"
  using tokenize_command_words [of 0 "''get a  bc'' @ [NUL, LF]" 8 "[''get'', ''a'', ''bc'']" "[]"]
  by (auto simp: split_words_def)

text \<open>
  C26. Words that contain neither spaces nor NUL, joined by single spaces, are recovered by
  \<open>tokenize_command\<close>: when they fit in the token array, the tokens are exactly those words.
\<close>

theorem tokenize_command_roundtrip:
  assumes "\<forall>w \<in> set ws. w \<noteq> [] \<and> SP \<notin> set w \<and> NUL \<notin> set w" and "length ws < mx" and "1 < mx"
  shows "\<exists>toks buf'. tokenize_command (join_words ws @ NUL # post) 0 mx = Ok (toks, buf') \<and>
    map (token_text buf') (butlast toks) = ws \<and> tvalue (last toks) = None"
proof -
  have nul: "NUL \<notin> set (join_words ws)"
    using assms(1) by (intro NUL_notin_join) blast
  then have cs: "cstr (drop 0 (join_words ws @ NUL # post)) = join_words ws" by simp
  have "split_words (mx - 1) (join_words ws) = (ws, [])"
    using assms by (intro split_join) auto
  then obtain toks buf' where "tokenize_command (join_words ws @ NUL # post) 0 mx = Ok (toks, buf')"
    and "tok_post (join_words ws @ NUL # post) 0 (length (join_words ws)) [] ws [] (toks, buf')"
    using tokenize_command_post [of 0 "join_words ws @ NUL # post" mx ws "[]"] cs assms(3) by auto
  then show ?thesis using tok_postD(4,8) by blast
qed

theorem tokenize_command_roundtrip_witness:
  "\<exists>toks buf'. tokenize_command (join_words [''set'', ''k'', ''0'', ''0'', ''5''] @ NUL # [LF]) 0 8 =
       Ok (toks, buf') \<and>
     map (token_text buf') (butlast toks) = [''set'', ''k'', ''0'', ''0'', ''5''] \<and>
     tvalue (last toks) = None"
  using tokenize_command_roundtrip [of "[''set'', ''k'', ''0'', ''0'', ''5'']" 8 "[LF]"] by simp

end
