(* ===== verification/Utils.thy ===== *)
theory Utils
  imports Prelude
begin

text \<open>
  \<open>utils.c\<close>: \<open>safe_strtol\<close>, which reads the value length of an update command and of a backend
  response. The C library's \<open>strtol\<close> in base 10 is modelled as the standard defines it:
  white space, an optional sign, the longest run of digits; the value is clamped to a 64-bit
  \<open>long\<close> with \<open>errno = ERANGE\<close>, and with no digits the end pointer is the start of the string.
\<close>

definition isspace :: "char \<Rightarrow> bool" where
  "isspace c \<longleftrightarrow> c \<in> {CHR 0x09, CHR 0x0A, CHR 0x0B, CHR 0x0C, CHR 0x0D, SP}"

definition isdigit :: "char \<Rightarrow> bool" where
  "isdigit c \<longleftrightarrow> c \<in> set ''0123456789''"

definition digit_val :: "char \<Rightarrow> int" where
  "digit_val c = int (of_char c) - 48"

fun digits_val :: "int \<Rightarrow> string \<Rightarrow> int" where
  "digits_val acc [] = acc"
| "digits_val acc (c # cs) = digits_val (10 * acc + digit_val c) cs"

text \<open>The optional sign: whether the number is negative, and how many bytes the sign takes.\<close>

fun sign :: "string \<Rightarrow> bool \<times> nat" where
  "sign [] = (False, 0)"
| "sign (c # cs) = (if c = CHR ''-'' then (True, 1) else if c = CHR ''+'' then (False, 1) else (False, 0))"

record strtol_result =
  st_value :: int
  st_endptr :: nat     \<comment> \<open>offset of the first byte that is not part of the number\<close>
  st_erange :: bool    \<comment> \<open>\<open>errno = ERANGE\<close>\<close>

definition strtol :: "string \<Rightarrow> strtol_result" where
  "strtol s =
     (let ws = takeWhile isspace s;
          r = dropWhile isspace s;
          (neg, sg) = sign r;
          ds = takeWhile isdigit (drop sg r);
          n = digits_val 0 ds;
          v = (if neg then - n else n)
      in if ds = [] then \<lparr>st_value = 0, st_endptr = 0, st_erange = False\<rparr>
         else \<lparr>st_value = min LONG_MAX (max LONG_MIN v),
               st_endptr = length ws + sg + length ds,
               st_erange = (v < LONG_MIN \<or> LONG_MAX < v)\<rparr>)"

text \<open>The byte at an offset of a C string; the terminator follows the last one.\<close>

definition char_at :: "string \<Rightarrow> nat \<Rightarrow> char" where
  "char_at s i = (if i < length s then s ! i else NUL)"

text \<open>\<open>safe_strtol\<close>: whether it succeeded, and what it left in \<open>*out\<close>.\<close>

definition safe_strtol :: "string \<Rightarrow> bool \<times> int" where
  "safe_strtol s =
     (let r = strtol s; c = char_at s (st_endptr r) in
      if st_erange r \<or> st_endptr r = 0 then (False, 0)
      else if isspace c \<or> (c = NUL \<and> st_endptr r \<noteq> 0) then (True, i32 (st_value r))
      else (False, 0))"

section \<open>The numerals it accepts\<close>

text \<open>A decimal numeral: white space, a sign and at least one digit.\<close>

definition numeral_text :: "string \<Rightarrow> string \<Rightarrow> string \<Rightarrow> bool" where
  "numeral_text ws sg ds \<longleftrightarrow>
     list_all isspace ws \<and> sg \<in> {[], ''-'', ''+''} \<and> ds \<noteq> [] \<and> list_all isdigit ds"

definition numeral_val :: "string \<Rightarrow> string \<Rightarrow> int" where
  "numeral_val sg ds = (if sg = ''-'' then - digits_val 0 ds else digits_val 0 ds)"

text \<open>What may follow the numeral: nothing, or white space.\<close>

definition ends_number :: "string \<Rightarrow> bool" where
  "ends_number r \<longleftrightarrow> r = [] \<or> isspace (hd r) \<or> hd r = NUL"

lemma isdigit_not_isspace: "isdigit c \<Longrightarrow> \<not> isspace c"
  by (auto simp: isdigit_def isspace_def)

lemma isdigit_not_sign: "isdigit c \<Longrightarrow> c \<noteq> CHR ''-'' \<and> c \<noteq> CHR ''+''"
  by (auto simp: isdigit_def)

lemma not_space_sign: "\<not> isspace CHR ''-''" "\<not> isspace CHR ''+''"
  by (simp_all add: isspace_def)

lemma NUL_not_special [simp]: "\<not> isspace NUL" "\<not> isdigit NUL"
  by (simp_all add: isspace_def isdigit_def)

lemma takeWhile_digits:
  "list_all isdigit ds \<Longrightarrow> ends_number r \<Longrightarrow> takeWhile isdigit (ds @ r) = ds"
  by (cases r)
     (auto simp: ends_number_def takeWhile_append list_all_iff dest: isdigit_not_isspace)

lemma sign_split:
  assumes "sg \<in> {[], ''-'', ''+''}" and "ds \<noteq> []" and "list_all isdigit ds"
  shows "sign (sg @ ds @ r) = (sg = ''-'', length sg)"
  using assms by (cases ds) (auto dest: isdigit_not_sign)

lemma spaces_split:
  assumes "numeral_text ws sg ds"
  shows "takeWhile isspace (ws @ sg @ ds @ r) = ws"
    and "dropWhile isspace (ws @ sg @ ds @ r) = sg @ ds @ r"
proof -
  have hd: "\<not> isspace (hd (sg @ ds @ r))" "sg @ ds @ r \<noteq> []"
    using assms by (cases ds; auto simp: numeral_text_def not_space_sign dest: isdigit_not_isspace)+
  have ws: "\<forall>c \<in> set ws. isspace c"
    using assms by (simp add: numeral_text_def list_all_iff)
  show "takeWhile isspace (ws @ sg @ ds @ r) = ws"
    using ws hd by (cases "sg @ ds @ r") auto
  show "dropWhile isspace (ws @ sg @ ds @ r) = sg @ ds @ r"
    using ws hd by (cases "sg @ ds @ r") auto
qed

lemma strtol_numeral:
  assumes "numeral_text ws sg ds" and "ends_number r"
  shows "strtol (ws @ sg @ ds @ r) =
    \<lparr>st_value = min LONG_MAX (max LONG_MIN (numeral_val sg ds)),
     st_endptr = length ws + length sg + length ds,
     st_erange = (numeral_val sg ds < LONG_MIN \<or> LONG_MAX < numeral_val sg ds)\<rparr>"
proof -
  have sg: "sign (sg @ ds @ r) = (sg = ''-'', length sg)"
    using assms by (intro sign_split) (auto simp: numeral_text_def)
  have ds: "takeWhile isdigit (ds @ r) = ds" "ds \<noteq> []"
    using assms takeWhile_digits by (auto simp: numeral_text_def)
  show ?thesis
    by (simp add: strtol_def spaces_split [OF assms(1)] sg ds numeral_val_def Let_def)
qed

lemma safe_strtol_numeral:
  assumes "numeral_text ws sg ds" and "ends_number r"
    and "LONG_MIN \<le> numeral_val sg ds" and "numeral_val sg ds \<le> LONG_MAX"
  shows "safe_strtol (ws @ sg @ ds @ r) = (True, i32 (numeral_val sg ds))"
proof -
  have "ds \<noteq> []" using assms(1) by (simp add: numeral_text_def)
  moreover have "char_at (ws @ sg @ ds @ r) (length ws + length sg + length ds) =
      (if r = [] then NUL else hd r)"
    by (cases r) (simp_all add: char_at_def nth_append)
  ultimately show ?thesis
    using assms by (auto simp: safe_strtol_def strtol_numeral Let_def ends_number_def)
qed

text \<open>Every accepted string is such a numeral.\<close>

lemma sign_text:
  assumes "sign s = (neg, k)"
  shows "\<exists>sg \<in> {[], ''-'', ''+''}. s = sg @ drop k s \<and> length sg = k \<and> neg = (sg = ''-'')"
  using assms by (cases s) (auto split: if_splits)

lemma strtol_digits:
  assumes "st_endptr (strtol s) \<noteq> 0"
  obtains ws sg ds r where "numeral_text ws sg ds" and "s = ws @ sg @ ds @ r"
    and "r = [] \<or> \<not> isdigit (hd r)"
    and "st_endptr (strtol s) = length ws + length sg + length ds"
    and "st_value (strtol s) = min LONG_MAX (max LONG_MIN (numeral_val sg ds))"
    and "st_erange (strtol s) = (numeral_val sg ds < LONG_MIN \<or> LONG_MAX < numeral_val sg ds)"
proof -
  define ws where "ws = takeWhile isspace s"
  define t where "t = dropWhile isspace s"
  obtain neg k where k: "sign t = (neg, k)" by fastforce
  then obtain sg where sg: "sg \<in> {[], ''-'', ''+''}" "t = sg @ drop k t" "length sg = k" "neg = (sg = ''-'')"
    using sign_text by blast
  define ds where "ds = takeWhile isdigit (drop k t)"
  define r where "r = dropWhile isdigit (drop k t)"
  have nz: "ds \<noteq> []"
    using assms k by (auto simp: strtol_def ws_def t_def ds_def Let_def split: if_splits)
  have "s = ws @ sg @ ds @ r"
    using sg(2) by (simp add: ws_def t_def ds_def r_def)
  moreover have "numeral_text ws sg ds"
    using nz sg(1) by (auto simp: numeral_text_def ws_def ds_def list_all_iff dest: set_takeWhileD)
  moreover have "r = [] \<or> \<not> isdigit (hd r)"
    unfolding r_def using hd_dropWhile by blast
  moreover have "strtol s = \<lparr>st_value = min LONG_MAX (max LONG_MIN (numeral_val sg ds)),
       st_endptr = length ws + length sg + length ds,
       st_erange = (numeral_val sg ds < LONG_MIN \<or> LONG_MAX < numeral_val sg ds)\<rparr>"
    using nz k sg by (simp add: strtol_def ws_def t_def ds_def numeral_val_def Let_def)
  ultimately show ?thesis using that by simp
qed

lemma safe_strtol_accepts:
  assumes "safe_strtol s = (True, v)"
  shows "\<exists>ws sg ds r. numeral_text ws sg ds \<and> s = ws @ sg @ ds @ r \<and> ends_number r \<and>
    LONG_MIN \<le> numeral_val sg ds \<and> numeral_val sg ds \<le> LONG_MAX \<and> v = i32 (numeral_val sg ds)"
proof -
  have nz: "st_endptr (strtol s) \<noteq> 0" and nr: "\<not> st_erange (strtol s)"
    and v: "v = i32 (st_value (strtol s))"
    and c: "isspace (char_at s (st_endptr (strtol s))) \<or> char_at s (st_endptr (strtol s)) = NUL"
    using assms by (auto simp: safe_strtol_def Let_def split: if_splits)
  obtain ws sg ds r where n: "numeral_text ws sg ds" "s = ws @ sg @ ds @ r"
    "st_endptr (strtol s) = length ws + length sg + length ds"
    "st_value (strtol s) = min LONG_MAX (max LONG_MIN (numeral_val sg ds))"
    "st_erange (strtol s) = (numeral_val sg ds < LONG_MIN \<or> LONG_MAX < numeral_val sg ds)"
    using strtol_digits [OF nz] by metis
  have "ends_number r"
    using c n(2,3) by (cases r) (auto simp: ends_number_def char_at_def nth_append)
  then show ?thesis using n nr v by (intro exI [of _ ws] exI [of _ sg] exI [of _ ds] exI [of _ r]) auto
qed

section \<open>Properties\<close>

text \<open>
  C22. \<open>safe_strtol\<close> accepts exactly the strings that start with a decimal numeral (white space, an
  optional sign, digits) of a value that fits a 64-bit \<open>long\<close> and that ends at white space or at
  the end of the string; it then returns the value converted to 32 bits. So a value outside the
  range of \<open>int32_t\<close> is accepted and wraps.
\<close>

theorem safe_strtol_iff:
  "safe_strtol s = (True, v) \<longleftrightarrow>
     (\<exists>ws sg ds r. numeral_text ws sg ds \<and> s = ws @ sg @ ds @ r \<and> ends_number r \<and>
        LONG_MIN \<le> numeral_val sg ds \<and> numeral_val sg ds \<le> LONG_MAX \<and> v = i32 (numeral_val sg ds))"
proof
  assume "safe_strtol s = (True, v)"
  then show "\<exists>ws sg ds r. numeral_text ws sg ds \<and> s = ws @ sg @ ds @ r \<and> ends_number r \<and>
      LONG_MIN \<le> numeral_val sg ds \<and> numeral_val sg ds \<le> LONG_MAX \<and> v = i32 (numeral_val sg ds)"
    by (rule safe_strtol_accepts)
next
  assume "\<exists>ws sg ds r. numeral_text ws sg ds \<and> s = ws @ sg @ ds @ r \<and> ends_number r \<and>
      LONG_MIN \<le> numeral_val sg ds \<and> numeral_val sg ds \<le> LONG_MAX \<and> v = i32 (numeral_val sg ds)"
  then show "safe_strtol s = (True, v)" by (elim exE conjE) (simp add: safe_strtol_numeral)
qed

end
