(* ===== verification/Settings.thy ===== *)
theory Settings
  imports Stats Utils
begin

text \<open>
  \<open>settings.h\<close> and \<open>settings.c\<close>. The option loop consumes the results of \<open>getopt\<close>, here a list
  of option characters with their arguments (an option without argument carries the empty
  string, and an option \<open>getopt\<close> does not know is \<open>?\<close>). \<open>atof\<close> is a parameter; \<open>atoi\<close> is
  \<open>strtol\<close> converted to \<open>int\<close>.
\<close>

record backends =
  hosts :: "string list option"   \<comment> \<open>the filled part of the array; \<open>None\<close> when \<open>malloc\<close> failed\<close>
  bk_len :: nat
  bk_size :: nat

record settings =
  verbose :: int
  threads :: int
  tcpport :: int
  thread_affinity :: bool
  users :: int
  s_backends :: backends
  s_stats :: statistics
  alloc_mean :: real
  alloc_stddev :: real
  s_alloc :: bool
  rtt_mean :: real
  rtt_stddev :: real
  rtt_cutoff :: real
  rtt_delay :: bool

definition MAX_SERVER_STRING :: nat where "MAX_SERVER_STRING = 300"

text \<open>
  A new, default settings value. The allocations are those of the host array and, in
  \<open>new_stats\<close>, of the statistics and its map; the latter are used unchecked at once.
\<close>

definition settings_init :: "env \<Rightarrow> (settings \<times> env) res" where
  "settings_init e =
     (case alloc e of (hosts_ok, e) \<Rightarrow>
      case alloc e of (stats_ok, e) \<Rightarrow>
      case alloc e of (map_ok, e) \<Rightarrow>
        if \<not> stats_ok \<or> \<not> map_ok then Err NullDeref
        else Ok (\<lparr>verbose = 0, threads = 1, tcpport = 11211, thread_affinity = False, users = 0,
                  s_backends = \<lparr>hosts = (if hosts_ok then Some [] else None), bk_len = 0, bk_size = 1000\<rparr>,
                  s_stats = new_stats, alloc_mean = 0, alloc_stddev = 0, s_alloc = False,
                  rtt_mean = 0, rtt_stddev = 0, rtt_cutoff = 0, rtt_delay = False\<rparr>, e))"

definition atoi :: "string \<Rightarrow> int" where
  "atoi s = i32 (st_value (strtol s))"

text \<open>
  The \<open>-s\<close> option: a copy of at most \<open>MAX_SERVER_STRING\<close> bytes, stored at \<open>hosts[len]\<close>. The code does not compare
  \<open>len\<close> with \<open>size\<close>: beyond the last slot the store is outside the array, which is where the model stops.
\<close>

definition add_backend :: "env \<Rightarrow> string \<Rightarrow> settings \<Rightarrow> (env \<times> settings) res" where
  "add_backend e optarg s =
     (case alloc e of (ok, e) \<Rightarrow>
        if \<not> ok then Err NullDeref
        else case hosts (s_backends s) of
            None \<Rightarrow> Err NullDeref
          | Some hs \<Rightarrow>
              if bk_len (s_backends s) < bk_size (s_backends s) then
                Ok (e, s\<lparr>s_backends := (s_backends s)
                      \<lparr>hosts := Some (hs @ [take MAX_SERVER_STRING optarg]),
                       bk_len := bk_len (s_backends s) + 1\<rparr>\<rparr>)
              else Err OutOfBounds)"

text \<open>One round of the option loop: \<open>False\<close> is the early \<open>return false\<close>.\<close>

definition settings_opt ::
  "(string \<Rightarrow> real) \<Rightarrow> env \<Rightarrow> char \<Rightarrow> string \<Rightarrow> settings \<Rightarrow> (bool \<times> env \<times> settings) res"
where
  "settings_opt atof e c optarg s =
     (if c = CHR ''p'' then Ok (True, e, s\<lparr>tcpport := atoi optarg\<rparr>)
      else if c = CHR ''h'' then Err (Exit 0)
      else if c = CHR ''v'' then Ok (True, e, s\<lparr>verbose := i32 (verbose s + 1)\<rparr>)
      else if c = CHR ''t'' then
        Ok (0 < atoi optarg, e, s\<lparr>threads := atoi optarg\<rparr>)
      else if c = CHR ''T'' then Ok (True, e, s\<lparr>thread_affinity := True\<rparr>)
      else if c = CHR ''s'' then
        bindR (add_backend e optarg s) (\<lambda>(e, s). Ok (True, e, s))
      else if c = CHR ''u'' then
        Ok (0 \<le> atoi optarg, e, s\<lparr>users := atoi optarg\<rparr>)
      else if c = CHR ''d'' then Ok (True, e, s\<lparr>s_alloc := True, alloc_mean := atof optarg\<rparr>)
      else if c = CHR ''D'' then Ok (True, e, s\<lparr>s_alloc := True, alloc_stddev := atof optarg\<rparr>)
      else if c = CHR ''r'' then Ok (True, e, s\<lparr>rtt_delay := True, rtt_mean := atof optarg\<rparr>)
      else if c = CHR ''R'' then Ok (True, e, s\<lparr>rtt_delay := True, rtt_stddev := atof optarg\<rparr>)
      else if c = CHR ''C'' then Ok (True, e, s\<lparr>rtt_cutoff := atof optarg\<rparr>)
      else Ok (False, e, s))"

text \<open>Process arguments.\<close>

fun settings_parse ::
  "(string \<Rightarrow> real) \<Rightarrow> env \<Rightarrow> (char \<times> string) list \<Rightarrow> settings \<Rightarrow> (bool \<times> env \<times> settings) res"
where
  "settings_parse atof e [] s = Ok (True, e, s)"
| "settings_parse atof e ((c, optarg) # opts) s =
     bindR (settings_opt atof e c optarg s) (\<lambda>(ok, e, s).
       if ok then settings_parse atof e opts s else Ok (False, e, s))"

section \<open>Accepted settings\<close>

definition backends_ok :: "backends \<Rightarrow> bool" where
  "backends_ok b \<longleftrightarrow>
     bk_len b \<le> bk_size b \<and>
     (case hosts b of None \<Rightarrow> bk_len b = 0
      | Some hs \<Rightarrow> length hs = bk_len b \<and> (\<forall>h \<in> set hs. length h \<le> MAX_SERVER_STRING))"

definition settings_ok :: "settings \<Rightarrow> bool" where
  "settings_ok s \<longleftrightarrow>
     0 < threads s \<and> threads s \<le> INT_MAX \<and> 0 \<le> users s \<and> backends_ok (s_backends s) \<and>
     stats_inv (s_stats s)"

lemma atoi_range: "INT_MIN \<le> atoi s \<and> atoi s \<le> INT_MAX"
  by (simp only: atoi_def i32_range)

lemma settings_init_ok: "settings_init e = Ok (s, e') \<Longrightarrow> settings_ok s"
  by (auto simp: settings_init_def alloc_def settings_ok_def backends_ok_def stats_inv_new
      split: if_splits)

lemma add_backend_ok:
  "add_backend e h s = Ok (e', s') \<Longrightarrow> settings_ok s \<Longrightarrow> settings_ok s'"
  by (auto simp: add_backend_def alloc_def settings_ok_def backends_ok_def
      split: if_splits option.splits)

lemma settings_opt_ok:
  assumes "settings_opt atof e c a s = Ok (True, e', s')" and "settings_ok s"
  shows "settings_ok s'"
  using assms atoi_range [of a]
  by (auto simp: settings_opt_def split: if_splits elim!: bindR_OkE
      intro: add_backend_ok) (auto simp: settings_ok_def)

lemma settings_parse_ok:
  "settings_parse atof e opts s = Ok (True, e', s') \<Longrightarrow> settings_ok s \<Longrightarrow> settings_ok s'"
proof (induction atof e opts s rule: settings_parse.induct)
  case (1 atof e s)
  then show ?case by simp
next
  case (2 atof e c a opts s)
  from "2.prems"(1) obtain ok e1 s1 where o: "settings_opt atof e c a s = Ok (ok, e1, s1)"
    "(if ok then settings_parse atof e1 opts s1 else Ok (False, e1, s1)) = Ok (True, e', s')"
    by auto
  then have ok: "ok" by (cases ok) simp_all
  then have "settings_ok s1" using o(1) "2.prems"(2) settings_opt_ok by simp
  moreover have "settings_parse atof e1 opts s1 = Ok (True, e', s')" using o(2) ok by simp
  ultimately show ?case using "2.IH" [OF o(1) refl refl ok] by simp
qed

text \<open>The options one round accepts.\<close>

definition opt_valid :: "char \<times> string \<Rightarrow> bool" where
  "opt_valid x = (case x of (c, a) \<Rightarrow>
     c \<in> set ''pvtTsudDrRC'' \<and> (c = CHR ''t'' \<longrightarrow> 0 < atoi a) \<and> (c = CHR ''u'' \<longrightarrow> 0 \<le> atoi a))"

lemma settings_opt_valid: "settings_opt atof e c a s = Ok (True, e', s') \<Longrightarrow> opt_valid (c, a)"
  by (auto simp: settings_opt_def opt_valid_def split: if_splits)

lemma settings_parse_valid:
  "settings_parse atof e opts s = Ok (True, e', s') \<Longrightarrow> list_all opt_valid opts"
proof (induction opts arbitrary: e s)
  case Nil
  then show ?case by simp
next
  case (Cons x opts)
  obtain c a where x: "x = (c, a)" by fastforce
  with Cons.prems obtain ok e1 s1 where s: "settings_opt atof e c a s = Ok (ok, e1, s1)"
    "(if ok then settings_parse atof e1 opts s1 else Ok (False, e1, s1)) = Ok (True, e', s')"
    by auto
  then have ok: ok by (cases ok) simp_all
  then show ?case using s x Cons.IH settings_opt_valid by simp
qed

lemma add_backend_full:
  "alloc_ok e (allocs e) \<Longrightarrow> hosts (s_backends s) \<noteq> None \<Longrightarrow>
   bk_len (s_backends s) = bk_size (s_backends s) \<Longrightarrow> add_backend e h s = Err OutOfBounds"
  by (auto simp: add_backend_def alloc_def)

text \<open>Repeated \<open>-s\<close> options append to the host list.\<close>

lemma add_backends:
  "mem_ok e \<Longrightarrow> hosts (s_backends s) = Some hs \<Longrightarrow>
   bk_len (s_backends s) + n \<le> bk_size (s_backends s) \<Longrightarrow>
   \<exists>e' s' hs'. settings_parse atof e (replicate n (CHR ''s'', h) @ opts) s = settings_parse atof e' opts s' \<and>
     mem_ok e' \<and> hosts (s_backends s') = Some hs' \<and>
     bk_len (s_backends s') = bk_len (s_backends s) + n \<and> bk_size (s_backends s') = bk_size (s_backends s)"
proof (induction n arbitrary: e s hs)
  case 0
  then show ?case by auto
next
  case (Suc n)
  let ?s = "s\<lparr>s_backends := (s_backends s)\<lparr>hosts := Some (hs @ [take MAX_SERVER_STRING h]),
     bk_len := bk_len (s_backends s) + 1\<rparr>\<rparr>"
  let ?e = "e\<lparr>allocs := Suc (allocs e)\<rparr>"
  have "settings_parse atof e (replicate (Suc n) (CHR ''s'', h) @ opts) s =
      settings_parse atof ?e (replicate n (CHR ''s'', h) @ opts) ?s"
    using Suc.prems by (simp add: settings_opt_def add_backend_def alloc_def)
  with Suc.IH [of ?e ?s "hs @ [take MAX_SERVER_STRING h]"] Suc.prems show ?case by simp
qed

text \<open>The arguments of the \<open>-s\<close> options, and the value that the last option \<open>k\<close> gives, or else the default.\<close>

definition backend_args :: "(char \<times> string) list \<Rightarrow> string list" where
  "backend_args opts = map snd (filter (\<lambda>x. fst x = CHR ''s'') opts)"

fun last_opt :: "char \<Rightarrow> int \<Rightarrow> (char \<times> string) list \<Rightarrow> int" where
  "last_opt k d [] = d"
| "last_opt k d ((c, a) # opts) = last_opt k (if c = k then atoi a else d) opts"

text \<open>One valid option, with room for a backend.\<close>

lemma settings_opt_accepts:
  assumes "mem_ok e" and "opt_valid (c, a)" and "hosts (s_backends s) = Some hs"
    and "c = CHR ''s'' \<longrightarrow> bk_len (s_backends s) < bk_size (s_backends s)"
  obtains e' s' where "settings_opt atof e c a s = Ok (True, e', s')" "mem_ok e'"
    "threads s' = (if c = CHR ''t'' then atoi a else threads s)" "users s' = (if c = CHR ''u'' then atoi a else users s)"
    "hosts (s_backends s') = Some (if c = CHR ''s'' then hs @ [take MAX_SERVER_STRING a] else hs)"
    "bk_len (s_backends s') = bk_len (s_backends s) + (if c = CHR ''s'' then 1 else 0)"
    "bk_size (s_backends s') = bk_size (s_backends s)"
proof -
  have "\<exists>e' s'. settings_opt atof e c a s = Ok (True, e', s')"
    using assms unfolding opt_valid_def prod.case by (elim conjE) (auto simp: settings_opt_def add_backend_def alloc_def)
  then obtain e' s' where r: "settings_opt atof e c a s = Ok (True, e', s')" by blast
  then have "mem_ok e'" "threads s' = (if c = CHR ''t'' then atoi a else threads s)"
    "users s' = (if c = CHR ''u'' then atoi a else users s)"
    "hosts (s_backends s') = Some (if c = CHR ''s'' then hs @ [take MAX_SERVER_STRING a] else hs)"
    "bk_len (s_backends s') = bk_len (s_backends s) + (if c = CHR ''s'' then 1 else 0)"
    "bk_size (s_backends s') = bk_size (s_backends s)"
    using assms(1,3) by (auto simp: settings_opt_def add_backend_def alloc_def split: if_splits)
  then show thesis by (rule that [OF r])
qed

lemma settings_parse_valid_opts:
  assumes "mem_ok e" and "list_all opt_valid opts" and "hosts (s_backends s) = Some hs"
    and "bk_len (s_backends s) + length (backend_args opts) \<le> bk_size (s_backends s)"
  shows "\<exists>e' s'. settings_parse atof e opts s = Ok (True, e', s') \<and>
    threads s' = last_opt (CHR ''t'') (threads s) opts \<and> users s' = last_opt (CHR ''u'') (users s) opts \<and>
    hosts (s_backends s') = Some (hs @ map (take MAX_SERVER_STRING) (backend_args opts)) \<and>
    bk_len (s_backends s') = bk_len (s_backends s) + length (backend_args opts)"
  using assms
proof (induction opts arbitrary: e s hs)
  case Nil
  then show ?case by (simp add: backend_args_def)
next
  case (Cons x opts)
  obtain c a where x: "x = (c, a)" by fastforce
  have "c = CHR ''s'' \<longrightarrow> bk_len (s_backends s) < bk_size (s_backends s)"
    using Cons.prems(4) by (auto simp: x backend_args_def)
  then obtain e1 s1 where o: "settings_opt atof e c a s = Ok (True, e1, s1)" "mem_ok e1"
    "threads s1 = (if c = CHR ''t'' then atoi a else threads s)" "users s1 = (if c = CHR ''u'' then atoi a else users s)"
    "hosts (s_backends s1) = Some (if c = CHR ''s'' then hs @ [take MAX_SERVER_STRING a] else hs)"
    "bk_len (s_backends s1) = bk_len (s_backends s) + (if c = CHR ''s'' then 1 else 0)"
    "bk_size (s_backends s1) = bk_size (s_backends s)"
    using settings_opt_accepts [of e c a s hs] Cons.prems by (auto simp: x)
  have "bk_len (s_backends s1) + length (backend_args opts) \<le> bk_size (s_backends s1)"
    using Cons.prems(4) o(6,7) by (auto simp: x backend_args_def split: if_splits)
  from Cons.IH [OF o(2) _ o(5) this] Cons.prems(2)
  obtain e' s' where p: "settings_parse atof e1 opts s1 = Ok (True, e', s')"
    "threads s' = last_opt (CHR ''t'') (threads s1) opts" "users s' = last_opt (CHR ''u'') (users s1) opts"
    "hosts (s_backends s') = Some ((if c = CHR ''s'' then hs @ [take MAX_SERVER_STRING a] else hs) @
       map (take MAX_SERVER_STRING) (backend_args opts))"
    "bk_len (s_backends s') = bk_len (s_backends s1) + length (backend_args opts)"
    by auto
  show ?case
    using o(1,3,4,6) p by (intro exI [of _ e'] exI [of _ s']) (simp add: x backend_args_def)
qed

section \<open>Properties\<close>

text \<open>
  C29. With memory, and with at most as many \<open>-s\<close> options as the array of backends has slots,
  \<open>settings_parse\<close> accepts from the defaults exactly the command lines whose options are all known, with a positive
  number of threads and a non-negative number of users. The settings are then what the options
  say: the last number of threads and of users that was given, and the backends in the order of the command line, each
  name cut to \<open>MAX_SERVER_STRING\<close> bytes.
\<close>

theorem settings_parse_accepts:
  assumes "mem_ok e" and "settings_init e = Ok (s0, e0)" and "length (backend_args opts) \<le> bk_size (s_backends s0)"
  shows "((\<exists>e' s. settings_parse atof e0 opts s0 = Ok (True, e', s)) \<longleftrightarrow> list_all opt_valid opts) \<and>
    (\<forall>e' s. settings_parse atof e0 opts s0 = Ok (True, e', s) \<longrightarrow>
       0 < threads s \<and> 0 \<le> users s \<and>
       threads s = last_opt (CHR ''t'') 1 opts \<and> users s = last_opt (CHR ''u'') 0 opts \<and>
       hosts (s_backends s) = Some (map (take MAX_SERVER_STRING) (backend_args opts)) \<and>
       bk_len (s_backends s) = length (backend_args opts))"
proof -
  have s0: "mem_ok e0" "hosts (s_backends s0) = Some []" "bk_len (s_backends s0) = 0" "threads s0 = 1" "users s0 = 0"
    using assms(1,2) by (auto simp: settings_init_def alloc_def mem_ok_def split: if_splits)
  have run: "\<exists>e' s. settings_parse atof e0 opts s0 = Ok (True, e', s) \<and>
       threads s = last_opt (CHR ''t'') 1 opts \<and> users s = last_opt (CHR ''u'') 0 opts \<and>
       hosts (s_backends s) = Some (map (take MAX_SERVER_STRING) (backend_args opts)) \<and>
       bk_len (s_backends s) = length (backend_args opts)" if "list_all opt_valid opts"
    using settings_parse_valid_opts [OF s0(1) that s0(2), of atof] assms(3) s0(3-5) by simp
  have "0 < threads s \<and> 0 \<le> users s" if "settings_parse atof e0 opts s0 = Ok (True, e', s)" for e' s
    using settings_parse_ok [OF that settings_init_ok [OF assms(2)]] by (simp add: settings_ok_def)
  then show ?thesis using run settings_parse_valid [of atof e0 opts s0] by fastforce
qed

theorem settings_parse_accepts_witness:
  "\<exists>e' s. settings_parse (\<lambda>_. 0) (snd (alloc (snd (alloc (snd (alloc calm_env))))))
       [(CHR ''t'', ''4''), (CHR ''s'', ''a:1''), (CHR ''v'', []), (CHR ''s'', ''b'')]
       (fst (projr (the (settings_init calm_env)))) = Ok (True, e', s) \<and>
     threads s = 4 \<and> hosts (s_backends s) = Some [''a:1'', ''b'']"
proof -
  define s0 where "s0 = fst (projr (the (settings_init calm_env)))"
  define e0 where "e0 = snd (alloc (snd (alloc (snd (alloc calm_env)))))"
  define opts where "opts = [(CHR ''t'', ''4''), (CHR ''s'', ''a:1''), (CHR ''v'', []), (CHR ''s'', ''b'')]"
  have i: "settings_init calm_env = Ok (s0, e0)"
    by (simp add: s0_def e0_def settings_init_def alloc_def calm_env_def)
  have four: "atoi ''4'' = 4"
    by (simp add: atoi_def strtol_def isspace_def isdigit_def digit_val_def of_char_def)
  have "list_all opt_valid opts" "length (backend_args opts) \<le> bk_size (s_backends s0)"
    using four by (simp_all add: opts_def opt_valid_def backend_args_def s0_def settings_init_def alloc_def calm_env_def)
  with settings_parse_accepts [OF mem_ok_calm i, of opts "\<lambda>_. 0"]
  obtain e' s where "settings_parse (\<lambda>_. 0) e0 opts s0 = Ok (True, e', s)" "threads s = last_opt (CHR ''t'') 1 opts"
    "hosts (s_backends s) = Some (map (take MAX_SERVER_STRING) (backend_args opts))"
    by blast
  then show ?thesis using four
    by (intro exI [of _ e'] exI [of _ s]) (simp add: s0_def e0_def opts_def backend_args_def MAX_SERVER_STRING_def)
qed

text \<open>
  C35. The backend array has 1000 slots and no bound check: the 1001st \<open>-s\<close> option writes past
  its end.
\<close>

theorem settings_parse_backend_overflow:
  assumes "mem_ok e" and "settings_init e = Ok (s0, e0)"
  shows "settings_parse atof e0 (replicate 1001 (CHR ''s'', h) @ opts) s0 = Err OutOfBounds"
proof -
  have s0: "mem_ok e0" "hosts (s_backends s0) = Some []" "bk_len (s_backends s0) = 0"
    "bk_size (s_backends s0) = 1000"
    using assms by (auto simp: settings_init_def alloc_def mem_ok_def split: if_splits)
  have split: "replicate 1001 (CHR ''s'', h) @ opts = replicate 1000 (CHR ''s'', h) @ (CHR ''s'', h) # opts"
    using replicate_app_Cons_same [of 1000 "(CHR ''s'', h)" opts] by (simp add: numeral_eq_Suc)
  obtain e1 s1 hs where "settings_parse atof e0 (replicate 1001 (CHR ''s'', h) @ opts) s0 =
      settings_parse atof e1 ((CHR ''s'', h) # opts) s1"
    "mem_ok e1" "hosts (s_backends s1) = Some hs" "bk_len (s_backends s1) = 1000"
    "bk_size (s_backends s1) = 1000"
    using add_backends [OF s0(1,2), of 1000 atof h "(CHR ''s'', h) # opts"] s0(3,4) split by auto
  then show ?thesis by (simp add: settings_opt_def add_backend_full)
qed

theorem settings_parse_backend_overflow_witness:
  "\<exists>s0 e0. settings_init calm_env = Ok (s0, e0) \<and>
     settings_parse (\<lambda>_. 0) e0 (replicate 1001 (CHR ''s'', ''h'') @ []) s0 = Err OutOfBounds"
proof -
  obtain s0 e0 where i: "settings_init calm_env = Ok (s0, e0)"
    by (simp add: settings_init_def alloc_def calm_env_def)
  from settings_parse_backend_overflow [OF mem_ok_calm i, of "\<lambda>_. 0" "''h''" "[]"] i show ?thesis by blast
qed

end
