(* ===== verification/Commands.thy ===== *)
theory Commands
  imports Transmit Tokens Settings
begin

text \<open>
  \<open>commands.c\<close>: the get, update and stats commands. The tokens of the command line are offsets
  into the read buffer of the connection, which \<open>process_get_command\<close> tokenizes further when
  the line has more keys than the token array holds.

  The item store is the global of \<open>items.c\<close>, passed as \<open>item option\<close> (null until it is
  initialised), and the configuration holds the statistics registry.
\<close>

section \<open>The commands\<close>

text \<open>The three elements a hit adds to the outgoing data.\<close>

definition add_item :: "env \<Rightarrow> conn \<Rightarrow> item \<Rightarrow> (bool \<times> env \<times> conn) res" where
  "add_item e c it =
     bindR (conn_add_iov e c ''VALUE '' 6) (\<lambda>(ok, e, c).
       if \<not> ok then Ok (False, e, c)
       else bindR (conn_add_iov e c (ITEM_key it) (int (unat (nkey it)))) (\<lambda>(ok, e, c).
         if \<not> ok then Ok (False, e, c)
         else conn_add_iov e c (ITEM_suffix it) (i32 (int (unat (nsuffix it)) + nbytes it))))"

text \<open>
  Complete the response to a get request. The loop returns \<open>False\<close> where the function returns
  early.
\<close>

fun finish_items :: "nat \<Rightarrow> nat \<Rightarrow> env \<Rightarrow> conn \<Rightarrow> (bool \<times> env \<times> conn) res" where
  "finish_items 0 i e c = Ok (True, e, c)"
| "finish_items (Suc n) i e c =
     (if length (ilist c) \<le> i then Err OutOfBounds
      else case ilist c ! i of
          None \<Rightarrow> Err (Exit 1)
        | Some it \<Rightarrow>
            bindR (add_item e c it) (\<lambda>(ok, e, c).
              if ok then finish_items n (i + 1) e c
              else bindR (error_response e c ''SERVER_ERROR out of memory writing get response'')
                     (\<lambda>(e, c). Ok (False, e, c))))"

definition finish_get_command :: "env \<Rightarrow> conn \<Rightarrow> (env \<times> conn) res" where
  "finish_get_command e c =
     bindR (finish_items (ileft c) 0 e c) (\<lambda>(ok, e, c).
       if \<not> ok then Ok (e, c)
       else bindR (conn_add_iov e c (''END'' @ CRLF) 5) (\<lambda>(ok, e, c).
         if \<not> ok then error_response e c ''SERVER_ERROR out of memory writing get response''
         else bindR (conn_set_state c conn_mwrite) (\<lambda>c. Ok (e, c))))"

text \<open>
  The synthetic allocation of \<open>process_get_command\<close>: a blob of normally distributed size, to be
  kept for a number of requests. The random generator belongs to the connection's thread. Draws
  are taken to be in the range of the integer type they are converted to.
\<close>

definition get_blob :: "settings \<Rightarrow> env \<Rightarrow> conn \<Rightarrow> (env \<times> conn) res" where
  "get_blob cfg e c =
     (if s_alloc cfg \<and> mem_blob c = None then
        case c_thread c of
          None \<Rightarrow> Err NullDeref
        | Some _ \<Rightarrow>
            (case gsl_ran_gaussian e (alloc_stddev cfg) of (g, e) \<Rightarrow>
             let size = trunc (alloc_mean cfg + g);
                 size = (if size \<le> 0 then 10 else size) in
             case alloc e of (ok, e) \<Rightarrow>
             let c = c\<lparr>mem_blob := (if ok then Some size else None), mem_free_delay := 0\<rparr> in
             if rtt_delay cfg then
               (case gsl_ran_gaussian e (rtt_stddev cfg) of (g, e) \<Rightarrow>
                let r = rtt_mean cfg + g in
                if r \<ge> rtt_cutoff cfg then
                  bindR (conn_set_state (c\<lparr>mem_free_delay := trunc (r / 100)\<rparr>) conn_mwrite) (\<lambda>c. Ok (e, c))
                else Ok (e, c))
             else Ok (e, c))
      else Ok (e, c))"

text \<open>How the loops of \<open>process_get_command\<close> go on.\<close>

datatype get_outcome =
    GetReturn env conn                         \<comment> \<open>the function has returned\<close>
  | GetToken token_t env conn nat              \<comment> \<open>\<open>key_token\<close> and \<open>i\<close> at the end of the inner loop\<close>
  | GetMore "token_t list" env conn nat        \<comment> \<open>another round of the outer loop\<close>
  | GetDone env conn nat                       \<comment> \<open>\<open>key_token->value\<close> is null\<close>

text \<open>The inner loop, over the tokens from \<open>key_token\<close> on; a \<open>break\<close> leaves \<open>key_token\<close> as it is.\<close>

fun get_inner :: "item option \<Rightarrow> env \<Rightarrow> conn \<Rightarrow> token_t list \<Rightarrow> nat \<Rightarrow> get_outcome res" where
  "get_inner fixed e c [] i = Err OutOfBounds"
| "get_inner fixed e c (t # ts) i =
     (if tlength t = 0 then Ok (GetToken t e c i)
      else if tlength t > KEY_MAX_LENGTH then
        bindR (error_response e c ''CLIENT_ERROR bad command line format'') (\<lambda>(e, c). Ok (GetReturn e c))
      else case item_get fixed (token_text (rbuf c) t) (tlength t) of
          None \<Rightarrow> get_inner fixed e c ts i
        | Some it \<Rightarrow>
            (case (if i \<ge> isize c then conn_expand_items e c else (True, e, c)) of (ok, e, c) \<Rightarrow>
               if \<not> ok then Ok (GetToken t e c i)
               else bindR (add_item e c it) (\<lambda>(ok, e, c).
                 if \<not> ok then Ok (GetToken t e c i)
                 else if i < length (ilist c) then
                   get_inner fixed e (c\<lparr>ilist := (ilist c)[i := Some it]\<rparr>) ts (i + 1)
                 else Err OutOfBounds)))"

text \<open>One round of the outer loop, with its condition.\<close>

definition get_round :: "item option \<Rightarrow> env \<Rightarrow> conn \<Rightarrow> token_t list \<Rightarrow> nat \<Rightarrow> get_outcome res" where
  "get_round fixed e c toks i =
     bindR (get_inner fixed e c toks i) (\<lambda>r.
       case r of
         GetToken t e c i \<Rightarrow>
           (case tvalue t of
              None \<Rightarrow> Ok (GetDone e c i)
            | Some q \<Rightarrow>
                bindR (tokenize_command (rbuf c) q MAX_TOKENS) (\<lambda>(toks, b).
                  let c = c\<lparr>rbuf := b\<rparr> in
                  if tvalue (hd toks) \<noteq> None then Ok (GetMore toks e c i) else Ok (GetDone e c i)))
       | _ \<Rightarrow> Ok r)"

partial_function (option) get_outer ::
  "item option \<Rightarrow> env \<Rightarrow> conn \<Rightarrow> token_t list \<Rightarrow> nat \<Rightarrow> get_outcome res"
where
  "get_outer fixed e c toks i =
     (case get_round fixed e c toks i of
        None \<Rightarrow> None
      | Some (Inl x) \<Rightarrow> Err x
      | Some (Inr (GetMore toks' e' c' i')) \<Rightarrow> get_outer fixed e' c' toks' i'
      | Some (Inr (GetReturn e' c')) \<Rightarrow> Ok (GetReturn e' c')
      | Some (Inr (GetDone e' c' i')) \<Rightarrow> Ok (GetDone e' c' i')
      | Some (Inr (GetToken t e' c' i')) \<Rightarrow> Ok (GetToken t e' c' i'))"

text \<open>
  Process a memcached get(s) command. After the loop \<open>key_token->value\<close> is null, so of the two
  conditions for the closing error only the failure of the last \<open>conn_add_iov\<close> is left.
\<close>

definition process_get_command ::
  "item option \<Rightarrow> settings \<Rightarrow> env \<Rightarrow> conn \<Rightarrow> token_t list \<Rightarrow> (env \<times> conn) res"
where
  "process_get_command fixed cfg e c tokens =
     bindR (get_blob cfg e c) (\<lambda>(e, c).
     bindR (get_outer fixed e c (drop KEY_TOKEN tokens) 0) (\<lambda>r.
       case r of
         GetDone e c i \<Rightarrow>
           bindR (conn_add_iov e (c\<lparr>icurr := 0, ileft := i\<rparr>) (''END'' @ CRLF) 5) (\<lambda>(ok, e, c).
             if \<not> ok then error_response e c ''SERVER_ERROR out of memory writing get response''
             else bindR (conn_set_state c conn_mwrite) (\<lambda>c. Ok (e, c)))
       | GetReturn e c \<Rightarrow> Ok (e, c)
       | GetToken t e c i \<Rightarrow> error_response e c ''SERVER_ERROR out of memory writing get response''
       | GetMore toks e c i \<Rightarrow> error_response e c ''SERVER_ERROR out of memory writing get response''))"

text \<open>Process a memcached set command (and its relatives). The addition of 2 may overflow.\<close>

definition process_update_command :: "env \<Rightarrow> conn \<Rightarrow> token_t list \<Rightarrow> (env \<times> conn) res" where
  "process_update_command e c tokens =
     (if length tokens < 5 then Err OutOfBounds
      else if tlength (tokens ! KEY_TOKEN) > KEY_MAX_LENGTH then
        error_response e c ''CLIENT_ERROR bad command line format''
      else case tvalue (tokens ! 4) of
          None \<Rightarrow> Err NullDeref
        | Some _ \<Rightarrow>
            (case safe_strtol (token_text (rbuf c) (tokens ! 4)) of (ok, vlen) \<Rightarrow>
               if \<not> ok then error_response e c ''CLIENT_ERROR bad command line format''
               else if vlen < 0 then error_response e c ''CLIENT_ERROR bad command line format''
               else bindR (conn_set_state (c\<lparr>sbytes := i32 (vlen + 2)\<rparr>) conn_read_value) (\<lambda>c. Ok (e, c))))"

text \<open>Process a memcached stat command: it only prints the client's counters.\<close>

definition process_stat_command :: "settings \<Rightarrow> env \<Rightarrow> conn \<Rightarrow> (env \<times> conn) res" where
  "process_stat_command cfg e c =
     (case Option.bind (c_stats c) (st_heap (s_stats cfg)) of
        None \<Rightarrow> Err NullDeref
      | Some _ \<Rightarrow> bindR (conn_set_state c conn_new_cmd) (\<lambda>c. Ok (e, c)))"

section \<open>Hits\<close>

definition item_len :: "item \<Rightarrow> nat" where
  "item_len it = 6 + unat (nkey it) + (unat (nsuffix it) + nat (nbytes it))"

text \<open>\<open>ms\<close> is \<open>msgs\<close> with the responses for the items \<open>its\<close> added.\<close>

definition hits :: "item list \<Rightarrow> iovec list list \<Rightarrow> iovec list list \<Rightarrow> bool" where
  "hits its msgs ms \<longleftrightarrow>
     out_data ms = out_data msgs @ concat (map item_response its) \<and>
     out_len ms = out_len msgs + sum_list (map item_len its) \<and>
     (out_safe msgs \<longrightarrow> list_all item_complete its \<longrightarrow> out_safe ms)"

lemma hits_Nil [simp]: "hits [] msgs msgs"
  by (simp add: hits_def)

lemma hits_trans: "hits xs msgs ms \<Longrightarrow> hits ys ms ms' \<Longrightarrow> hits (xs @ ys) msgs ms'"
  by (auto simp: hits_def)

lemma added_item:
  assumes "added msgs ''VALUE '' 6 m1" "added m1 (ITEM_key it) (unat (nkey it)) m2"
    "added m2 (ITEM_suffix it) (unat (nsuffix it) + nat (nbytes it)) m3"
  shows "hits [it] msgs m3"
  using assms item_complete_key [of it] item_complete_suffix [of it]
  by (auto simp: added_def hits_def item_response_def item_len_def)

lemma add_item_rep:
  assumes "out_rep c msgs" and "msgs \<noteq> []" and "sized it"
  shows "\<exists>ok e' c' ms. add_item e c it = Ok (ok, e', c') \<and> same_out c c' \<and> out_rep c' ms \<and> ms \<noteq> [] \<and>
    (mem_ok e \<longrightarrow> ok \<and> mem_ok e') \<and> (ok \<longrightarrow> hits [it] msgs ms)"
proof -
  obtain ok1 e1 c1 m1 where 1: "conn_add_iov e c ''VALUE '' 6 = Ok (ok1, e1, c1)" "same_out c c1"
    "out_rep c1 m1" "m1 \<noteq> []" "mem_ok e \<longrightarrow> ok1 \<and> mem_ok e1" "ok1 \<longrightarrow> added msgs ''VALUE '' 6 m1"
    using conn_add_iov_rep [OF assms(1,2), of 6 e "''VALUE ''"] by auto
  obtain ok2 e2 c2 m2 where 2: "conn_add_iov e1 c1 (ITEM_key it) (int (unat (nkey it))) = Ok (ok2, e2, c2)"
    "same_out c1 c2" "out_rep c2 m2" "m2 \<noteq> []" "mem_ok e1 \<longrightarrow> ok2 \<and> mem_ok e2"
    "ok2 \<longrightarrow> added m1 (ITEM_key it) (unat (nkey it)) m2"
    using conn_add_iov_rep [OF 1(3,4), of "int (unat (nkey it))" e1 "ITEM_key it"] by auto
  define n where "n = unat (nsuffix it) + nat (nbytes it)"
  obtain ok3 e3 c3 m3 where 3: "conn_add_iov e2 c2 (ITEM_suffix it) (i32 (int (unat (nsuffix it)) + nbytes it)) =
      Ok (ok3, e3, c3)" "same_out c2 c3" "out_rep c3 m3" "m3 \<noteq> []" "mem_ok e2 \<longrightarrow> ok3 \<and> mem_ok e3"
    "ok3 \<longrightarrow> added m2 (ITEM_suffix it) (unat (nsuffix it) + nat (nbytes it)) m3"
    unfolding sized_length [OF assms(3)] n_def [symmetric]
    using conn_add_iov_rep [OF 2(3,4), of "int n" e2 "ITEM_suffix it"] by auto
  show ?thesis
  proof (cases "ok1 \<and> ok2")
    case True
    then have "add_item e c it = Ok (ok3, e3, c3)" using 1(1) 2(1) 3(1) by (simp add: add_item_def)
    moreover have "same_out c c3" using 1(2) 2(2) 3(2) same_out_trans by metis
    moreover have "ok3 \<longrightarrow> hits [it] msgs m3" using True 1(6) 2(6) 3(6) added_item by simp
    ultimately show ?thesis using 3(3,4,5) 1(5) 2(5) by (intro exI conjI) (assumption | simp)+
  next
    case False
    then have "add_item e c it = Ok (False, if ok1 then e2 else e1, if ok1 then c2 else c1)"
      using 1(1) 2(1) by (auto simp: add_item_def)
    then show ?thesis
      using False 1(2-5) 2(2-5) same_out_trans [OF 1(2) 2(2)] by (cases ok1) auto
  qed
qed

section \<open>Retained items\<close>

lemma finish_items_rep:
  assumes "out_rep c msgs" "msgs \<noteq> []" "mem_ok e"
    and "take n (drop i (ilist c)) = map Some its" "length its = n" "\<forall>it \<in> set its. sized it"
  shows "\<exists>e' c' ms. finish_items n i e c = Ok (True, e', c') \<and> same_out c c' \<and> out_rep c' ms \<and>
    ms \<noteq> [] \<and> mem_ok e' \<and> hits its msgs ms"
  using assms
proof (induction its arbitrary: n i e c msgs)
  case Nil
  then show ?case by (auto intro: hits_Nil)
next
  case (Cons it its)
  obtain n' where n: "n = Suc n'" using Cons.prems(5) by auto
  have i: "i < length (ilist c)" using Cons.prems(4) n by (cases "i < length (ilist c)") auto
  then have at: "ilist c ! i = Some it" "take n' (drop (Suc i) (ilist c)) = map Some its"
    using Cons.prems(4) n by (simp_all add: Cons_nth_drop_Suc [symmetric])
  obtain ok e1 c1 m1 where a: "add_item e c it = Ok (ok, e1, c1)" "same_out c c1" "out_rep c1 m1" "m1 \<noteq> []"
    "mem_ok e \<longrightarrow> ok \<and> mem_ok e1" "ok \<longrightarrow> hits [it] msgs m1"
    using add_item_rep [OF Cons.prems(1,2), of it e] Cons.prems(6) by auto
  have il: "ilist c1 = ilist c" using same_out_fields [OF a(2)] by simp
  obtain e' c' ms where r: "finish_items n' (Suc i) e1 c1 = Ok (True, e', c')" "same_out c1 c'" "out_rep c' ms"
    "ms \<noteq> []" "mem_ok e'" "hits its m1 ms"
    using Cons.IH [OF a(3,4), of e1 n' "Suc i"] a(5) Cons.prems(3,5,6) at(2) il n by auto
  have "finish_items n i e c = Ok (True, e', c')"
    using a(1,5) Cons.prems(3) r(1) i at(1) n by simp
  moreover have "hits (it # its) msgs ms" using hits_trans [of "[it]" msgs m1 its ms] a(5,6) r(6) Cons.prems(3) by simp
  ultimately show ?case using r(3-5) same_out_trans [OF a(2) r(2)] by (intro exI conjI)
qed

section \<open>What a command leaves alone\<close>

text \<open>
  Everything of a connection but its output, its state, the retained items, the blob, the bytes
  to swallow and the contents of the read buffer.
\<close>

definition but_cmd :: "conn \<Rightarrow> conn" where
  "but_cmd c = (but_resp c)\<lparr>ilist := [], isize := 0, icurr := 0, ileft := 0, rbuf := [],
     mem_blob := None, mem_free_delay := 0, sbytes := 0\<rparr>"

definition same_cmd :: "conn \<Rightarrow> conn \<Rightarrow> bool" where
  "same_cmd c c' \<longleftrightarrow> but_cmd c' = but_cmd c"

lemma same_cmd_refl [simp]: "same_cmd c c"
  by (simp add: same_cmd_def)

lemma same_cmd_trans: "same_cmd c d \<Longrightarrow> same_cmd d f \<Longrightarrow> same_cmd c f"
  by (simp add: same_cmd_def)

lemma same_resp_cmd: "same_resp c c' \<Longrightarrow> same_cmd c c'"
  by (simp add: same_resp_def same_cmd_def but_cmd_def)

lemma same_out_cmd: "same_out c c' \<Longrightarrow> same_cmd c c'"
  by (rule same_resp_cmd [OF same_out_resp])

lemma same_cmd_update [simp]:
  "same_cmd c (c'\<lparr>c_state := st\<rparr>) = same_cmd c c'"
  "same_cmd c (c'\<lparr>ilist := l\<rparr>) = same_cmd c c'"
  "same_cmd c (c'\<lparr>isize := n\<rparr>) = same_cmd c c'"
  "same_cmd c (c'\<lparr>icurr := n\<rparr>) = same_cmd c c'"
  "same_cmd c (c'\<lparr>ileft := n\<rparr>) = same_cmd c c'"
  "same_cmd c (c'\<lparr>rbuf := b\<rparr>) = same_cmd c c'"
  "same_cmd c (c'\<lparr>mem_blob := m\<rparr>) = same_cmd c c'"
  "same_cmd c (c'\<lparr>mem_free_delay := d\<rparr>) = same_cmd c c'"
  "same_cmd c (c'\<lparr>sbytes := k\<rparr>) = same_cmd c c'"
  "same_cmd (c\<lparr>rbuf := b\<rparr>) c' = same_cmd c c'"
  "same_cmd (c\<lparr>ilist := l\<rparr>) c' = same_cmd c c'"
  "same_cmd (c\<lparr>isize := n\<rparr>) c' = same_cmd c c'"
  by (simp_all add: same_cmd_def but_cmd_def but_resp_def but_out_def)

lemma but_cmd_fields:
  shows
    "c_type (but_cmd c) = c_type c" "c_sfd (but_cmd c) = c_sfd c" "rcurr (but_cmd c) = rcurr c"
    "rbytes (but_cmd c) = rbytes c" "rsize (but_cmd c) = rsize c" "wsize (but_cmd c) = wsize c"
    "c_stats (but_cmd c) = c_stats c" "ev_flags (but_cmd c) = ev_flags c" "rpc (but_cmd c) = rpc c"
    "rpcused (but_cmd c) = rpcused c" "rpcdone (but_cmd c) = rpcdone c"
    "rpcsize (but_cmd c) = rpcsize c" "rpcwaiting (but_cmd c) = rpcwaiting c"
    "c_thread (but_cmd c) = c_thread c" "c_client_id (but_cmd c) = c_client_id c"
  by (simp_all add: but_cmd_def but_resp_def but_out_def)

lemma same_cmd_fields:
  assumes "same_cmd c c'"
  shows
    "c_type c' = c_type c" "c_sfd c' = c_sfd c" "rcurr c' = rcurr c" "rbytes c' = rbytes c"
    "rsize c' = rsize c" "wsize c' = wsize c" "c_stats c' = c_stats c" "ev_flags c' = ev_flags c"
    "rpc c' = rpc c" "rpcused c' = rpcused c" "rpcdone c' = rpcdone c" "rpcsize c' = rpcsize c"
    "rpcwaiting c' = rpcwaiting c" "c_thread c' = c_thread c" "c_client_id c' = c_client_id c"
  by (rule but_cmd_fields [of c', unfolded assms [unfolded same_cmd_def] but_cmd_fields [of c], symmetric])+

text \<open>A buffer changed between two positions only.\<close>

definition same_outside :: "nat \<Rightarrow> nat \<Rightarrow> char list \<Rightarrow> char list \<Rightarrow> bool" where
  "same_outside lo hi b b' \<longleftrightarrow> length b' = length b \<and> take lo b' = take lo b \<and> drop hi b' = drop hi b"

lemma same_outside_refl [simp]: "same_outside lo hi b b"
  by (simp add: same_outside_def)

lemma same_outside_trans: "same_outside lo hi b b' \<Longrightarrow> same_outside lo hi b' b'' \<Longrightarrow> same_outside lo hi b b''"
  by (simp add: same_outside_def)

lemma same_outside_widen:
  assumes "same_outside lo' hi' b b'" and "lo \<le> lo'" and "hi' \<le> hi"
  shows "same_outside lo hi b b'"
proof -
  have "take lo (take lo' b') = take lo (take lo' b)"
    "drop (hi - hi') (drop hi' b') = drop (hi - hi') (drop hi' b)"
    using assms(1) by (simp_all add: same_outside_def del: take_take drop_drop)
  then show ?thesis using assms by (simp add: same_outside_def min_def)
qed

lemma same_outside_nth: "same_outside lo hi b b' \<Longrightarrow> hi < length b \<Longrightarrow> b' ! hi = b ! hi"
  unfolding same_outside_def by (metis hd_drop_conv_nth)

lemma cstr_bound:
  assumes "q \<le> hi" "hi < length b" "b ! hi = NUL"
  shows "q + length (cstr (drop q b)) \<le> hi" and "NUL \<in> set (drop q b)"
proof -
  have at: "drop q b ! (hi - q) = NUL" "hi - q < length (drop q b)" using assms by simp_all
  show "NUL \<in> set (drop q b)" using at by (metis nth_mem)
  have "length (cstr (drop q b)) \<le> hi - q"
  proof (rule ccontr)
    assume "\<not> ?thesis"
    then have "hi - q < length (cstr (drop q b))" by simp
    then have "cstr (drop q b) ! (hi - q) = NUL" using at by (simp add: cstr_def takeWhile_nth)
    then show False using \<open>hi - q < length (cstr (drop q b))\<close> NUL_notin_cstr nth_mem by metis
  qed
  then show "q + length (cstr (drop q b)) \<le> hi" using assms(1) by simp
qed

section \<open>The get loops\<close>

text \<open>What the loops keep while they add hits.\<close>

definition get_state :: "conn \<Rightarrow> conn \<Rightarrow> nat \<Rightarrow> bool" where
  "get_state c c' i \<longleftrightarrow>
     items_ok c' \<and> i \<le> isize c' \<and> same_cmd c c' \<and> msgcurr c' = msgcurr c \<and> wbuf c' = wbuf c \<and>
     c_state c' = c_state c"

lemma get_state_trans: "get_state c d i \<Longrightarrow> get_state d f j \<Longrightarrow> get_state c f j"
  by (auto simp: get_state_def intro: same_cmd_trans)

text \<open>Room for one more retained item.\<close>

lemma get_room:
  assumes "out_rep c msgs" and "mem_ok e" and "get_state c0 c i"
  obtains e' c' where "(if i \<ge> isize c then conn_expand_items e c else (True, e, c)) = (True, e', c')"
    and "out_rep c' msgs" and "mem_ok e'" and "i < isize c'" and "get_state c0 c' i"
    and "rbuf c' = rbuf c" and "take i (ilist c') = take i (ilist c)"
proof (cases "i \<ge> isize c")
  case True
  define d where "d = c\<lparr>isize := isize c * 2, ilist := ilist c @ replicate (isize c) None\<rparr>"
  have "conn_expand_items e c = (True, snd (alloc e), d)"
    using assms(2) by (simp add: conn_expand_items_def alloc_def d_def)
  moreover have "out_rep d msgs" using assms(1) by (simp add: out_rep_def d_def)
  moreover have "mem_ok (snd (alloc e))" "i < isize d" "get_state c0 d i" "rbuf d = rbuf c"
    "take i (ilist d) = take i (ilist c)"
    using assms(2,3) True by (auto simp: d_def get_state_def items_ok_def)
  ultimately show ?thesis using that True by simp
next
  case False
  then show ?thesis using that assms by simp
qed

lemma get_inner_hits:
  assumes "out_rep c msgs" "msgs \<noteq> []" "mem_ok e" "items_ok c" "i \<le> isize c" "sized it"
    and "\<forall>t \<in> set news. 0 < tlength t \<and> tlength t \<le> KEY_MAX_LENGTH"
  shows "\<exists>e' c' ms. get_inner (Some it) e c (news @ ts) i = get_inner (Some it) e' c' ts (i + length news) \<and>
    out_rep c' ms \<and> ms \<noteq> [] \<and> mem_ok e' \<and> hits (replicate (length news) it) msgs ms \<and>
    get_state c c' (i + length news) \<and> rbuf c' = rbuf c \<and>
    take (i + length news) (ilist c') = take i (ilist c) @ replicate (length news) (Some it)"
  using assms
proof (induction news arbitrary: e c i msgs)
  case Nil
  then show ?case
    by (intro exI [of _ e] exI [of _ c] exI [of _ msgs]) (simp add: get_state_def)
next
  case (Cons t news)
  have st: "get_state c c i" using Cons.prems(4,5) by (simp add: get_state_def)
  obtain e1 c1 where 1: "(if i \<ge> isize c then conn_expand_items e c else (True, e, c)) = (True, e1, c1)"
    "out_rep c1 msgs" "mem_ok e1" "i < isize c1" "get_state c c1 i" "rbuf c1 = rbuf c"
    "take i (ilist c1) = take i (ilist c)"
    using get_room [OF Cons.prems(1,3) st] .
  obtain ok e2 c2 m2 where 2: "add_item e1 c1 it = Ok (ok, e2, c2)" "same_out c1 c2" "out_rep c2 m2" "m2 \<noteq> []"
    "ok" "mem_ok e2" "hits [it] msgs m2"
    using add_item_rep [OF 1(2) Cons.prems(2,6), of e1] 1(3) by blast
  note f = same_out_fields [OF 2(2)]
  define c3 where "c3 = c2\<lparr>ilist := (ilist c2)[i := Some it]\<rparr>"
  have il: "i < length (ilist c2)" "length (ilist c2) = isize c2" "0 < isize c2"
    using 1(4,5) f by (auto simp: get_state_def items_ok_def)
  have 3: "out_rep c3 m2" using 2(3) by (simp add: c3_def out_rep_def)
  have st3: "get_state c c3 (Suc i)"
    using 1(5) f il same_cmd_trans [OF _ same_out_cmd [OF 2(2)]]
    by (auto simp: get_state_def c3_def items_ok_def)
  have k3: "rbuf c3 = rbuf c" "take (Suc i) (ilist c3) = take i (ilist c) @ [Some it]"
    using 1(6,7) f il(1) by (simp_all add: c3_def take_update_last del: take_Suc)
  have step: "get_inner (Some it) e c ((t # news) @ ts) i = get_inner (Some it) e2 c3 (news @ ts) (Suc i)"
    using Cons.prems(7) 1(1) 2(1,5) il(1) by (simp add: item_get_def c3_def)
  have "items_ok c3" "Suc i \<le> isize c3" using st3 by (simp_all add: get_state_def)
  then obtain e' c' ms where r:
    "get_inner (Some it) e2 c3 (news @ ts) (Suc i) = get_inner (Some it) e' c' ts (Suc i + length news)"
    "out_rep c' ms" "ms \<noteq> []" "mem_ok e'" "hits (replicate (length news) it) m2 ms"
    "get_state c3 c' (Suc i + length news)" "rbuf c' = rbuf c3"
    "take (Suc i + length news) (ilist c') = take (Suc i) (ilist c3) @ replicate (length news) (Some it)"
    using Cons.IH [OF 3 2(4,6) _ _ Cons.prems(6)] Cons.prems(7) by (metis list.set_intros(2))
  have "hits (replicate (length (t # news)) it) msgs ms"
    using hits_trans [OF 2(7) r(5)] by simp
  moreover have "take (i + length (t # news)) (ilist c') = take i (ilist c) @ replicate (length (t # news)) (Some it)"
    using r(8) k3(2) by simp
  moreover have "get_state c c' (i + length (t # news))" using get_state_trans [OF st3 r(6)] by simp
  ultimately show ?case
    using step r(1-4,7) k3(1) by (intro exI [of _ e'] exI [of _ c'] exI [of _ ms]) simp
qed

text \<open>
  The outcome of the loops for the keys \<open>ks\<close>: every key is answered with the item, or, when a
  key is too long, the response is the error line alone. The read buffer changes inside the
  command line only.
\<close>

definition get_result ::
  "item \<Rightarrow> conn \<Rightarrow> nat \<Rightarrow> nat \<Rightarrow> iovec list list \<Rightarrow> string list \<Rightarrow> nat \<Rightarrow> get_outcome \<Rightarrow> bool"
where
  "get_result it c lo hi msgs ks i r \<longleftrightarrow>
     (case r of
        GetDone e' c' i' \<Rightarrow>
          (\<forall>k \<in> set ks. length k \<le> KEY_MAX_LENGTH) \<and> i' = i + length ks \<and> mem_ok e' \<and>
          (\<exists>ms. out_rep c' ms \<and> ms \<noteq> [] \<and> hits (replicate (length ks) it) msgs ms) \<and>
          get_state c c' i' \<and> same_outside lo hi (rbuf c) (rbuf c') \<and>
          take i' (ilist c') = take i (ilist c) @ replicate (length ks) (Some it)
      | GetReturn e' c' \<Rightarrow>
          (\<exists>k \<in> set ks. KEY_MAX_LENGTH < length k) \<and> mem_ok e' \<and>
          says c' (''CLIENT_ERROR bad command line format'' @ CRLF) \<and> same_cmd c c' \<and> items_ok c' \<and>
          same_outside lo hi (rbuf c) (rbuf c')
      | _ \<Rightarrow> False)"

lemma get_result_shift:
  assumes "get_result it d lo hi ms ks j r" and "get_state c d j" and "same_outside lo hi (rbuf c) (rbuf d)"
    and "hits (replicate (length ws) it) msgs ms" and "\<forall>w \<in> set ws. length w \<le> KEY_MAX_LENGTH"
    and "j = i + length ws" and "take j (ilist d) = take i (ilist c) @ replicate (length ws) (Some it)"
  shows "get_result it c lo hi msgs (ws @ ks) i r"
proof (cases r)
  case (GetDone e' c' i')
  then obtain m where "out_rep c' m" "m \<noteq> []" "hits (replicate (length ks) it) ms m"
    using assms(1) by (auto simp: get_result_def)
  moreover from this have "hits (replicate (length (ws @ ks)) it) msgs m"
    using hits_trans [OF assms(4)] by (simp add: replicate_add)
  ultimately show ?thesis
    using assms GetDone get_state_trans [OF assms(2)] same_outside_trans [OF assms(3)]
    by (auto simp: get_result_def replicate_add)
next
  case (GetReturn e' c')
  then show ?thesis
    using assms same_outside_trans [OF assms(3)] same_cmd_trans [of c d]
    by (auto simp: get_result_def get_state_def)
qed (use assms(1) in \<open>auto simp: get_result_def\<close>)

text \<open>The inner loop on a token array whose first long key is at some position.\<close>

lemma get_inner_long:
  assumes "out_rep c msgs" "msgs \<noteq> []" "mem_ok e" "items_ok c" "i \<le> isize c" "sized it" "wbuf_ok c"
    and "\<exists>t \<in> set news. KEY_MAX_LENGTH < tlength t" and "\<forall>t \<in> set news. 0 < tlength t"
  shows "\<exists>e' c'. get_inner (Some it) e c (news @ ts) i = Ok (GetReturn e' c') \<and> mem_ok e' \<and>
    says c' (''CLIENT_ERROR bad command line format'' @ CRLF) \<and> same_cmd c c' \<and> items_ok c' \<and> rbuf c' = rbuf c"
proof -
  obtain xs t ys where news: "news = xs @ t # ys" "KEY_MAX_LENGTH < tlength t"
    "\<forall>x \<in> set xs. \<not> KEY_MAX_LENGTH < tlength x"
    using split_list_first_prop [OF assms(8)] by blast
  then have xs: "\<forall>x \<in> set xs. 0 < tlength x \<and> tlength x \<le> KEY_MAX_LENGTH" using assms(9) by auto
  obtain e1 c1 ms where 1: "get_inner (Some it) e c (xs @ (t # ys) @ ts) i =
      get_inner (Some it) e1 c1 ((t # ys) @ ts) (i + length xs)" "out_rep c1 ms" "mem_ok e1"
    "get_state c c1 (i + length xs)" "rbuf c1 = rbuf c"
    using get_inner_hits [OF assms(1-6) xs, of "(t # ys) @ ts"] by blast
  have "wbuf_ok c1"
    using assms(7) 1(4) same_cmd_fields(6) [of c c1] by (simp add: get_state_def wbuf_ok_def)
  then obtain c' where c': "error_response e1 c1 ''CLIENT_ERROR bad command line format'' = Ok (e1, c')"
    "says c' (''CLIENT_ERROR bad command line format'' @ CRLF)" "same_resp c1 c'"
    using error_response_says [OF out_rep_arrays [OF 1(2)], of "''CLIENT_ERROR bad command line format''" e1] by auto
  have "get_inner (Some it) e c (news @ ts) i = Ok (GetReturn e1 c')"
    using 1(1) news(1,2) c'(1) by (simp add: KEY_MAX_LENGTH_def)
  moreover have "same_cmd c c'" "items_ok c'" "rbuf c' = rbuf c"
    using 1(4,5) same_cmd_trans [of c c1 c'] same_resp_cmd [OF c'(3)] same_resp_fields [OF c'(3)]
    by (simp_all add: get_state_def items_ok_def)
  ultimately show ?thesis using 1(3) c'(2) by blast
qed

text \<open>A token array for the words \<open>ws\<close>, with \<open>rest\<close> still to be tokenized.\<close>

definition tokens_for :: "char list \<Rightarrow> nat \<Rightarrow> nat \<Rightarrow> token_t list \<Rightarrow> string list \<Rightarrow> string \<Rightarrow> bool" where
  "tokens_for b lo hi toks ws rest \<longleftrightarrow>
     (\<exists>news tm. toks = news @ [tm] \<and> map tlength news = map length ws \<and> [] \<notin> set ws \<and> tlength tm = 0 \<and>
        (tvalue tm = None \<longleftrightarrow> rest = []) \<and>
        (\<forall>q. tvalue tm = Some q \<longrightarrow> lo \<le> q \<and> q < hi \<and> cstr (drop q b) = rest))"

lemma split_words_nonempty: "split_words n s = (ws, rest) \<Longrightarrow> [] \<notin> set ws"
  using split_go_words [of n "[]" s ws rest] words_chars(1) [of "[]" s]
  by (auto simp: split_words_def words_def)

lemma tokenize_command_tokens:
  assumes "lo \<le> q" "q \<le> hi" "hi < length b" "b ! hi = NUL"
    and "split_words (MAX_TOKENS - 1) (cstr (drop q b)) = (ws, rest)"
  obtains toks b' where "tokenize_command b q MAX_TOKENS = Ok (toks, b')"
    "tokens_for b' lo hi toks ws rest" "same_outside lo hi b b'" "tvalue (hd toks) = None \<longleftrightarrow> ws = [] \<and> rest = []"
proof -
  obtain toks b' where t: "tokenize_command b q MAX_TOKENS = Ok (toks, b')"
    and post: "tok_post b q (q + length (cstr (drop q b))) [] ws rest (toks, b')"
    using tokenize_command_post [OF cstr_bound(2) [OF assms(2-4)] _ assms(5)] by (auto simp: MAX_TOKENS_def)
  have le: "q + length (cstr (drop q b)) \<le> hi" using cstr_bound(1) [OF assms(2-4)] .
  obtain news tm where n: "toks = news @ [tm]" "map tlength news = map length ws" "map (token_text b') news = ws"
    "list_all (\<lambda>t. \<exists>p \<ge> q. tvalue t = Some p \<and> p < q + length (cstr (drop q b))) news"
    "tlength tm = 0" "(tvalue tm = None) = (rest = [])" "token_text b' tm = rest"
    "\<forall>p. tvalue tm = Some p \<longrightarrow> q \<le> p \<and> p < q + length (cstr (drop q b)) \<and> NUL \<in> set (drop p b')"
    using post unfolding tok_post_def by (elim exE conjE) (rule that, simp_all)
  have "tokens_for b' lo hi toks ws rest"
    unfolding tokens_for_def using n assms(1) le split_words_nonempty [OF assms(5)]
    by (intro exI [of _ news] exI [of _ tm]) (auto simp: token_text_def)
  moreover have "same_outside lo hi b b'"
    by (rule same_outside_widen [OF _ assms(1) le])
       (simp only: same_outside_def tok_postD(1-3) [OF post] simp_thms)
  moreover have "tvalue (hd toks) = None \<longleftrightarrow> ws = [] \<and> rest = []"
    using n(1,3,4,6) by (cases news) auto
  ultimately show ?thesis by (rule that [OF t])
qed

lemma get_result_done:
  assumes "get_state c c' (i + length ws)" "same_outside lo hi (rbuf c) (rbuf c')" "out_rep c' ms" "ms \<noteq> []"
    "mem_ok e'" "hits (replicate (length ws) it) msgs ms" "\<forall>w \<in> set ws. length w \<le> KEY_MAX_LENGTH"
    "take (i + length ws) (ilist c') = take i (ilist c) @ replicate (length ws) (Some it)"
  shows "get_result it c lo hi msgs ws i (GetDone e' c' (i + length ws))"
  using assms by (auto simp: get_result_def)

lemma get_outer_words:
  assumes "out_rep c msgs" "msgs \<noteq> []" "mem_ok e" "items_ok c" "i \<le> isize c" "sized it" "wbuf_ok c"
    and "tokens_for (rbuf c) lo hi toks ws rest" and "hi < length (rbuf c)" and "rbuf c ! hi = NUL"
  shows "\<exists>r. get_outer (Some it) e c toks i = Ok r \<and> get_result it c lo hi msgs (ws @ words rest) i r"
  using assms
proof (induction "length rest" arbitrary: e c i msgs toks ws rest rule: less_induct)
  case less
  obtain news tm where t: "toks = news @ [tm]" "map tlength news = map length ws" "[] \<notin> set ws" "tlength tm = 0"
    "(tvalue tm = None) = (rest = [])"
    "\<forall>q. tvalue tm = Some q \<longrightarrow> lo \<le> q \<and> q < hi \<and> cstr (drop q (rbuf c)) = rest"
    using less.prems(8) unfolding tokens_for_def by (elim exE conjE) (rule that)
  have len: "length news = length ws" using arg_cong [OF t(2), of length] by simp
  have lens: "tlength ` set news = length ` set ws" using arg_cong [OF t(2), of set] by simp
  then have pos: "\<forall>x \<in> set news. 0 < tlength x" using t(3) by (force simp: set_eq_iff image_iff)
  show ?case
  proof (cases "\<exists>w \<in> set ws. KEY_MAX_LENGTH < length w")
    case True
    then have "\<exists>x \<in> set news. KEY_MAX_LENGTH < tlength x" using lens by (force simp: set_eq_iff image_iff)
    then obtain e' c' where r: "get_inner (Some it) e c toks i = Ok (GetReturn e' c')" "mem_ok e'"
      "says c' (''CLIENT_ERROR bad command line format'' @ CRLF)" "same_cmd c c'" "items_ok c'" "rbuf c' = rbuf c"
      using get_inner_long [OF less.prems(1-7) _ pos, of "[tm]"] t(1) by blast
    have "get_outer (Some it) e c toks i = Ok (GetReturn e' c')"
      using r(1) by (subst get_outer.simps) (simp add: get_round_def)
    moreover have "get_result it c lo hi msgs (ws @ words rest) i (GetReturn e' c')"
      using r(2-6) True by (auto simp: get_result_def)
    ultimately show ?thesis by blast
  next
    case False
    then have short: "\<forall>w \<in> set ws. length w \<le> KEY_MAX_LENGTH" by auto
    then have ok: "\<forall>x \<in> set news. 0 < tlength x \<and> tlength x \<le> KEY_MAX_LENGTH" using pos lens by (force simp: set_eq_iff image_iff)
    obtain e1 c1 m1 where 1: "get_inner (Some it) e c toks i = Ok (GetToken tm e1 c1 (i + length ws))"
      "out_rep c1 m1" "m1 \<noteq> []" "mem_ok e1" "hits (replicate (length ws) it) msgs m1"
      "get_state c c1 (i + length ws)" "rbuf c1 = rbuf c"
      "take (i + length ws) (ilist c1) = take i (ilist c) @ replicate (length ws) (Some it)"
      using get_inner_hits [OF less.prems(1-6) ok, of "[tm]"] t(1,4) len by (auto simp del: length_concat)
    show ?thesis
    proof (cases "tvalue tm")
      case None
      then have "get_outer (Some it) e c toks i = Ok (GetDone e1 c1 (i + length ws))"
        using 1(1) by (subst get_outer.simps) (simp add: get_round_def)
      moreover have "get_result it c lo hi msgs ws i (GetDone e1 c1 (i + length ws))"
        using 1 short by (intro get_result_done) simp_all
      ultimately show ?thesis using None t(5) by (simp add: words_def)
    next
      case (Some q)
      then have q: "lo \<le> q" "q < hi" "cstr (drop q (rbuf c1)) = rest" "rest \<noteq> []" using t(5,6) 1(7) by auto
      obtain ws' rest' where sp: "split_words (MAX_TOKENS - 1) rest = (ws', rest')" by fastforce
      have words: "words rest = ws' @ words rest'"
        using split_go_words [of _ "[]"] sp by (simp add: split_words_def words_def)
      have shorter: "length rest' < length rest"
        using split_go_rest_shorter [of _ "[]"] sp q(4) by (cases "rest' = []") (auto simp: split_words_def)
      obtain toks' b where tk: "tokenize_command (rbuf c1) q MAX_TOKENS = Ok (toks', b)"
        "tokens_for b lo hi toks' ws' rest'" "same_outside lo hi (rbuf c1) b"
        "(tvalue (hd toks') = None) = (ws' = [] \<and> rest' = [])"
        using tokenize_command_tokens [of lo q hi "rbuf c1" ws' rest'] q sp less.prems(9,10) 1(7) by auto
      define c2 where "c2 = c1\<lparr>rbuf := b\<rparr>"
      have 2: "out_rep c2 m1" "rbuf c2 = b" "get_state c c2 (i + length ws)" "ilist c2 = ilist c1"
        using 1(2,6) by (simp_all add: c2_def out_rep_def get_state_def items_ok_def)
      have round: "get_round (Some it) e c toks i =
          (if tvalue (hd toks') \<noteq> None then Ok (GetMore toks' e1 c2 (i + length ws))
           else Ok (GetDone e1 c2 (i + length ws)))"
        using 1(1) Some tk(1) by (simp add: get_round_def c2_def Let_def)
      show ?thesis
      proof (cases "tvalue (hd toks') = None")
        case True
        then have "get_outer (Some it) e c toks i = Ok (GetDone e1 c2 (i + length ws))"
          using round by (subst get_outer.simps) simp
        moreover have "get_result it c lo hi msgs ws i (GetDone e1 c2 (i + length ws))"
          using 1 2 short tk(3) by (intro get_result_done) simp_all
        moreover have "words rest = []" using words True tk(4) by (simp add: words_def)
        ultimately show ?thesis by simp
      next
        case False
        have "wbuf_ok c2" using 2(3) less.prems(7) same_cmd_fields(6) [of c c2]
          by (simp add: get_state_def wbuf_ok_def)
        moreover have "hi < length (rbuf c2)" "rbuf c2 ! hi = NUL"
          using less.prems(9,10) tk(3) 2(2) 1(7) same_outside_nth [OF tk(3)] by (simp_all add: same_outside_def)
        ultimately obtain r where r: "get_outer (Some it) e1 c2 toks' (i + length ws) = Ok r"
          "get_result it c2 lo hi m1 (ws' @ words rest') (i + length ws) r"
          using less.hyps [OF shorter 2(1) 1(3,4) _ _ less.prems(6), of "i + length ws" toks' ws'] 2(2,3) tk(2)
          by (auto simp: get_state_def)
        have "get_outer (Some it) e c toks i = Ok r"
          using round False r(1) by (subst get_outer.simps) simp
        moreover have "get_result it c lo hi msgs (ws @ words rest) i r"
          unfolding words using r(2) 2(2-4) 1(5,7,8) tk(3) short 
          by - (rule get_result_shift [where d = c2 and ms = m1 and j = "i + length ws"], simp_all)
        ultimately show ?thesis by blast
      qed
    qed
  qed
qed

section \<open>The get command\<close>

lemma get_blob_rep:
  assumes "s_alloc cfg \<longrightarrow> c_thread c \<noteq> None"
  obtains e' st b d where "get_blob cfg e c = Ok (e', c\<lparr>c_state := st, mem_blob := b, mem_free_delay := d\<rparr>)"
    and "st = c_state c \<or> st = conn_mwrite" and "mem_ok e \<Longrightarrow> mem_ok e'" and "wire e' = wire e"
    and "sock_in e' = sock_in e"
proof (cases "s_alloc cfg \<and> mem_blob c = None")
  case False
  then have "get_blob cfg e c = Ok (e, c\<lparr>c_state := c_state c, mem_blob := mem_blob c,
      mem_free_delay := mem_free_delay c\<rparr>)"
    by (auto simp: get_blob_def)
  then show ?thesis by (rule that) simp_all
next
  case True
  then obtain th where th: "c_thread c = Some th" using assms by auto
  define e1 where "e1 = e\<lparr>draws := Suc (draws e), allocs := Suc (allocs e)\<rparr>"
  define e2 where "e2 = e1\<lparr>draws := Suc (draws e1)\<rparr>"
  define size where "size = trunc (alloc_mean cfg + gauss e (draws e) (alloc_stddev cfg))"
  define b where "b = (if alloc_ok e (allocs e) then Some (if size \<le> 0 then 10 else size) else None)"
  define r where "r = rtt_mean cfg + gauss e (Suc (draws e)) (rtt_stddev cfg)"
  have env: "mem_ok e \<Longrightarrow> mem_ok e1" "mem_ok e1 \<Longrightarrow> mem_ok e2" "wire e1 = wire e" "wire e2 = wire e"
    "sock_in e1 = sock_in e" "sock_in e2 = sock_in e"
    by (simp_all add: e1_def e2_def mem_ok_def)
  have blob: "get_blob cfg e c = (if rtt_delay cfg
      then Ok (e2, if r \<ge> rtt_cutoff cfg then c\<lparr>c_state := conn_mwrite, mem_blob := b, mem_free_delay := trunc (r / 100)\<rparr>
                   else c\<lparr>c_state := c_state c, mem_blob := b, mem_free_delay := 0\<rparr>)
      else Ok (e1, c\<lparr>c_state := c_state c, mem_blob := b, mem_free_delay := 0\<rparr>))"
    using True th by (simp add: get_blob_def gsl_ran_gaussian_def alloc_def Let_def e1_def e2_def b_def size_def r_def)
  consider (delay) "rtt_delay cfg" "r \<ge> rtt_cutoff cfg" | (short) "rtt_delay cfg" "\<not> r \<ge> rtt_cutoff cfg"
    | (none) "\<not> rtt_delay cfg" by blast
  then show ?thesis
  proof cases
    case delay
    show ?thesis by (rule that [where e' = e2 and st = conn_mwrite and b = b and d = "trunc (r / 100)"]) (use blob delay env in simp_all)
  next
    case short
    show ?thesis by (rule that [where e' = e2 and st = "c_state c" and b = b and d = 0]) (use blob short env in simp_all)
  next
    case none
    show ?thesis by (rule that [where e' = e1 and st = "c_state c" and b = b and d = 0]) (use blob none env in simp_all)
  qed
qed

text \<open>The pending output of a complete answer for \<open>n\<close> keys.\<close>

definition answers :: "item list \<Rightarrow> iovec list list \<Rightarrow> iovec list list \<Rightarrow> bool" where
  "answers its msgs ms \<longleftrightarrow>
     out_data ms = out_data msgs @ concat (map item_response its) @ ''END'' @ CRLF \<and>
     out_len ms = out_len msgs + sum_list (map item_len its) + 5 \<and>
     (out_safe msgs \<longrightarrow> list_all item_complete its \<longrightarrow> out_safe ms)"

lemma answers_end: "hits its msgs m \<Longrightarrow> added m (''END'' @ CRLF) 5 ms \<Longrightarrow> answers its msgs ms"
  by (auto simp: hits_def added_def answers_def)

text \<open>The closing \<open>END\<close> of both response builders.\<close>

lemma end_rep:
  assumes "out_rep c m" "m \<noteq> []" "mem_ok e" "hits its msgs m"
  obtains e' c' ms where "conn_add_iov e c (''END'' @ CRLF) 5 = Ok (True, e', c')" "same_out c c'" "out_rep c' ms"
    "ms \<noteq> []" "mem_ok e'" "answers its msgs ms"
proof -
  obtain ok e' c' ms where r: "conn_add_iov e c (''END'' @ CRLF) 5 = Ok (ok, e', c')" "same_out c c'"
    "out_rep c' ms" "ms \<noteq> []" "ok" "mem_ok e'" "added m (''END'' @ CRLF) (nat 5) ms"
    using conn_add_iov_rep [OF assms(1,2), of 5 e "''END'' @ CRLF"] assms(3) by auto
  then show ?thesis using that answers_end [OF assms(4)] by simp
qed

definition get_reply :: "item \<Rightarrow> nat \<Rightarrow> conn \<Rightarrow> iovec list list \<Rightarrow> conn \<Rightarrow> bool" where
  "get_reply it n c msgs c' \<longleftrightarrow>
     c_state c' = conn_mwrite \<and> msgcurr c' = msgcurr c \<and> ileft c' = n \<and> icurr c' = 0 \<and>
     take n (ilist c') = replicate n (Some it) \<and> wbuf c' = wbuf c \<and>
     (\<exists>ms. out_rep c' ms \<and> ms \<noteq> [] \<and> answers (replicate n it) msgs ms)"

lemma process_get_command_rep:
  assumes rep: "out_rep c msgs" "msgs \<noteq> []" and mem: "mem_ok e" and its: "items_ok c" "sized it"
    and wb: "wbuf_ok c" and th: "s_alloc cfg \<longrightarrow> c_thread c \<noteq> None"
    and tk: "tokens_for (rbuf c) lo hi tokens (w # ws) rest" "hi < length (rbuf c)" "rbuf c ! hi = NUL"
  shows "\<exists>e' c'. process_get_command (Some it) cfg e c tokens = Ok (e', c') \<and> mem_ok e' \<and> same_cmd c c' \<and>
    items_ok c' \<and> same_outside lo hi (rbuf c) (rbuf c') \<and>
    (if \<exists>k \<in> set (ws @ words rest). KEY_MAX_LENGTH < length k
     then says c' (''CLIENT_ERROR bad command line format'' @ CRLF)
     else get_reply it (length (ws @ words rest)) c msgs c')"
proof -
  obtain e1 st b d where g: "get_blob cfg e c = Ok (e1, c\<lparr>c_state := st, mem_blob := b, mem_free_delay := d\<rparr>)"
    "mem_ok e1"
    using get_blob_rep [OF th, of e] mem by metis
  define c1 where "c1 = c\<lparr>c_state := st, mem_blob := b, mem_free_delay := d\<rparr>"
  have c1: "out_rep c1 msgs" "items_ok c1" "wbuf_ok c1" "rbuf c1 = rbuf c" "same_cmd c c1" "msgcurr c1 = msgcurr c"
    "wbuf c1 = wbuf c"
    using rep(1) its(1) wb by (simp_all add: c1_def out_rep_def items_ok_def wbuf_ok_def)
  have tk1: "tokens_for (rbuf c1) lo hi (drop KEY_TOKEN tokens) ws rest"
    using tk(1) c1(4) unfolding tokens_for_def KEY_TOKEN_def
    by (elim exE conjE) (rename_tac news tm, case_tac news, auto)
  obtain r where r: "get_outer (Some it) e1 c1 (drop KEY_TOKEN tokens) 0 = Ok r"
    "get_result it c1 lo hi msgs (ws @ words rest) 0 r"
    using get_outer_words [OF c1(1) rep(2) g(2) c1(2) _ its(2) c1(3) tk1] c1(4) tk(2,3) by auto
  show ?thesis
  proof (cases r)
    case (GetReturn e' c')
    then have "process_get_command (Some it) cfg e c tokens = Ok (e', c')"
      using g(1) r(1) by (simp add: process_get_command_def c1_def)
    then show ?thesis using r(2) GetReturn c1(4) same_cmd_trans [OF c1(5)] by (auto simp: get_result_def)
  next
    case (GetDone e2 c2 n)
    then obtain m where d: "\<forall>k \<in> set (ws @ words rest). length k \<le> KEY_MAX_LENGTH" "n = length (ws @ words rest)"
      "mem_ok e2" "out_rep c2 m" "m \<noteq> []" "hits (replicate n it) msgs m" "get_state c1 c2 n"
      "same_outside lo hi (rbuf c1) (rbuf c2)" "take n (ilist c2) = replicate n (Some it)"
      using r(2) by (auto simp: get_result_def)
    define c3 where "c3 = c2\<lparr>icurr := 0, ileft := n\<rparr>"
    have "out_rep c3 m" using d(4) by (simp add: c3_def out_rep_def)
    then obtain e' c4 ms where a: "conn_add_iov e2 c3 (''END'' @ CRLF) 5 = Ok (True, e', c4)" "same_out c3 c4"
      "out_rep c4 ms" "ms \<noteq> []" "mem_ok e'" "answers (replicate n it) msgs ms"
      using end_rep [OF _ d(5,3,6)] by blast
    define c' where "c' = c4\<lparr>c_state := conn_mwrite\<rparr>"
    have "process_get_command (Some it) cfg e c tokens = Ok (e', c')"
      using g(1) r(1) GetDone a(1) by (simp add: process_get_command_def c1_def [symmetric] c3_def c'_def)
    moreover have "same_cmd c c'"
      using c1(5) d(7) same_out_cmd [OF a(2)] unfolding c'_def c3_def
      by (simp add: get_state_def same_cmd_def but_cmd_def but_resp_def but_out_def)
    moreover have "items_ok c'" "rbuf c' = rbuf c2" "msgcurr c' = msgcurr c" "ileft c' = n" "icurr c' = 0"
      "ilist c' = ilist c2" "wbuf c' = wbuf c"
      using d(7) same_out_fields [OF a(2)] c1(6,7) by (simp_all add: c'_def c3_def get_state_def items_ok_def)
    moreover have "out_rep c' ms" using a(3) by (simp add: c'_def out_rep_def)
    moreover have "c_state c' = conn_mwrite" by (simp add: c'_def)
    moreover have "\<not> (\<exists>k \<in> set (ws @ words rest). KEY_MAX_LENGTH < length k)"
      using d(1) by (meson not_le)
    ultimately show ?thesis using a(4-6) d(2,8,9) c1(4) by (auto simp: get_reply_def)
  qed (use r(2) in \<open>auto simp: get_result_def\<close>)
qed

text \<open>Tokenizing a whole command line.\<close>

lemma tokenize_line:
  assumes "NUL \<in> set (drop p b)" and "words (cstr (drop p b)) = w # ks"
  defines "hi \<equiv> p + length (cstr (drop p b))"
  obtains toks b' ws rest where "tokenize_command b p MAX_TOKENS = Ok (toks, b')"
    "tokens_for b' p hi toks (w # ws) rest" "ks = ws @ words rest" "same_outside p hi b b'"
    "hi < length b'" "b' ! hi = NUL" "map (token_text b') (butlast toks) = w # ws"
    "length toks = length ws + 2" "map tlength (butlast toks) = map length (w # ws)"
    "split_words (MAX_TOKENS - 1) (cstr (drop p b)) = (w # ws, rest)"
proof -
  obtain ws0 rest where sp: "split_words (MAX_TOKENS - 1) (cstr (drop p b)) = (ws0, rest)" by fastforce
  then have words: "words (cstr (drop p b)) = ws0 @ words rest"
    using split_go_words [of "MAX_TOKENS - 1" "[]"] by (simp add: split_words_def words_def)
  have "rest \<noteq> [] \<longrightarrow> ws0 \<noteq> []"
    using split_go_length [of "MAX_TOKENS - 1" "[]"] sp by (fastforce simp: split_words_def MAX_TOKENS_def)
  then obtain ws where ws: "ws0 = w # ws" "ks = ws @ words rest"
    using words assms(2) by (cases ws0; cases "rest = []") (auto simp: words_def)
  obtain post where b: "b = take p b @ cstr (drop p b) @ NUL # post" "p < length b"
    using mem_at_cstr [OF assms(1)] by blast
  have hi: "hi < length b" "b ! hi = NUL"
  proof -
    have "length b = p + length (cstr (drop p b)) + Suc (length post)"
      using arg_cong [OF b(1), of length] b(2) by simp
    then show "hi < length b" by (simp add: hi_def)
    have "b ! hi = (take p b @ cstr (drop p b) @ NUL # post) ! hi" using b(1) by simp
    also have "\<dots> = NUL" using b(2) by (simp add: hi_def nth_append)
    finally show "b ! hi = NUL" .
  qed
  have p: "p \<le> p" "p \<le> hi" by (simp_all add: hi_def)
  obtain toks b' where t: "tokenize_command b p MAX_TOKENS = Ok (toks, b')"
    "tokens_for b' p hi toks (w # ws) rest" "same_outside p hi b b'"
    using tokenize_command_tokens [OF p hi sp [unfolded ws(1)]] .
  have post: "tok_post b p hi [] (w # ws) rest (toks, b')"
    using tokenize_command_post [OF assms(1) _ sp [unfolded ws(1)]] t(1)
    by (auto simp: MAX_TOKENS_def hi_def)
  show ?thesis
    using that [OF t(1,2) ws(2) t(3)] hi same_outside_nth [OF t(3)] t(3) tok_postD [OF post] sp ws(1)
    by (simp add: same_outside_def)
qed

section \<open>Out of memory\<close>

definition no_mem :: "env \<Rightarrow> bool" where
  "no_mem e \<longleftrightarrow> (\<forall>k \<ge> allocs e. \<not> alloc_ok e k)"

lemma no_mem_alloc [simp]: "no_mem e \<Longrightarrow> no_mem (e\<lparr>allocs := Suc (allocs e)\<rparr>)" "no_mem e \<Longrightarrow> \<not> alloc_ok e (allocs e)"
  by (simp_all add: no_mem_def)

lemma conn_add_msghdr_no_mem:
  "conn_add_msghdr e c = Ok (ok, e', c') \<Longrightarrow> no_mem e \<Longrightarrow> no_mem e' \<and> iovsize c' = iovsize c"
  by (auto simp: conn_add_msghdr_def alloc_def split: if_splits)

lemma conn_add_iov_no_mem:
  assumes rep: "out_rep c msgs" "msgs \<noteq> []" and full: "iovused c = iovsize c" and nm: "no_mem e"
  shows "\<exists>e' c' ms. conn_add_iov e c buf len = Ok (False, e', c') \<and> out_rep c' ms \<and> ms \<noteq> [] \<and>
    iovused c' = iovsize c' \<and> no_mem e' \<and> same_out c c'"
proof -
  obtain ps p where msgs: "msgs = ps @ [p]" using rep(2) by (metis rev_exhaust)
  obtain ok1 e1 c1 ms m where o: "(if msg_iovlen (msglist c ! (msgused c - 1)) = IOV_MAX \<or>
         (msgused c = 1 \<and> msgbytes c \<ge> MAX_PAYLOAD_SIZE)
      then conn_add_msghdr e c else Ok (True, e, c)) = Ok (ok1, e1, c1)" "same_out c c1"
    "out_rep c1 (ms @ [m])" "concat (ms @ [m]) = concat msgs"
    using add_iov_open [of c ps p e] rep msgs by blast
  have 1: "no_mem e1" "iovsize c1 = iovsize c"
    using o(1) nm conn_add_msghdr_no_mem [of e c] by (auto split: if_splits)
  have "iovused c1 = iovused c"
    by (simp only: out_rep_used(2) [OF o(3)] out_rep_used(2) [OF rep(1)] o(4))
  then have full1: "iovused c1 = iovsize c1" using full 1(2) by simp
  have guard: "\<not> (msgused c = 0 \<or> length (msglist c) < msgused c)"
    using rep out_rep_used(1) [OF rep(1)] by (simp add: out_rep_def)
  have "conn_ensure_iov_space e1 c1 = (False, snd (alloc e1), c1)"
    using full1 1(1) by (simp add: conn_ensure_iov_space_def alloc_def)
  then have "add_iov_step e c buf len = Ok (False, buf, 0, snd (alloc e1), c1)"
    using guard o(1) by (simp add: add_iov_step_def Let_def del: One_nat_def alloc_pair)
  then have "conn_add_iov e c buf len = Ok (False, snd (alloc e1), c1)"
    by (subst conn_add_iov.simps) simp
  then show ?thesis using o(2,3) full1 1(1) by (intro exI conjI) (assumption | simp)+
qed

lemma tok_loop_no_space:
  "\<forall>j < k. buf ! (e + j) \<noteq> SP \<Longrightarrow> tok_loop mx k buf s e toks = (buf, s, e + k, toks)"
proof (induction k arbitrary: e)
  case (Suc k)
  have "\<forall>j < k. buf ! (Suc e + j) \<noteq> SP" using Suc.prems by (metis Suc_less_eq add_Suc_shift)
  moreover have "buf ! e \<noteq> SP" using Suc.prems by (metis add_0_right zero_less_Suc)
  ultimately show ?case using Suc.IH [of "Suc e"] by simp
qed simp

text \<open>Tokenizing a single word changes nothing.\<close>

lemma tokenize_word:
  assumes "NUL \<in> set (drop q b)" "cstr (drop q b) = w" "SP \<notin> set w" "w \<noteq> []" "1 < mx"
  shows "tokenize_command b q mx =
    Ok ([\<lparr>tvalue = Some q, tlength = length w\<rparr>, \<lparr>tvalue = None, tlength = 0\<rparr>], b)"
proof -
  obtain post where b: "b = take q b @ w @ NUL # post" "q < length b"
    using mem_at_cstr [OF assms(1)] assms(2) by blast
  have at: "b ! (q + j) = (w @ NUL # post) ! j" for j
  proof -
    have "b ! (q + j) = (take q b @ w @ NUL # post) ! (q + j)" using b(1) by simp
    then show ?thesis using b(2) by (simp add: nth_append)
  qed
  have "\<forall>j < length w. b ! (q + j) \<noteq> SP"
    using assms(3) by (auto simp: at nth_append dest: nth_mem)
  then have "tok_loop mx (length w) b q q [] = (b, q, q + length w, [])" by (rule tok_loop_no_space)
  moreover have "b ! (q + length w) = NUL" by (simp add: at)
  ultimately show ?thesis
    using assms by (simp add: tokenize_command_def tok_finish_def)
qed

text \<open>The state in which \<open>process_get_command\<close> makes no progress: the \<open>iov\<close> array is full.\<close>

definition get_stuck :: "env \<Rightarrow> conn \<Rightarrow> token_t list \<Rightarrow> nat \<Rightarrow> bool" where
  "get_stuck e c toks i \<longleftrightarrow>
     no_mem e \<and> (\<exists>msgs. out_rep c msgs \<and> msgs \<noteq> []) \<and> iovused c = iovsize c \<and> i < isize c \<and> toks \<noteq> [] \<and>
     (\<exists>q w. hd toks = \<lparr>tvalue = Some q, tlength = length w\<rparr> \<and> NUL \<in> set (drop q (rbuf c)) \<and>
        cstr (drop q (rbuf c)) = w \<and> SP \<notin> set w \<and> w \<noteq> [] \<and> length w \<le> KEY_MAX_LENGTH)"

lemma get_stuck_round:
  assumes "get_stuck e c toks i"
  shows "\<exists>toks' e' c'. get_round (Some it) e c toks i = Ok (GetMore toks' e' c' i) \<and> get_stuck e' c' toks' i"
proof -
  obtain msgs q w where s: "no_mem e" "out_rep c msgs" "msgs \<noteq> []" "iovused c = iovsize c" "i < isize c"
    "toks \<noteq> []" "hd toks = \<lparr>tvalue = Some q, tlength = length w\<rparr>" "NUL \<in> set (drop q (rbuf c))"
    "cstr (drop q (rbuf c)) = w" "SP \<notin> set w" "w \<noteq> []" "length w \<le> KEY_MAX_LENGTH"
    using assms unfolding get_stuck_def by (elim exE conjE) (rule that)
  obtain t ts where toks: "toks = t # ts" "t = \<lparr>tvalue = Some q, tlength = length w\<rparr>"
    using s(6,7) by (cases toks) auto
  obtain e' c' ms where a: "conn_add_iov e c ''VALUE '' 6 = Ok (False, e', c')" "out_rep c' ms" "ms \<noteq> []"
    "iovused c' = iovsize c'" "no_mem e'" "same_out c c'"
    using conn_add_iov_no_mem [OF s(2,3,4,1)] by blast
  note f = same_out_fields [OF a(6)]
  define toks' where "toks' = [t, \<lparr>tvalue = None, tlength = 0\<rparr>]"
  have "tokenize_command (rbuf c') q MAX_TOKENS = Ok (toks', rbuf c')"
    using tokenize_word [OF s(8-11), of MAX_TOKENS] f by (simp add: MAX_TOKENS_def toks'_def toks(2))
  moreover have "get_inner (Some it) e c toks i = Ok (GetToken t e' c' i)"
    using toks s(5,11,12) a(1) by (simp add: item_get_def add_item_def)
  ultimately have "get_round (Some it) e c toks i = Ok (GetMore toks' e' c' i)"
    by (simp add: get_round_def toks(2) toks'_def)
  moreover have "get_stuck e' c' toks' i"
    unfolding get_stuck_def using a(2-5) s(5,8-12) f
    by (intro conjI exI [of _ q] exI [of _ w] exI [of _ ms]) (simp_all add: toks'_def toks(2))
  ultimately show ?thesis by blast
qed

lemma get_stuck_never_returns:
  assumes "get_stuck e c toks i"
  shows "get_outer (Some it) e c toks i = None"
proof -
  have "fixed = Some it \<longrightarrow> \<not> get_stuck e c toks i" if "get_outer fixed e c toks i = Some r" for fixed e c toks i r
  proof (rule get_outer.raw_induct [where P = "\<lambda>fixed e c toks i r. fixed = Some it \<longrightarrow> \<not> get_stuck e c toks i",
        OF _ that], intro impI notI)
    fix f fixed e c toks i r
    assume IH: "\<And>fixed e c toks i r. f fixed e c toks i = Some r \<Longrightarrow>
        fixed = Some it \<longrightarrow> \<not> get_stuck e c toks i"
      and body: "(case get_round fixed e c toks i of
        None \<Rightarrow> None
      | Some (Inl x) \<Rightarrow> Err x
      | Some (Inr (GetMore toks' e' c' i')) \<Rightarrow> f fixed e' c' toks' i'
      | Some (Inr (GetReturn e' c')) \<Rightarrow> Ok (GetReturn e' c')
      | Some (Inr (GetDone e' c' i')) \<Rightarrow> Ok (GetDone e' c' i')
      | Some (Inr (GetToken t e' c' i')) \<Rightarrow> Ok (GetToken t e' c' i')) = Some r"
      and fixed: "fixed = Some it" and st: "get_stuck e c toks i"
    obtain toks' e' c' where "get_round fixed e c toks i = Ok (GetMore toks' e' c' i)" "get_stuck e' c' toks' i"
      using get_stuck_round [OF st, of it] fixed by blast
    then show False using IH [of fixed e' c' toks' i r] body fixed by simp
  qed
  then show ?thesis using assms by (cases "get_outer (Some it) e c toks i") auto
qed

section \<open>Properties\<close>

lemma process_get_line:
  assumes "out_rep c msgs" "msgs \<noteq> []" "mem_ok e" "items_ok c" "sized it" "wbuf_ok c"
    and "s_alloc cfg \<longrightarrow> c_thread c \<noteq> None"
    and "NUL \<in> set (drop p (rbuf c))" and "words (cstr (drop p (rbuf c))) = w # ks"
  shows "\<exists>toks b e' c'. tokenize_command (rbuf c) p MAX_TOKENS = Ok (toks, b) \<and>
    process_get_command (Some it) cfg e (c\<lparr>rbuf := b\<rparr>) toks = Ok (e', c') \<and> mem_ok e' \<and> same_cmd c c' \<and> items_ok c' \<and>
    same_outside p (p + length (cstr (drop p (rbuf c)))) (rbuf c) (rbuf c') \<and>
    (if \<exists>k \<in> set ks. KEY_MAX_LENGTH < length k
     then says c' (''CLIENT_ERROR bad command line format'' @ CRLF)
     else get_reply it (length ks) c msgs c')"
proof -
  let ?hi = "p + length (cstr (drop p (rbuf c)))"
  obtain toks b ws rest where t: "tokenize_command (rbuf c) p MAX_TOKENS = Ok (toks, b)"
    "tokens_for b p ?hi toks (w # ws) rest" "ks = ws @ words rest" "same_outside p ?hi (rbuf c) b"
    "?hi < length b" "b ! ?hi = NUL"
    using tokenize_line [OF assms(8,9)] by metis
  have c: "out_rep (c\<lparr>rbuf := b\<rparr>) msgs" "items_ok (c\<lparr>rbuf := b\<rparr>)" "wbuf_ok (c\<lparr>rbuf := b\<rparr>)"
    "rbuf (c\<lparr>rbuf := b\<rparr>) = b" "c_thread (c\<lparr>rbuf := b\<rparr>) = c_thread c"
    using assms by (simp_all add: out_rep_def items_ok_def wbuf_ok_def)
  obtain e' c' where r: "process_get_command (Some it) cfg e (c\<lparr>rbuf := b\<rparr>) toks = Ok (e', c')" "mem_ok e'"
    "same_cmd (c\<lparr>rbuf := b\<rparr>) c'" "items_ok c'" "same_outside p ?hi b (rbuf c')"
    "if \<exists>k \<in> set (ws @ words rest). KEY_MAX_LENGTH < length k
     then says c' (''CLIENT_ERROR bad command line format'' @ CRLF)
     else get_reply it (length (ws @ words rest)) (c\<lparr>rbuf := b\<rparr>) msgs c'"
    using process_get_command_rep [OF c(1) assms(2,3) c(2) assms(5) c(3), of cfg p ?hi toks w ws rest]
      assms(7) t(2,5,6) c(4,5) by auto
  have eq: "get_reply it n (c\<lparr>rbuf := b\<rparr>) msgs c' = get_reply it n c msgs c'" for n
    by (simp add: get_reply_def)
  have "same_cmd c c'" using r(3) by simp
  then show ?thesis
    using t(1) r(1,2,4) same_outside_trans [OF t(4) r(5)] r(6) [folded t(3), unfolded eq]
    by (intro exI [of _ toks] exI [of _ b] exI [of _ e'] exI [of _ c'] conjI)
qed

text \<open>A small connection with a command line in its read buffer, and default settings.\<close>

definition ready_conn :: "string \<Rightarrow> conn" where
  "ready_conn b = zero_conn\<lparr>c_sfd := 7, c_state := conn_parse_cmd, msglist := [zero_msghdr, zero_msghdr],
     msgsize := 2, msgused := 1, iov := replicate 4 zero_iovec, iovsize := 4, ilist := [None], isize := 1,
     wbuf := replicate 64 NUL, wsize := 64, rbuf := b, rsize := int (length b), rbytes := int (length b),
     ev_flags := EV_READ_PERSIST\<rparr>"

lemma ready_conn_ok:
  "out_rep (ready_conn b) [[]]" "items_ok (ready_conn b)" "wbuf_ok (ready_conn b)" "rbuf (ready_conn b) = b"
  "arrays_ok (ready_conn b)"
  by (simp_all add: ready_conn_def zero_conn_def out_rep_def items_ok_def wbuf_ok_def zero_msghdr_def msg_len_def
      arrays_ok_def)

definition plain_settings :: settings where
  "plain_settings = \<lparr>verbose = 0, threads = 1, tcpport = 11211, thread_affinity = False, users = 0,
     s_backends = \<lparr>hosts = Some [], bk_len = 0, bk_size = 1000\<rparr>, s_stats = new_stats,
     alloc_mean = 0, alloc_stddev = 0, s_alloc = False, rtt_mean = 0, rtt_stddev = 0, rtt_cutoff = 0,
     rtt_delay = False\<rparr>"

text \<open>
  C2. A get command is answered completely: for a line of any number of keys, also more than the
  token array holds, the pending output is the item's response once per key followed by
  \<open>END\<close>, the items are retained for the time of the transmission, and with a complete item every
  entry lies inside its object.
\<close>

theorem process_get_command_answers:
  assumes "out_rep c [[]]" and "mem_ok e" and "items_ok c" and "sized it" and "wbuf_ok c"
    and "s_alloc cfg \<longrightarrow> c_thread c \<noteq> None"
    and "NUL \<in> set (drop p (rbuf c))" and "words (cstr (drop p (rbuf c))) = w # ks"
    and "\<forall>k \<in> set ks. length k \<le> KEY_MAX_LENGTH"
  shows "\<exists>toks b e' c' ms. tokenize_command (rbuf c) p MAX_TOKENS = Ok (toks, b) \<and>
    process_get_command (Some it) cfg e (c\<lparr>rbuf := b\<rparr>) toks = Ok (e', c') \<and> c_state c' = conn_mwrite \<and>
    out_rep c' ms \<and> out_data ms = concat (replicate (length ks) (item_response it)) @ ''END'' @ CRLF \<and>
    msgcurr c' = msgcurr c \<and>
    icurr c' = 0 \<and> ileft c' = length ks \<and> take (length ks) (ilist c') = replicate (length ks) (Some it) \<and>
    (item_complete it \<longrightarrow> out_safe ms)"
proof -
  have short: "\<not> (\<exists>k \<in> set ks. KEY_MAX_LENGTH < length k)" using assms(9) by (meson not_le)
  obtain toks b e' c' where r: "tokenize_command (rbuf c) p MAX_TOKENS = Ok (toks, b)"
    "process_get_command (Some it) cfg e (c\<lparr>rbuf := b\<rparr>) toks = Ok (e', c')" "get_reply it (length ks) c [[]] c'"
    using process_get_line [OF assms(1) _ assms(2-8)] short by auto
  then obtain ms where "out_rep c' ms" "answers (replicate (length ks) it) [[]] ms" by (auto simp: get_reply_def)
  moreover have "out_data [[]] = []" "out_safe [[]]" by (simp_all add: out_data_def out_safe_def)
  ultimately show ?thesis using r
    by (intro exI [of _ toks] exI [of _ b] exI [of _ e'] exI [of _ c'] exI [of _ ms])
       (simp add: get_reply_def answers_def map_replicate_const list_all_iff)
qed

theorem process_get_command_answers_witness:
  "\<exists>toks b e' c' ms. tokenize_command (''get a b'' @ [NUL]) 0 MAX_TOKENS = Ok (toks, b) \<and>
     process_get_command (Some whole_item) plain_settings calm_env (ready_conn (''get a b'' @ [NUL])\<lparr>rbuf := b\<rparr>) toks =
       Ok (e', c') \<and> out_rep c' ms \<and>
     out_data ms = item_response whole_item @ item_response whole_item @ ''END'' @ CRLF \<and> out_safe ms"
proof -
  let ?b = "''get a b'' @ [NUL]"
  have "words (cstr (drop 0 ?b)) = ''get'' # [''a'', ''b'']" by (simp add: words_def)
  moreover note whole_item_complete(2)
  ultimately show ?thesis
    using process_get_command_answers [of "ready_conn ?b" calm_env whole_item plain_settings 0 "''get''" "[''a'', ''b'']"]
      ready_conn_ok [of ?b]
    by (auto simp: plain_settings_def KEY_MAX_LENGTH_def numeral_2_eq_2 whole_item_complete)
qed

text \<open>
  When any key of a get line is longer than \<open>KEY_MAX_LENGTH\<close>, at whatever position, the answer
  is the \<open>CLIENT_ERROR\<close> line alone: the hits that were already pending are dropped.
\<close>

lemma process_get_command_long_key:
  assumes "out_rep c [[]]" and "mem_ok e" and "items_ok c" and "sized it" and "wbuf_ok c"
    and "s_alloc cfg \<longrightarrow> c_thread c \<noteq> None"
    and "NUL \<in> set (drop p (rbuf c))" and "words (cstr (drop p (rbuf c))) = w # ks"
    and "\<exists>k \<in> set ks. KEY_MAX_LENGTH < length k"
  shows "\<exists>toks b e' c'. tokenize_command (rbuf c) p MAX_TOKENS = Ok (toks, b) \<and>
    process_get_command (Some it) cfg e (c\<lparr>rbuf := b\<rparr>) toks = Ok (e', c') \<and>
    says c' (''CLIENT_ERROR bad command line format'' @ CRLF)"
  using process_get_line [OF assms(1) _ assms(2-8)] assms(9) by auto

text \<open>
  C31. With the item that \<open>item_init_system\<close> makes, every get that names a key leaves output
  pending that reaches past the end of the item: the item's header promises 17 bytes and only 7
  were allocated.
\<close>

theorem process_get_command_overreads:
  assumes "item_init_system e0 = Ok (it, e1)"
    and "out_rep c [[]]" and "mem_ok e" and "items_ok c" and "wbuf_ok c"
    and "s_alloc cfg \<longrightarrow> c_thread c \<noteq> None"
    and "NUL \<in> set (drop p (rbuf c))" and "words (cstr (drop p (rbuf c))) = w # ks" and "ks \<noteq> []"
    and "\<forall>k \<in> set ks. length k \<le> KEY_MAX_LENGTH"
  shows "\<exists>toks b e' c' ms. tokenize_command (rbuf c) p MAX_TOKENS = Ok (toks, b) \<and>
    process_get_command (Some it) cfg e (c\<lparr>rbuf := b\<rparr>) toks = Ok (e', c') \<and> out_rep c' ms \<and> \<not> out_safe ms"
proof -
  have it: "it = \<lparr>nkey = 4, nsuffix = 5, nbytes = 7, data = take 7 fixed_value\<rparr>"
    using assms(1) by (auto simp: item_init_system_def alloc_def split: if_splits)
  then have len: "length (item_response it) = 12" "item_len it = 22" "sized it"
    by (simp_all add: item_response_def item_len_def ITEM_key_def ITEM_suffix_def fixed_value_def sized_def)
  have short: "\<not> (\<exists>k \<in> set ks. KEY_MAX_LENGTH < length k)" using assms(10) by (meson not_le)
  obtain toks b e' c' where r: "tokenize_command (rbuf c) p MAX_TOKENS = Ok (toks, b)"
    "process_get_command (Some it) cfg e (c\<lparr>rbuf := b\<rparr>) toks = Ok (e', c')" "get_reply it (length ks) c [[]] c'"
    using process_get_line [OF assms(2) _ assms(3,4) len(3) assms(5-8)] short by auto
  then obtain ms where ms: "out_rep c' ms" "answers (replicate (length ks) it) [[]] ms" by (auto simp: get_reply_def)
  have "length (out_data ms) = length ks * 12 + 5" "out_len ms = length ks * 22 + 5"
    using ms(2) len(1,2) by (simp_all add: answers_def out_data_def out_len_def length_concat sum_list_replicate)
  then have "\<not> out_safe ms" using out_safe_len [of ms] assms(9) by auto
  then show ?thesis using r(1,2) ms(1) by blast
qed

theorem process_get_command_overreads_witness:
  "\<exists>it toks b e' c' ms. item_init_system calm_env = Ok (it, snd (alloc calm_env)) \<and>
     tokenize_command (''get a'' @ [NUL]) 0 MAX_TOKENS = Ok (toks, b) \<and>
     process_get_command (Some it) plain_settings calm_env (ready_conn (''get a'' @ [NUL])\<lparr>rbuf := b\<rparr>) toks =
       Ok (e', c') \<and> out_rep c' ms \<and> \<not> out_safe ms"
proof -
  let ?b = "''get a'' @ [NUL]"
  obtain it where it: "item_init_system calm_env = Ok (it, snd (alloc calm_env))"
    by (simp add: item_init_system_def alloc_def calm_env_def)
  have "words (cstr (drop 0 ?b)) = ''get'' # [''a'']" by (simp add: words_def)
  then show ?thesis
    using process_get_command_overreads [OF it, of "ready_conn ?b" calm_env plain_settings 0 "''get''" "[''a'']"]
      ready_conn_ok [of ?b] it
    by (auto simp: plain_settings_def KEY_MAX_LENGTH_def)
qed

text \<open>
  C32. The loop of \<open>process_get_command\<close> does not stop when memory runs out: the \<open>break\<close> leaves only
  the inner loop, the key at hand is tokenized again and fails again, so once the \<open>iov\<close> array is
  full and no allocation succeeds any more the call never returns, instead of sending the
  \<open>SERVER_ERROR\<close> line.
\<close>

theorem get_outer_oom_diverges:
  assumes "no_mem e" and "out_rep c msgs" and "msgs \<noteq> []" and "iovused c = iovsize c" and "i < isize c"
    and "NUL \<in> set (drop q (rbuf c))" and "SP \<notin> set (cstr (drop q (rbuf c)))"
    and "cstr (drop q (rbuf c)) \<noteq> []" and "length (cstr (drop q (rbuf c))) \<le> KEY_MAX_LENGTH"
  shows "get_outer (Some it) e c (\<lparr>tvalue = Some q, tlength = length (cstr (drop q (rbuf c)))\<rparr> # toks) i = None"
  using assms by (intro get_stuck_never_returns) (auto simp: get_stuck_def)

theorem get_outer_oom_diverges_witness:
  "\<exists>e c. get_outer (Some whole_item) e c [\<lparr>tvalue = Some 4, tlength = 1\<rparr>, \<lparr>tvalue = None, tlength = 0\<rparr>] 0 = None"
proof -
  let ?c = "ready_conn (''get'' @ [NUL] @ ''a'' @ [NUL])\<lparr>iov := [zero_iovec], iovsize := 1, iovused := 1,
    msglist := [\<lparr>msg_iov = 0, msg_iovlen = 1\<rparr>, zero_msghdr]\<rparr>"
  have "out_rep ?c [[zero_iovec]]" "i < isize ?c \<longleftrightarrow> i = 0" "iovused ?c = iovsize ?c" for i
    by (auto simp: out_rep_def ready_conn_def zero_conn_def msg_len_def zero_iovec_def)
  moreover have "no_mem (calm_env\<lparr>alloc_ok := \<lambda>_. False\<rparr>)" by (simp add: no_mem_def)
  moreover have "drop 4 (rbuf ?c) = ''a'' @ [NUL]" by (simp add: ready_conn_def)
  ultimately show ?thesis
    using get_outer_oom_diverges [of "calm_env\<lparr>alloc_ok := \<lambda>_. False\<rparr>" ?c "[[zero_iovec]]" 0 4 whole_item]
    by (auto simp: KEY_MAX_LENGTH_def)
qed

text \<open>
  C23. An update command with a short key and a decimal length starts swallowing the value: the
  number of bytes is the length and two more for the CRLF. For the two largest lengths the
  addition overflows, and the count becomes negative.
\<close>

theorem process_update_command_swallows:
  assumes "5 \<le> length toks" and "tlength (toks ! KEY_TOKEN) \<le> KEY_MAX_LENGTH" and "tvalue (toks ! 4) = Some q"
    and "cstr (drop q (rbuf c)) = ds" and "numeral_text [] [] ds" and "digits_val 0 ds \<le> INT_MAX"
    and "0 \<le> digits_val 0 ds"
  shows "\<exists>k. process_update_command e c toks = Ok (e, c\<lparr>sbytes := k, c_state := conn_read_value\<rparr>) \<and>
    (if digits_val 0 ds \<le> INT_MAX - 2 then k = digits_val 0 ds + 2 else k = digits_val 0 ds + 2 - 2 ^ 32 \<and> k < 0)"
proof -
  have "safe_strtol ds = (True, digits_val 0 ds)"
    using safe_strtol_numeral [OF assms(5), of "[]"] assms(6,7) by (simp add: ends_number_def numeral_val_def)
  then have "process_update_command e c toks =
      Ok (e, c\<lparr>sbytes := i32 (digits_val 0 ds + 2), c_state := conn_read_value\<rparr>)"
    using assms by (simp add: process_update_command_def token_text_def)
  moreover have "i32 (digits_val 0 ds + 2) = digits_val 0 ds + 2 - 2 ^ 32" if "\<not> digits_val 0 ds \<le> INT_MAX - 2"
  proof -
    have "digits_val 0 ds = 2147483646 \<or> digits_val 0 ds = 2147483647" using that assms(6) by linarith
    then show ?thesis by (auto simp: i32_def)
  qed
  moreover have "i32 (digits_val 0 ds + 2) = digits_val 0 ds + 2" if "digits_val 0 ds \<le> INT_MAX - 2"
    using that assms(7) by simp
  ultimately show ?thesis
    using assms(6) by (intro exI [of _ "i32 (digits_val 0 ds + 2)"] conjI) (assumption, simp)
qed

theorem process_update_command_swallows_witness:
  "\<exists>toks c k. token_text (rbuf c) (toks ! 4) = ''2147483646'' \<and>
     process_update_command calm_env c toks = Ok (calm_env, c\<lparr>sbytes := k, c_state := conn_read_value\<rparr>) \<and> k < 0"
proof -
  let ?c = "zero_conn\<lparr>rbuf := ''2147483646'' @ [NUL]\<rparr>"
  let ?t = "\<lparr>tvalue = Some 0, tlength = 10\<rparr>"
  have "\<exists>k. process_update_command calm_env ?c (replicate 5 ?t) =
      Ok (calm_env, ?c\<lparr>sbytes := k, c_state := conn_read_value\<rparr>) \<and>
      (if digits_val 0 ''2147483646'' \<le> INT_MAX - 2 then k = digits_val 0 ''2147483646'' + 2
       else k = digits_val 0 ''2147483646'' + 2 - 2 ^ 32 \<and> k < 0)"
    by (rule process_update_command_swallows [where q = 0])
       (simp_all add: numeral_text_def isdigit_def KEY_MAX_LENGTH_def KEY_TOKEN_def digit_val_def)
  then obtain k where "process_update_command calm_env ?c (replicate 5 ?t) =
      Ok (calm_env, ?c\<lparr>sbytes := k, c_state := conn_read_value\<rparr>)" "k < 0"
    by (auto simp: digit_val_def)
  moreover have "token_text (rbuf ?c) (replicate 5 ?t ! 4) = ''2147483646''" by (simp add: token_text_def)
  ultimately show ?thesis by blast
qed

text \<open>
  An update command whose key is too long, or whose length is no number or negative, is
  answered with the \<open>CLIENT_ERROR\<close> line, and no value is read.
\<close>

lemma process_update_command_rejects:
  assumes "arrays_ok c" and "wbuf_ok c" and "5 \<le> length toks" and "tvalue (toks ! 4) = Some q"
    and "tlength (toks ! KEY_TOKEN) > KEY_MAX_LENGTH \<or> \<not> fst (safe_strtol (cstr (drop q (rbuf c)))) \<or>
      snd (safe_strtol (cstr (drop q (rbuf c)))) < 0"
  shows "\<exists>c'. process_update_command e c toks = Ok (e, c') \<and>
    says c' (''CLIENT_ERROR bad command line format'' @ CRLF) \<and> sbytes c' = sbytes c \<and> rbuf c' = rbuf c"
proof -
  obtain c' where c': "error_response e c ''CLIENT_ERROR bad command line format'' = Ok (e, c')"
    "says c' (''CLIENT_ERROR bad command line format'' @ CRLF)" "same_resp c c'"
    using error_response_says [OF assms(1,2), of "''CLIENT_ERROR bad command line format''" e] by auto
  have "process_update_command e c toks = error_response e c ''CLIENT_ERROR bad command line format''"
    using assms(3-5) by (auto simp: process_update_command_def token_text_def split: prod.splits)
  then show ?thesis using c' same_resp_fields [OF c'(3)] by auto
qed

text \<open>
  When the backend requests of a get are done, \<open>finish_get_command\<close> answers with the retained
  items in order and \<open>END\<close>, and the connection is to be written.
\<close>

lemma finish_get_command_answers:
  assumes "out_rep c [[]]" and "mem_ok e" and "take (ileft c) (ilist c) = map Some its" and "ileft c = length its"
    and "\<forall>it \<in> set its. sized it"
  shows "\<exists>e' c' ms. finish_get_command e c = Ok (e', c') \<and> c_state c' = conn_mwrite \<and> out_rep c' ms \<and>
    out_data ms = concat (map item_response its) @ ''END'' @ CRLF \<and>
    (list_all item_complete its \<longrightarrow> out_safe ms)"
proof -
  have il: "take (ileft c) (drop 0 (ilist c)) = map Some its" using assms(3) by simp
  obtain e1 c1 m where f: "finish_items (ileft c) 0 e c = Ok (True, e1, c1)" "out_rep c1 m" "m \<noteq> []" "mem_ok e1"
    "hits its [[]] m"
    using finish_items_rep [OF assms(1) _ assms(2) il assms(4) [symmetric] assms(5)] by auto
  obtain e' c2 ms where g: "conn_add_iov e1 c1 (''END'' @ CRLF) 5 = Ok (True, e', c2)" "out_rep c2 ms"
    "answers its [[]] ms"
    using end_rep [OF f(2-5)] .
  have "finish_get_command e c = Ok (e', c2\<lparr>c_state := conn_mwrite\<rparr>)"
    using f(1) g(1) by (simp add: finish_get_command_def)
  moreover have "out_rep (c2\<lparr>c_state := conn_mwrite\<rparr>) ms" using g(2) by (simp add: out_rep_def)
  moreover have "out_data [[]] = []" "out_safe [[]]" by (simp_all add: out_data_def out_safe_def)
  ultimately show ?thesis using g(3) by (intro exI conjI) (assumption | simp add: answers_def)+
qed

end
