(* ===== verification/Protocol.thy ===== *)
theory Protocol
  imports Commands
begin

text \<open>
  \<open>parse_command\<close> of \<open>protocol.c\<close>: tokenizing a command line, dispatching on its first word and the
  number of tokens, and counting the request. \<open>recognised\<close> says on the words of the line which
  commands there are.
\<close>

text \<open>\<open>c->stats->requests++\<close>\<close>

definition count_request :: "settings \<Rightarrow> conn \<Rightarrow> settings res" where
  "count_request cfg c =
     (case c_stats c of
        None \<Rightarrow> Err NullDeref
      | Some a \<Rightarrow>
          (case st_heap (s_stats cfg) a of
             None \<Rightarrow> Err NullDeref
           | Some n \<Rightarrow>
               Ok (cfg\<lparr>s_stats := (s_stats cfg)\<lparr>st_heap := (st_heap (s_stats cfg))
                     (a \<mapsto> n\<lparr>requests := i32 (requests n + 1)\<rparr>)\<rparr>\<rparr>)))"

text \<open>A command that was dispatched, followed by the end of \<open>parse_command\<close>, which counts it.\<close>

definition counted :: "settings \<Rightarrow> (env \<times> conn) res \<Rightarrow> (bool \<times> settings \<times> env \<times> conn) res" where
  "counted cfg m = bindR m (\<lambda>(e, c). bindR (count_request cfg c) (\<lambda>cfg. Ok (True, cfg, e, c)))"

text \<open>
  Parse a single memcached request: the command at offset \<open>p\<close> of the read buffer. The result is
  \<open>False\<close> for a command that is not supported.
\<close>

definition parse_command ::
  "item option \<Rightarrow> settings \<Rightarrow> env \<Rightarrow> conn \<Rightarrow> nat \<Rightarrow> (bool \<times> settings \<times> env \<times> conn) res"
where
  "parse_command fixed cfg e c p =
     bindR (tokenize_command (rbuf c) p MAX_TOKENS) (\<lambda>(tokens, b).
     let c = c\<lparr>rbuf := b\<rparr>; ntokens = length tokens;
         cmd = token_text b (tokens ! COMMAND_TOKEN) in
     if ntokens \<ge> 3 \<and> (cmd = ''get'' \<or> cmd = ''bget'') then
       counted cfg (process_get_command fixed cfg e c tokens)
     else if ntokens \<ge> 3 \<and> cmd = ''gets'' then
       counted cfg (process_get_command fixed cfg e c tokens)
     else if (ntokens = 6 \<or> ntokens = 7) \<and>
        (cmd = ''add'' \<or> cmd = ''set'' \<or> cmd = ''replace'' \<or> cmd = ''prepend'' \<or> cmd = ''append'') then
       counted cfg (process_update_command e c tokens)
     else if (ntokens = 7 \<or> ntokens = 8) \<and> cmd = ''cas'' then
       counted cfg (process_update_command e c tokens)
     else if ntokens \<ge> 2 \<and> cmd = ''stats'' then
       counted cfg (process_stat_command cfg e c)
     else Ok (False, cfg, e, c))"

section \<open>The commands of the protocol\<close>

definition is_get :: "string list \<Rightarrow> bool" where
  "is_get ws \<longleftrightarrow> 2 \<le> length ws \<and> hd ws \<in> {''get'', ''bget'', ''gets''}"

definition is_update :: "string list \<Rightarrow> bool" where
  "is_update ws \<longleftrightarrow>
     (length ws \<in> {5, 6} \<and> hd ws \<in> {''add'', ''set'', ''replace'', ''prepend'', ''append''}) \<or>
     (6 \<le> length ws \<and> hd ws = ''cas'')"

definition is_stats :: "string list \<Rightarrow> bool" where
  "is_stats ws \<longleftrightarrow> ws \<noteq> [] \<and> hd ws = ''stats''"

definition recognised :: "string list \<Rightarrow> bool" where
  "recognised ws \<longleftrightarrow> is_get ws \<or> is_update ws \<or> is_stats ws"

text \<open>The words in the token array are the first seven of the line.\<close>

lemma split_words_take:
  assumes "split_words n s = (ws, rest)" "0 < n"
  shows "ws = take n (words s)"
proof -
  have "words s = ws @ words rest"
    using split_go_words [of n "[]"] assms(1) by (simp add: split_words_def words_def)
  moreover have "length ws \<le> n" "rest \<noteq> [] \<longrightarrow> length ws = n"
    using split_go_length [of n "[]"] assms by (auto simp: split_words_def)
  ultimately show ?thesis by (cases "rest = []") (simp_all add: words_def)
qed

text \<open>What the dispatch sees of a line.\<close>

lemma parse_command_tokens:
  assumes "NUL \<in> set (drop p b)" and "words (cstr (drop p b)) = w # ks"
  defines "hi \<equiv> p + length (cstr (drop p b))"
  obtains toks b' ws rest where "tokenize_command b p MAX_TOKENS = Ok (toks, b')"
    "tokens_for b' p hi toks (w # ws) rest" "ks = ws @ words rest" "same_outside p hi b b'"
    "hi < length b'" "b' ! hi = NUL" "token_text b' (toks ! COMMAND_TOKEN) = w"
    "length toks = min 7 (length (w # ks)) + 1"
    "\<forall>i < length (w # ws). token_text b' (toks ! i) = (w # ws) ! i \<and> tlength (toks ! i) = length ((w # ws) ! i) \<and>
       tvalue (toks ! i) \<noteq> None" "length toks = length ws + 2"
proof -
  obtain toks b' ws rest where t: "tokenize_command b p MAX_TOKENS = Ok (toks, b')"
    "tokens_for b' p hi toks (w # ws) rest" "ks = ws @ words rest" "same_outside p hi b b'"
    "hi < length b'" "b' ! hi = NUL" "map (token_text b') (butlast toks) = w # ws"
    "length toks = length ws + 2" "map tlength (butlast toks) = map length (w # ws)"
    "split_words (MAX_TOKENS - 1) (cstr (drop p b)) = (w # ws, rest)"
    using tokenize_line [OF assms(1,2)] unfolding hi_def .
  have "w # ws = take 7 (w # ks)"
    using split_words_take [OF t(10)] assms(2) by (simp add: MAX_TOKENS_def)
  then have "length toks = min 7 (length (w # ks)) + 1"
    using t(8) arg_cong [of "w # ws" "take 7 (w # ks)" length] by simp
  moreover have each: "token_text b' (toks ! i) = (w # ws) ! i \<and> tlength (toks ! i) = length ((w # ws) ! i) \<and>
      tvalue (toks ! i) \<noteq> None" if i: "i < length (w # ws)" for i
  proof -
    have bl: "i < length (butlast toks)" "butlast toks ! i = toks ! i" using i t(8) by (simp_all add: nth_butlast)
    have "token_text b' (toks ! i) = (w # ws) ! i"
      using arg_cong [OF t(7), of "\<lambda>l. l ! i"] bl by simp
    moreover have "tlength (toks ! i) = length ((w # ws) ! i)"
      using arg_cong [OF t(9), of "\<lambda>l. l ! i"] bl i by (simp del: list.map)
    moreover have "(w # ws) ! i \<noteq> []"
      using t(2) i by (metis nth_mem tokens_for_def)
    ultimately show ?thesis by (cases "tvalue (toks ! i)") (auto simp: token_text_def)
  qed
  moreover have "token_text b' (toks ! COMMAND_TOKEN) = w" using each [of 0] by (simp add: COMMAND_TOKEN_def)
  ultimately show ?thesis using t(1-6,8) by (intro that) blast+
qed

lemma tokenize_blank:
  assumes "NUL \<in> set (drop p b)" and "words (cstr (drop p b)) = []"
  obtains toks b' where "tokenize_command b p MAX_TOKENS = Ok (toks, b')" "length toks = 1"
    "same_outside p (p + length (cstr (drop p b))) b b'"
proof -
  obtain ws rest where sp: "split_words (MAX_TOKENS - 1) (cstr (drop p b)) = (ws, rest)" by fastforce
  then have "ws = []" using split_words_take [OF sp] assms(2) by (simp add: MAX_TOKENS_def)
  obtain toks b' where t: "tokenize_command b p MAX_TOKENS = Ok (toks, b')"
    "tok_post b p (p + length (cstr (drop p b))) [] ws rest (toks, b')"
    using tokenize_command_post [OF assms(1) _ sp] by (auto simp: MAX_TOKENS_def)
  have "length toks = 1" using tok_postD(10) [OF t(2)] \<open>ws = []\<close> by simp
  then show ?thesis
    using that [OF t(1)] tok_postD(1-3) [OF t(2)] by (simp only: same_outside_def simp_thms)
qed

section \<open>The outcome of a command\<close>

text \<open>\<open>bad_line\<close> is the error line of a malformed command.\<close>

abbreviation bad_line :: string where
  "bad_line \<equiv> ''CLIENT_ERROR bad command line format'' @ CRLF"

text \<open>What a supported command with the words \<open>ws\<close> makes of a connection with \<open>msgs\<close> pending.\<close>

definition cmd_post :: "item \<Rightarrow> string list \<Rightarrow> iovec list list \<Rightarrow> conn \<Rightarrow> conn \<Rightarrow> bool" where
  "cmd_post it ws msgs c c' \<longleftrightarrow>
     (if is_get ws then
        if \<exists>k \<in> set (tl ws). KEY_MAX_LENGTH < length k then says c' bad_line
        else get_reply it (length (tl ws)) c msgs c'
      else if is_update ws then
        if KEY_MAX_LENGTH < length (ws ! 1) \<or> \<not> fst (safe_strtol (ws ! 4)) \<or> snd (safe_strtol (ws ! 4)) < 0
        then says c' bad_line
        else c_state c' = conn_read_value \<and> sbytes c' = i32 (snd (safe_strtol (ws ! 4)) + 2) \<and>
             out_rep c' msgs \<and> msgcurr c' = msgcurr c \<and> wbuf c' = wbuf c
      else c_state c' = conn_new_cmd \<and> out_rep c' msgs \<and> msgcurr c' = msgcurr c \<and> wbuf c' = wbuf c)"

lemma cmd_post_wbuf: "cmd_post it ws msgs c c' \<Longrightarrow> same_cmd c c' \<Longrightarrow> wbuf_ok c \<Longrightarrow> wbuf_ok c'"
  using same_cmd_fields(6) [of c c']
  by (auto simp: cmd_post_def says_def get_reply_def wbuf_ok_def split: if_splits)

definition live_stats :: "settings \<Rightarrow> conn \<Rightarrow> bool" where
  "live_stats cfg c \<longleftrightarrow> (\<exists>a n. c_stats c = Some a \<and> st_heap (s_stats cfg) a = Some n)"

text \<open>The configuration after a request was counted.\<close>

definition counted_cfg :: "settings \<Rightarrow> conn \<Rightarrow> settings \<Rightarrow> bool" where
  "counted_cfg cfg c cfg' \<longleftrightarrow>
     (\<exists>a n. c_stats c = Some a \<and> st_heap (s_stats cfg) a = Some n \<and>
        cfg' = cfg\<lparr>s_stats := (s_stats cfg)\<lparr>st_heap := (st_heap (s_stats cfg))
                 (a \<mapsto> n\<lparr>requests := i32 (requests n + 1)\<rparr>)\<rparr>\<rparr>)"

lemma count_request_ok:
  assumes "live_stats cfg c" and "c_stats c' = c_stats c"
  obtains cfg' where "count_request cfg c' = Ok cfg'" "counted_cfg cfg c cfg'"
  using assms by (auto simp: live_stats_def counted_cfg_def count_request_def)

lemma process_update_command_cases:
  assumes "out_rep c msgs" "wbuf_ok c" "5 \<le> length toks" "tvalue (toks ! 4) \<noteq> None"
    "token_text (rbuf c) (toks ! 4) = v" "tlength (toks ! KEY_TOKEN) = k"
  shows "\<exists>c'. process_update_command e c toks = Ok (e, c') \<and> same_cmd c c' \<and> rbuf c' = rbuf c \<and> ilist c' = ilist c \<and>
    isize c' = isize c \<and>
    (if KEY_MAX_LENGTH < k \<or> \<not> fst (safe_strtol v) \<or> snd (safe_strtol v) < 0 then says c' bad_line
     else c_state c' = conn_read_value \<and> sbytes c' = i32 (snd (safe_strtol v) + 2) \<and> out_rep c' msgs \<and>
       msgcurr c' = msgcurr c \<and> wbuf c' = wbuf c)"
proof (cases "KEY_MAX_LENGTH < k \<or> \<not> fst (safe_strtol v) \<or> snd (safe_strtol v) < 0")
  case True
  obtain c' where c': "error_response e c ''CLIENT_ERROR bad command line format'' = Ok (e, c')"
    "says c' bad_line" "same_resp c c'"
    using error_response_says [OF out_rep_arrays [OF assms(1)] assms(2), of "''CLIENT_ERROR bad command line format''" e]
    by auto
  have "process_update_command e c toks = error_response e c ''CLIENT_ERROR bad command line format''"
    using assms True by (auto simp: process_update_command_def split: prod.splits)
  then show ?thesis using c' same_resp_fields [OF c'(3)] same_resp_cmd [OF c'(3)] True
    by (intro exI [of _ c']) simp
next
  case False
  define c' where "c' = c\<lparr>sbytes := i32 (snd (safe_strtol v) + 2), c_state := conn_read_value\<rparr>"
  have "process_update_command e c toks = Ok (e, c')"
    using assms False by (auto simp: process_update_command_def c'_def split: prod.splits)
  moreover have "out_rep c' msgs" using assms(1) by (simp add: c'_def out_rep_def)
  ultimately show ?thesis using False by (intro exI [of _ c']) (simp add: c'_def)
qed

text \<open>Which branch \<open>parse_command\<close> takes, from the words of the line.\<close>

lemma parse_command_branch:
  assumes "tokenize_command (rbuf c) p MAX_TOKENS = Ok (toks, b)" "token_text b (toks ! COMMAND_TOKEN) = w"
    "length toks = min 7 (length (w # ks)) + 1"
  shows "parse_command fixed cfg e c p =
    (if is_get (w # ks) then counted cfg (process_get_command fixed cfg e (c\<lparr>rbuf := b\<rparr>) toks)
     else if is_update (w # ks) then counted cfg (process_update_command e (c\<lparr>rbuf := b\<rparr>) toks)
     else if is_stats (w # ks) then counted cfg (process_stat_command cfg e (c\<lparr>rbuf := b\<rparr>))
     else Ok (False, cfg, e, c\<lparr>rbuf := b\<rparr>))"
proof -
  have g: "(3 \<le> length toks) = (2 \<le> length (w # ks))" "2 \<le> length toks"
    "(length toks = 6 \<or> length toks = 7) = (length (w # ks) \<in> {5, 6})"
    "(length toks = 7 \<or> length toks = 8) = (6 \<le> length (w # ks))"
    using assms(3) by (auto simp: min_def)
  show ?thesis
    unfolding parse_command_def assms(1) bindR_simps prod.case Let_def assms(2) g
    by (auto simp: is_get_def is_update_def is_stats_def g(2))
qed

lemma counted_ok:
  assumes "m = Ok (e', c')" and "live_stats cfg c" and "same_cmd c c'"
  obtains cfg' where "counted cfg m = Ok (True, cfg', e', c')" "counted_cfg cfg c cfg'"
proof -
  obtain cfg' where "count_request cfg c' = Ok cfg'" "counted_cfg cfg c cfg'"
    using count_request_ok [OF assms(2) same_cmd_fields(7) [OF assms(3)]] .
  with assms(1) show ?thesis by (intro that) (simp_all add: counted_def)
qed

text \<open>A supported command runs to its end, and counts.\<close>

definition runs :: "item \<Rightarrow> settings \<Rightarrow> env \<Rightarrow> conn \<Rightarrow> nat \<Rightarrow> iovec list list \<Rightarrow> string list \<Rightarrow> bool" where
  "runs it cfg e c p msgs ws \<longleftrightarrow>
     (\<exists>cfg' e' c'. parse_command (Some it) cfg e c p = Ok (True, cfg', e', c') \<and> mem_ok e' \<and> same_cmd c c' \<and>
        items_ok c' \<and> same_outside p (p + length (cstr (drop p (rbuf c)))) (rbuf c) (rbuf c') \<and>
        counted_cfg cfg c cfg' \<and> cmd_post it ws msgs c c')"

lemma get_runs:
  assumes "out_rep c msgs" "msgs \<noteq> []" "mem_ok e" "items_ok c" "sized it" "wbuf_ok c"
    and "s_alloc cfg \<longrightarrow> c_thread c \<noteq> None" and live: "live_stats cfg c"
    and "NUL \<in> set (drop p (rbuf c))" and "words (cstr (drop p (rbuf c))) = w # ks" and get: "is_get (w # ks)"
    and t: "tokenize_command (rbuf c) p MAX_TOKENS = Ok (toks, b)" "token_text b (toks ! COMMAND_TOKEN) = w"
      "length toks = min 7 (length (w # ks)) + 1"
  shows "runs it cfg e c p msgs (w # ks)"
proof -
  obtain e' c' where r: "process_get_command (Some it) cfg e (c\<lparr>rbuf := b\<rparr>) toks = Ok (e', c')" "mem_ok e'"
    "same_cmd c c'" "items_ok c'" "same_outside p (p + length (cstr (drop p (rbuf c)))) (rbuf c) (rbuf c')"
    "if \<exists>k \<in> set ks. KEY_MAX_LENGTH < length k then says c' bad_line else get_reply it (length ks) c msgs c'"
    using process_get_line [OF assms(1-7,9,10)] t(1) by auto
  obtain cfg' where "counted cfg (process_get_command (Some it) cfg e (c\<lparr>rbuf := b\<rparr>) toks) = Ok (True, cfg', e', c')"
    "counted_cfg cfg c cfg'"
    using counted_ok [OF r(1) live r(3)] .
  moreover have "cmd_post it (w # ks) msgs c c'"
    using r(6) get by (simp only: cmd_post_def if_True list.sel)
  ultimately show ?thesis unfolding runs_def using parse_command_branch [OF t, of "Some it" cfg e] get r(2-5)
    by (intro exI [of _ cfg'] exI [of _ e'] exI [of _ c']) simp
qed

lemma update_runs:
  assumes rep: "out_rep c msgs" and mem: "mem_ok e" and its: "items_ok c" and wb: "wbuf_ok c" and live: "live_stats cfg c"
    and upd: "\<not> is_get (w # ks)" "is_update (w # ks)"
    and t: "tokenize_command (rbuf c) p MAX_TOKENS = Ok (toks, b)" "token_text b (toks ! COMMAND_TOKEN) = w"
      "length toks = min 7 (length (w # ks)) + 1" "ks = ws @ ks'" "length toks = length ws + 2"
      "same_outside p (p + length (cstr (drop p (rbuf c)))) (rbuf c) b"
      "\<forall>i < length (w # ws). token_text b (toks ! i) = (w # ws) ! i \<and> tlength (toks ! i) = length ((w # ws) ! i) \<and>
       tvalue (toks ! i) \<noteq> None"
  shows "runs it cfg e c p msgs (w # ks)"
proof -
  let ?c = "c\<lparr>rbuf := b\<rparr>" and ?v = "(w # ws) ! 4" and ?k = "(w # ws) ! 1"
  have c: "out_rep ?c msgs" "wbuf_ok ?c" "rbuf ?c = b"
    using rep wb by (simp_all add: out_rep_def wbuf_ok_def)
  have fc: "msgcurr ?c = msgcurr c" "wbuf ?c = wbuf c" by simp_all
  have "5 \<le> length (w # ks)" using upd(2) by (auto simp: is_update_def)
  then have i: "4 < length (w # ws)" "1 < length (w # ws)" "5 \<le> length toks" using t(3,5) by auto
  have at: "(w # ks) ! 4 = ?v" "(w # ks) ! 1 = ?k" using i(1) t(4) by (auto simp: nth_append)
  have tok: "tvalue (toks ! 4) \<noteq> None" "token_text (rbuf ?c) (toks ! 4) = ?v" "tlength (toks ! KEY_TOKEN) = length ?k"
    using t(7) i(1,2) unfolding c(3) KEY_TOKEN_def by blast+
  obtain c' where r: "process_update_command e ?c toks = Ok (e, c')" "same_cmd ?c c'" "rbuf c' = rbuf ?c"
    "ilist c' = ilist ?c" "isize c' = isize ?c"
    "if KEY_MAX_LENGTH < length ?k \<or> \<not> fst (safe_strtol ?v) \<or> snd (safe_strtol ?v) < 0 then says c' bad_line
     else c_state c' = conn_read_value \<and> sbytes c' = i32 (snd (safe_strtol ?v) + 2) \<and> out_rep c' msgs \<and>
       msgcurr c' = msgcurr ?c \<and> wbuf c' = wbuf ?c"
    using process_update_command_cases [OF c(1,2) i(3) tok, of e] by (elim exE conjE) (rule that)
  have sc: "same_cmd c c'" "items_ok c'" using r(2,4,5) its by (simp_all add: items_ok_def)
  obtain cfg' where "counted cfg (process_update_command e ?c toks) = Ok (True, cfg', e, c')" "counted_cfg cfg c cfg'"
    using counted_ok [OF r(1) live sc(1)] .
  moreover have "cmd_post it (w # ks) msgs c c'"
    using r(6) [unfolded fc] upd by (simp only: cmd_post_def at if_True if_False)
  ultimately show ?thesis
    unfolding runs_def using parse_command_branch [OF t(1-3), of "Some it" cfg e] upd mem sc r(3) t(6)
    by (intro exI [of _ cfg'] exI [of _ e] exI [of _ c']) simp
qed

lemma stats_runs:
  assumes rep: "out_rep c msgs" and mem: "mem_ok e" and its: "items_ok c" and live: "live_stats cfg c"
    and st: "\<not> is_get (w # ks)" "\<not> is_update (w # ks)" "is_stats (w # ks)"
    and t: "tokenize_command (rbuf c) p MAX_TOKENS = Ok (toks, b)" "token_text b (toks ! COMMAND_TOKEN) = w"
      "length toks = min 7 (length (w # ks)) + 1"
      "same_outside p (p + length (cstr (drop p (rbuf c)))) (rbuf c) b"
  shows "runs it cfg e c p msgs (w # ks)"
proof -
  let ?c = "c\<lparr>rbuf := b\<rparr>" and ?d = "c\<lparr>rbuf := b, c_state := conn_new_cmd\<rparr>"
  have p: "process_stat_command cfg e ?c = Ok (e, ?d)"
    using live by (auto simp: process_stat_command_def live_stats_def)
  have sc: "same_cmd c ?d" by simp
  obtain cfg' where "counted cfg (process_stat_command cfg e ?c) = Ok (True, cfg', e, ?d)" "counted_cfg cfg c cfg'"
    using counted_ok [OF p live sc] .
  moreover have "cmd_post it (w # ks) msgs c ?d"
    using st rep by (simp add: cmd_post_def out_rep_def)
  ultimately show ?thesis
    unfolding runs_def using parse_command_branch [OF t(1-3), of "Some it" cfg e] st mem sc t(4) its
    by (intro exI [of _ cfg'] exI [of _ e] exI [of _ ?d]) (simp add: items_ok_def)
qed

lemma parse_command_runs:
  assumes "out_rep c msgs" "msgs \<noteq> []" "mem_ok e" "items_ok c" "sized it" "wbuf_ok c"
    and "s_alloc cfg \<longrightarrow> c_thread c \<noteq> None" and "live_stats cfg c"
    and "NUL \<in> set (drop p (rbuf c))" and "recognised (words (cstr (drop p (rbuf c))))"
  shows "runs it cfg e c p msgs (words (cstr (drop p (rbuf c))))"
proof -
  obtain w ks where ws: "words (cstr (drop p (rbuf c))) = w # ks"
    using assms(10) by (cases "words (cstr (drop p (rbuf c)))") (auto simp: recognised_def is_get_def is_update_def is_stats_def)
  obtain toks b wl rest where t: "tokenize_command (rbuf c) p MAX_TOKENS = Ok (toks, b)"
    "tokens_for b p (p + length (cstr (drop p (rbuf c)))) toks (w # wl) rest" "ks = wl @ words rest"
    "same_outside p (p + length (cstr (drop p (rbuf c)))) (rbuf c) b"
    "p + length (cstr (drop p (rbuf c))) < length b" "b ! (p + length (cstr (drop p (rbuf c)))) = NUL"
    "token_text b (toks ! COMMAND_TOKEN) = w" "length toks = min 7 (length (w # ks)) + 1"
    "\<forall>i < length (w # wl). token_text b (toks ! i) = (w # wl) ! i \<and> tlength (toks ! i) = length ((w # wl) ! i) \<and>
       tvalue (toks ! i) \<noteq> None" "length toks = length wl + 2"
    using parse_command_tokens [OF assms(9) ws] .
  consider (get) "is_get (w # ks)" | (upd) "\<not> is_get (w # ks)" "is_update (w # ks)"
    | (st) "\<not> is_get (w # ks)" "\<not> is_update (w # ks)" "is_stats (w # ks)"
    using assms(10) ws by (auto simp: recognised_def)
  then show ?thesis
  proof cases
    case get
    show ?thesis unfolding ws by (rule get_runs [OF assms(1-9) ws get t(1,7,8)])
  next
    case upd
    show ?thesis unfolding ws by (rule update_runs [OF assms(1,3,4,6,8) upd t(1,7,8,3,10,4,9)])
  next
    case st
    show ?thesis unfolding ws by (rule stats_runs [OF assms(1,3,4,8) st t(1,7,8,4)])
  qed
qed

lemma parse_command_unknown:
  assumes "NUL \<in> set (drop p (rbuf c))" and "\<not> recognised (words (cstr (drop p (rbuf c))))"
  obtains b where "parse_command fixed cfg e c p = Ok (False, cfg, e, c\<lparr>rbuf := b\<rparr>)"
    "same_outside p (p + length (cstr (drop p (rbuf c)))) (rbuf c) b"
proof (cases "words (cstr (drop p (rbuf c)))")
  case Nil
  obtain toks b where t: "tokenize_command (rbuf c) p MAX_TOKENS = Ok (toks, b)" "length toks = 1"
    "same_outside p (p + length (cstr (drop p (rbuf c)))) (rbuf c) b"
    using tokenize_blank [OF assms(1) Nil] .
  then have "parse_command fixed cfg e c p = Ok (False, cfg, e, c\<lparr>rbuf := b\<rparr>)"
    by (simp add: parse_command_def)
  then show ?thesis using that t(3) by blast
next
  case (Cons w ks)
  obtain toks b where t: "tokenize_command (rbuf c) p MAX_TOKENS = Ok (toks, b)"
    "same_outside p (p + length (cstr (drop p (rbuf c)))) (rbuf c) b"
    "token_text b (toks ! COMMAND_TOKEN) = w" "length toks = min 7 (length (w # ks)) + 1"
    using parse_command_tokens [OF assms(1) Cons] by metis
  then have "parse_command fixed cfg e c p = Ok (False, cfg, e, c\<lparr>rbuf := b\<rparr>)"
    using parse_command_branch [OF t(1,3,4), of fixed cfg e] assms(2) Cons by (simp add: recognised_def)
  then show ?thesis using that t(2) by blast
qed

section \<open>Properties\<close>

text \<open>
  C11. \<open>parse_command\<close> returns for every command line, and accepts exactly the supported commands:
  get, bget and gets with a key, the five storage commands with four or five arguments, cas with
  at least five, and stats. A supported command adds one to the client's request counter and
  changes nothing else in the statistics; an unsupported one changes neither the statistics nor
  anything of the connection but the spaces in the line. The connection's bookkeeping of unread
  input is kept, and no byte of the read buffer outside the line changes.
\<close>

theorem parse_command_dispatch:
  assumes "out_rep c [[]]" and "mem_ok e" and "items_ok c" and "sized it" and "wbuf_ok c"
    and "s_alloc cfg \<longrightarrow> c_thread c \<noteq> None"
    and "c_stats c = Some a" and "st_heap (s_stats cfg) a = Some n"
    and "NUL \<in> set (drop p (rbuf c))" and "ws = words (cstr (drop p (rbuf c)))"
  shows "\<exists>cfg' e' c'. parse_command (Some it) cfg e c p = Ok (recognised ws, cfg', e', c') \<and>
    rcurr c' = rcurr c \<and> rbytes c' = rbytes c \<and>
    same_outside p (p + length (cstr (drop p (rbuf c)))) (rbuf c) (rbuf c') \<and>
    (if recognised ws
     then cfg' = cfg\<lparr>s_stats := (s_stats cfg)\<lparr>st_heap := (st_heap (s_stats cfg))
            (a \<mapsto> n\<lparr>requests := i32 (requests n + 1)\<rparr>)\<rparr>\<rparr> \<and> cmd_post it ws [[]] c c'
     else cfg' = cfg \<and> e' = e \<and> c' = c\<lparr>rbuf := rbuf c'\<rparr>)"
proof (cases "recognised ws")
  case True
  have live: "live_stats cfg c" using assms(7,8) by (simp add: live_stats_def)
  obtain cfg' e' c' where r: "parse_command (Some it) cfg e c p = Ok (True, cfg', e', c')" "same_cmd c c'"
    "same_outside p (p + length (cstr (drop p (rbuf c)))) (rbuf c) (rbuf c')" "counted_cfg cfg c cfg'"
    "cmd_post it ws [[]] c c'"
    using parse_command_runs [OF assms(1) _ assms(2-6) live assms(9)] True assms(10)
    unfolding runs_def by blast
  then show ?thesis using True same_cmd_fields [OF r(2)] assms(7,8)
    by (intro exI [of _ cfg'] exI [of _ e'] exI [of _ c']) (simp add: counted_cfg_def)
next
  case False
  obtain b where "parse_command (Some it) cfg e c p = Ok (False, cfg, e, c\<lparr>rbuf := b\<rparr>)"
    "same_outside p (p + length (cstr (drop p (rbuf c)))) (rbuf c) b"
    using parse_command_unknown [OF assms(9)] False assms(10) by blast
  then show ?thesis using False by (intro exI [of _ cfg] exI [of _ e] exI [of _ "c\<lparr>rbuf := b\<rparr>"]) simp
qed

definition one_client :: client_stats where
  "one_client = \<lparr>cs_refcnt = 2, cs_next = None, cs_client_id = 5, total_connections = 1, live_connections = 1,
     requests = 0\<rparr>"

definition one_client_settings :: settings where
  "one_client_settings = plain_settings\<lparr>s_stats := new_stats\<lparr>st_heap := [1 \<mapsto> one_client],
     st_map := (\<lambda>_. None)(5 := Some 1), st_fresh := 2\<rparr>\<rparr>"

theorem parse_command_dispatch_witness:
  "\<exists>cfg' e' c' n. parse_command (Some whole_item) one_client_settings calm_env
       (ready_conn (''gets k'' @ [NUL])\<lparr>c_stats := Some 1\<rparr>) 0 = Ok (True, cfg', e', c') \<and>
     st_heap (s_stats cfg') 1 = Some n \<and> requests n = 1 \<and> c_state c' = conn_mwrite"
proof -
  let ?b = "''gets k'' @ [NUL]"
  let ?c = "ready_conn ?b\<lparr>c_stats := Some 1\<rparr>"
  have c: "out_rep ?c [[]]" "items_ok ?c" "wbuf_ok ?c" "rbuf ?c = ?b" "sized whole_item"
    using ready_conn_ok [of ?b] by (simp_all add: out_rep_def items_ok_def wbuf_ok_def whole_item_complete)
  have w: "[''gets'', ''k''] = words (cstr (drop 0 (rbuf ?c)))" unfolding c(4) by (simp add: words_def)
  have rec: "recognised [''gets'', ''k'']" "is_get [''gets'', ''k'']" "\<not> (\<exists>k \<in> set [''k'']. KEY_MAX_LENGTH < length k)"
    by (simp_all add: recognised_def is_get_def KEY_MAX_LENGTH_def)
  have cfg: "\<not> s_alloc one_client_settings" "st_heap (s_stats one_client_settings) 1 = Some one_client" "requests one_client = 0"
    by (simp_all add: one_client_settings_def plain_settings_def one_client_def)
  have "s_alloc one_client_settings \<longrightarrow> c_thread ?c \<noteq> None" "c_stats ?c = Some 1" "NUL \<in> set (drop 0 (rbuf ?c))"
    using cfg(1) c(4) by simp_all
  from parse_command_dispatch [OF c(1) mem_ok_calm c(2,5,3) this(1,2) cfg(2) this(3) w] rec(1)
  obtain cfg' e' c' where r: "parse_command (Some whole_item) one_client_settings calm_env ?c 0 = Ok (True, cfg', e', c')"
    "cfg' = one_client_settings\<lparr>s_stats := (s_stats one_client_settings)\<lparr>st_heap := (st_heap (s_stats one_client_settings))
       (1 \<mapsto> one_client\<lparr>requests := i32 (requests one_client + 1)\<rparr>)\<rparr>\<rparr>"
    "cmd_post whole_item [''gets'', ''k''] [[]] ?c c'"
    by (simp only: if_True) blast
  have "c_state c' = conn_mwrite"
    using r(3) rec(2,3) by (simp only: cmd_post_def get_reply_def list.sel if_True if_False)
  then show ?thesis using r(1,2) cfg(3)
    by (intro exI [of _ cfg'] exI [of _ e'] exI [of _ c'] exI [of _ "one_client\<lparr>requests := 1\<rparr>"]) simp
qed

end
