(* ===== verification/Conn_Queue.thy ===== *)
theory Conn_Queue
  imports Fsm Env Stats
begin

text \<open>
  The connection queue of \<open>threads.c\<close>: a singly linked list with head and tail pointers, by which
  the dispatcher hands new connections to a worker. The items live in a heap of their own. The
  queue's mutex makes each operation one step, as \<open>Locking\<close> shows.

  The locale \<open>fifo\<close> is what the threads rely on; its interpretation shows that the linked list
  keeps it.
\<close>

text \<open>An item in the connection queue.\<close>

record new_conn_t =
  nc_client_id :: int
  nc_sfd :: int
  nc_init_state :: conn_states
  nc_event_flags :: int
  nc_next :: "addr option"
  nc_read_buffer_size :: int

record conn_queue_t =
  cq_head :: "addr option"
  cq_tail :: "addr option"

type_synonym qheap = "addr \<Rightarrow> new_conn_t option"

text \<open>Initializes a connection queue.\<close>

definition conn_queue_new :: "env \<Rightarrow> (conn_queue_t \<times> env) res" where
  "conn_queue_new e =
     (case alloc e of (ok, e) \<Rightarrow>
        if \<not> ok then Err (Exit 1) else Ok (\<lparr>cq_head = None, cq_tail = None\<rparr>, e))"

text \<open>Adds an item to a connection queue.\<close>

definition conn_queue_push :: "qheap \<times> conn_queue_t \<Rightarrow> addr \<Rightarrow> (qheap \<times> conn_queue_t) res" where
  "conn_queue_push s a =
     (case s of (h, cq) \<Rightarrow>
        case h a of
          None \<Rightarrow> Err NullDeref
        | Some n \<Rightarrow>
            let h = h(a \<mapsto> n\<lparr>nc_next := None\<rparr>) in
            (case cq_tail cq of
               None \<Rightarrow> Ok (h, \<lparr>cq_head = Some a, cq_tail = Some a\<rparr>)
             | Some t \<Rightarrow>
                 (case h t of
                    None \<Rightarrow> Err NullDeref
                  | Some m \<Rightarrow> Ok (h(t \<mapsto> m\<lparr>nc_next := Some a\<rparr>), cq\<lparr>cq_tail := Some a\<rparr>))))"

text \<open>Looks for an item on a connection queue; \<open>None\<close> when there is none.\<close>

definition conn_queue_pop :: "qheap \<times> conn_queue_t \<Rightarrow> (addr option \<times> (qheap \<times> conn_queue_t)) res" where
  "conn_queue_pop s =
     (case s of (h, cq) \<Rightarrow>
        case cq_head cq of
          None \<Rightarrow> Ok (None, (h, cq))
        | Some a \<Rightarrow>
            (case h a of
               None \<Rightarrow> Err NullDeref
             | Some n \<Rightarrow>
                 Ok (Some a, (h, \<lparr>cq_head = nc_next n,
                                  cq_tail = (if nc_next n = None then None else cq_tail cq)\<rparr>))))"

section \<open>First in, first out\<close>

text \<open>Runs of pushes and of pops.\<close>

fun push_all :: "('s \<Rightarrow> 'a \<Rightarrow> 's res) \<Rightarrow> 's \<Rightarrow> 'a list \<Rightarrow> 's res" where
  "push_all push s [] = Ok s"
| "push_all push s (x # xs) = bindR (push s x) (\<lambda>s. push_all push s xs)"

fun pop_n :: "('s \<Rightarrow> ('a option \<times> 's) res) \<Rightarrow> nat \<Rightarrow> 's \<Rightarrow> ('a option list \<times> 's) res" where
  "pop_n pop 0 s = Ok ([], s)"
| "pop_n pop (Suc n) s = bindR (pop s) (\<lambda>(x, s). bindR (pop_n pop n s) (\<lambda>(xs, s). Ok (x # xs, s)))"

locale fifo =
  fixes rep :: "'s \<Rightarrow> 'a list \<Rightarrow> bool"
    and pushable :: "'s \<Rightarrow> 'a \<Rightarrow> bool"
    and push :: "'s \<Rightarrow> 'a \<Rightarrow> 's res"
    and pop :: "'s \<Rightarrow> ('a option \<times> 's) res"
  assumes push_rep: "rep s xs \<Longrightarrow> x \<notin> set xs \<Longrightarrow> pushable s x \<Longrightarrow> \<exists>s'. push s x = Ok s' \<and> rep s' (xs @ [x])"
    and push_keeps: "push s x = Ok s' \<Longrightarrow> pushable s y \<Longrightarrow> pushable s' y"
    and pop_empty: "rep s [] \<Longrightarrow> pop s = Ok (None, s)"
    and pop_first: "rep s (x # xs) \<Longrightarrow> \<exists>s'. pop s = Ok (Some x, s') \<and> rep s' xs"
begin

lemma push_all_rep:
  assumes "rep s xs" and "distinct (xs @ ys)" and "\<forall>y \<in> set ys. pushable s y"
  shows "\<exists>s'. push_all push s ys = Ok s' \<and> rep s' (xs @ ys)"
  using assms
proof (induction ys arbitrary: s xs)
  case (Cons y ys)
  obtain s1 where s1: "push s y = Ok s1" "rep s1 (xs @ [y])"
    using push_rep [OF Cons.prems(1), of y] Cons.prems(2,3) by auto
  have "distinct ((xs @ [y]) @ ys)" "\<forall>z \<in> set ys. pushable s1 z"
    using Cons.prems(2,3) push_keeps [OF s1(1)] by auto
  from Cons.IH [OF s1(2) this] s1(1) show ?case by auto
qed simp

lemma pop_n_rep:
  assumes "rep s (xs @ ys)"
  shows "\<exists>s'. pop_n pop (length xs) s = Ok (map Some xs, s') \<and> rep s' ys"
  using assms
proof (induction xs arbitrary: s)
  case (Cons x xs)
  then obtain s1 where s1: "pop s = Ok (Some x, s1)" "rep s1 (xs @ ys)"
    using pop_first [of s x "xs @ ys"] by auto
  from Cons.IH [OF s1(2)] s1(1) show ?case by auto
qed simp

text \<open>Everything that is pushed comes out again, once and in order, and then the queue is empty.\<close>

lemma push_pop_order:
  assumes "rep s []" and "distinct ys" and "\<forall>y \<in> set ys. pushable s y"
  shows "\<exists>s' s''. push_all push s ys = Ok s' \<and> pop_n pop (length ys) s' = Ok (map Some ys, s'') \<and> pop s'' = Ok (None, s'')"
proof -
  obtain s' where s': "push_all push s ys = Ok s'" "rep s' ys"
    using push_all_rep [OF assms(1), of ys] assms(2,3) by auto
  obtain s'' where s'': "pop_n pop (length ys) s' = Ok (map Some ys, s'')" "rep s'' []"
    using pop_n_rep [of s' ys "[]"] s'(2) by auto
  then show ?thesis using s'(1) pop_empty by blast
qed

end

section \<open>The linked list\<close>

fun q_chain :: "qheap \<Rightarrow> addr option \<Rightarrow> addr list \<Rightarrow> bool" where
  "q_chain h p [] \<longleftrightarrow> p = None"
| "q_chain h p (a # as) \<longleftrightarrow> p = Some a \<and> (\<exists>n. h a = Some n \<and> q_chain h (nc_next n) as)"

definition q_rep :: "qheap \<times> conn_queue_t \<Rightarrow> addr list \<Rightarrow> bool" where
  "q_rep s as \<longleftrightarrow>
     distinct as \<and> q_chain (fst s) (cq_head (snd s)) as \<and>
     cq_tail (snd s) = (if as = [] then None else Some (last as))"

definition q_live :: "qheap \<times> conn_queue_t \<Rightarrow> addr \<Rightarrow> bool" where
  "q_live s a \<longleftrightarrow> fst s a \<noteq> None"

lemma q_chain_upd: "a \<notin> set as \<Longrightarrow> q_chain (h(a := x)) p as = q_chain h p as"
  by (induction as arbitrary: p) auto

lemma q_chain_append:
  assumes "q_chain h p as" "as \<noteq> []" "distinct as" "a \<notin> set as" "h a = Some n" "nc_next n = None"
    and "h (last as) = Some m"
  shows "q_chain (h(last as \<mapsto> m\<lparr>nc_next := Some a\<rparr>)) p (as @ [a])"
  using assms
proof (induction as arbitrary: p)
  case (Cons b bs)
  show ?case
  proof (cases "bs = []")
    case True
    then show ?thesis using Cons.prems by auto
  next
    case False
    then have ne: "b \<noteq> last bs" using Cons.prems(3) last_in_set [OF False] by auto
    obtain k where k: "h b = Some k" "q_chain h (nc_next k) bs" using Cons.prems by auto
    define h' where "h' = h(last bs \<mapsto> m\<lparr>nc_next := Some a\<rparr>)"
    have "q_chain h' (nc_next k) (bs @ [a])"
      unfolding h'_def by (rule Cons.IH [OF k(2) False]) (use Cons.prems False in simp_all)
    moreover have "h' b = Some k" using k(1) ne by (simp add: h'_def)
    ultimately have "q_chain h' p ((b # bs) @ [a])" using Cons.prems(1) by simp
    then show ?thesis using False by (simp only: h'_def last_ConsR if_False not_False_eq_True)
  qed
qed simp

lemma q_chain_live: "q_chain h p as \<Longrightarrow> a \<in> set as \<Longrightarrow> h a \<noteq> None"
  by (induction as arbitrary: p) auto

lemma conn_queue_push_rep:
  assumes "q_rep s as" "a \<notin> set as" "q_live s a"
  shows "\<exists>s'. conn_queue_push s a = Ok s' \<and> q_rep s' (as @ [a])"
proof -
  obtain h cq where s: "s = (h, cq)" by fastforce
  obtain n where n: "h a = Some n" using assms(3) s by (auto simp: q_live_def)
  define h1 where "h1 = h(a \<mapsto> n\<lparr>nc_next := None\<rparr>)"
  have ch: "q_chain h1 (cq_head cq) as" using assms s by (simp add: q_rep_def h1_def q_chain_upd)
  show ?thesis
  proof (cases "as = []")
    case True
    then show ?thesis using assms(1) s n
      by (auto simp: conn_queue_push_def q_rep_def Let_def)
  next
    case False
    then obtain m where m: "h1 (last as) = Some m" using q_chain_live [OF ch, of "last as"] by auto
    have d: "distinct as" "h1 a = Some (n\<lparr>nc_next := None\<rparr>)" "nc_next (n\<lparr>nc_next := None\<rparr>) = None"
      using assms(1) by (simp_all add: q_rep_def h1_def)
    have "q_chain (h1(last as \<mapsto> m\<lparr>nc_next := Some a\<rparr>)) (cq_head cq) (as @ [a])"
      using q_chain_append [OF ch False d(1) assms(2) d(2,3) m] .
    then show ?thesis using assms(1,2) s n m False
      by (auto simp: conn_queue_push_def q_rep_def Let_def h1_def)
  qed
qed

text \<open>The contents of an item without its link: what the two sides of the queue hand over.\<close>

definition payload :: "qheap \<Rightarrow> addr \<Rightarrow> new_conn_t option" where
  "payload h a = map_option (\<lambda>n. n\<lparr>nc_next := None\<rparr>) (h a)"

lemma payload_link: "h a = Some n \<Longrightarrow> payload (h(a \<mapsto> n\<lparr>nc_next := x\<rparr>)) = payload h"
  by (simp add: payload_def fun_eq_iff)

text \<open>A push changes links only: those of the pushed item and of the last item on the queue.\<close>

lemma conn_queue_push_payload:
  assumes "conn_queue_push (h, cq) a = Ok (h', cq')" "q_rep (h, cq) as"
  shows "payload h' = payload h \<and> (\<forall>b. b \<noteq> a \<longrightarrow> b \<notin> set as \<longrightarrow> h' b = h b)"
proof -
  obtain n where n: "h a = Some n" using assms(1) by (auto simp: conn_queue_push_def split: option.splits)
  define h1 where "h1 = h(a \<mapsto> n\<lparr>nc_next := None\<rparr>)"
  have 1: "payload h1 = payload h" using payload_link [of h a n] n by (simp add: h1_def)
  show ?thesis
  proof (cases "cq_tail cq")
    case None
    then have "h' = h1" using assms(1) n by (simp add: conn_queue_push_def h1_def)
    then show ?thesis using 1 by (simp add: h1_def)
  next
    case (Some t)
    then have t: "t \<in> set as" using assms(2) by (auto simp: q_rep_def split: if_splits)
    obtain m where m: "h1 t = Some m" "h' = h1(t \<mapsto> m\<lparr>nc_next := Some a\<rparr>)"
      using assms(1) n Some by (auto simp: conn_queue_push_def h1_def [symmetric] split: option.splits)
    then have "payload h' = payload h1" using payload_link [of h1 t m] by simp
    then show ?thesis using 1 t m(2) by (auto simp: h1_def)
  qed
qed

lemma conn_queue_pop_heap: "conn_queue_pop (h, cq) = Ok (p, h', cq') \<Longrightarrow> h' = h"
  by (auto simp: conn_queue_pop_def split: option.splits)

lemma conn_queue_push_live: "conn_queue_push s a = Ok s' \<Longrightarrow> q_live s b \<Longrightarrow> q_live s' b"
  by (auto simp: conn_queue_push_def q_live_def Let_def split: prod.splits option.splits)

lemma conn_queue_pop_first:
  assumes "q_rep s (a # as)"
  shows "\<exists>s'. conn_queue_pop s = Ok (Some a, s') \<and> q_rep s' as"
  using assms by (cases s; cases as) (auto simp: q_rep_def conn_queue_pop_def)

interpretation conn_queue: fifo q_rep q_live conn_queue_push conn_queue_pop
proof unfold_locales
  show "\<exists>s'. conn_queue_push s x = Ok s' \<and> q_rep s' (xs @ [x])" if "q_rep s xs" "x \<notin> set xs" "q_live s x" for s xs x
    using conn_queue_push_rep [OF that] .
  show "q_live s' y" if "conn_queue_push s x = Ok s'" "q_live s y" for s x s' y
    using conn_queue_push_live [OF that] .
  show "conn_queue_pop s = Ok (None, s)" if "q_rep s []" for s
    using that by (cases s) (simp add: q_rep_def conn_queue_pop_def)
  show "\<exists>s'. conn_queue_pop s = Ok (Some x, s') \<and> q_rep s' xs" if "q_rep s (x # xs)" for s x xs
    using conn_queue_pop_first [OF that] .
qed

section \<open>Properties\<close>

text \<open>
  C20. The linked list is a queue: pushing onto a queue that holds the items \<open>as\<close> makes it hold
  \<open>as @ [a]\<close>, popping returns the oldest item and keeps the others, and pushing any
  number of distinct items on an empty queue and popping as often returns all of them in order. Of the
  items a push changes nothing but the links, and those only of the pushed item and of the items on this queue, and a
  pop changes no item.
\<close>

theorem conn_queue_fifo:
  assumes "q_rep (h, cq) as" and "a \<notin> set as" and "q_live (h, cq) a" and "distinct bs" and "\<forall>b \<in> set bs. q_live s0 b"
    and "q_rep s0 []"
  shows "(\<exists>h' cq'. conn_queue_push (h, cq) a = Ok (h', cq') \<and> q_rep (h', cq') (as @ [a]) \<and>
       payload h' = payload h \<and> (\<forall>b. b \<noteq> a \<longrightarrow> b \<notin> set as \<longrightarrow> h' b = h b)) \<and>
    (\<forall>b cs. as = b # cs \<longrightarrow> (\<exists>cq'. conn_queue_pop (h, cq) = Ok (Some b, h, cq') \<and> q_rep (h, cq') cs)) \<and>
    (\<exists>s1 s2. push_all conn_queue_push s0 bs = Ok s1 \<and> pop_n conn_queue_pop (length bs) s1 = Ok (map Some bs, s2) \<and>
       conn_queue_pop s2 = Ok (None, s2))"
proof (intro conjI allI impI)
  obtain h' cq' where p: "conn_queue_push (h, cq) a = Ok (h', cq')" "q_rep (h', cq') (as @ [a])"
    using conn_queue_push_rep [OF assms(1-3)] by auto
  then show "\<exists>h' cq'. conn_queue_push (h, cq) a = Ok (h', cq') \<and> q_rep (h', cq') (as @ [a]) \<and>
       payload h' = payload h \<and> (\<forall>b. b \<noteq> a \<longrightarrow> b \<notin> set as \<longrightarrow> h' b = h b)"
    using conn_queue_push_payload [OF p(1) assms(1)] by blast
  show "\<exists>cq'. conn_queue_pop (h, cq) = Ok (Some b, h, cq') \<and> q_rep (h, cq') cs" if at: "as = b # cs" for b cs
  proof -
    obtain h' cq' where p: "conn_queue_pop (h, cq) = Ok (Some b, h', cq')" "q_rep (h', cq') cs"
      using conn_queue_pop_first [of "(h, cq)" b cs] assms(1) at by auto
    then show ?thesis using conn_queue_pop_heap [OF p(1)] by blast
  qed
qed (rule conn_queue.push_pop_order [OF assms(6,4,5)])

definition some_item :: new_conn_t where
  "some_item = \<lparr>nc_client_id = 1, nc_sfd = 5, nc_init_state = conn_new_cmd, nc_event_flags = 18, nc_next = None,
     nc_read_buffer_size = 2048\<rparr>"

theorem conn_queue_fifo_witness:
  "\<exists>s1 s2. push_all conn_queue_push ([1 \<mapsto> some_item, 2 \<mapsto> some_item], \<lparr>cq_head = None, cq_tail = None\<rparr>) [2, 1] = Ok s1 \<and>
     pop_n conn_queue_pop 2 s1 = Ok ([Some 2, Some 1], s2)"
  using conn_queue_fifo [of "[1 \<mapsto> some_item, 2 \<mapsto> some_item]" "\<lparr>cq_head = None, cq_tail = None\<rparr>" "[]" 1 "[2, 1]"
      "([1 \<mapsto> some_item, 2 \<mapsto> some_item], \<lparr>cq_head = None, cq_tail = None\<rparr>)"]
  by (auto simp: q_rep_def q_live_def numeral_2_eq_2)

end
