(* ===== verification/Pool.thy ===== *)
theory Pool
  imports Protocol Conn_Queue
begin

text \<open>
  The globals of the program as one record \<open>world\<close>, and the life of connections in
  \<open>connections.c\<close>: the free list, \<open>conn_new\<close>, \<open>conn_free\<close> and \<open>conn_close\<close>. Connections live in the
  heap \<open>w_conns\<close>; a freed address is not used again.

  The locale \<open>pool\<close> is what \<open>conn_new\<close> and \<open>conn_close\<close> rely on of the free list; the invariant
  \<open>world_inv\<close> ties the free list, the buffers of the connections and the reference counts of the
  client statistics together.
\<close>

section \<open>The free list\<close>

record freelist =
  freeconns :: "addr list"    \<comment> \<open>the array; empty when \<open>calloc\<close> failed\<close>
  freetotal :: nat
  freecurr :: nat

text \<open>Initialize our connection system. A failed allocation is only reported.\<close>

definition conn_init :: "env \<Rightarrow> freelist \<times> env" where
  "conn_init e =
     (case alloc e of (ok, e) \<Rightarrow>
        (\<lparr>freeconns = (if ok then replicate 200 0 else []), freetotal = 200, freecurr = 0\<rparr>, e))"

text \<open>Returns a connection from the freelist, if any.\<close>

definition conn_from_freelist :: "freelist \<Rightarrow> (addr option \<times> freelist) res" where
  "conn_from_freelist f =
     (if freecurr f > 0 then
        if freecurr f - 1 < length (freeconns f) then
          Ok (Some (freeconns f ! (freecurr f - 1)), f\<lparr>freecurr := freecurr f - 1\<rparr>)
        else Err OutOfBounds
      else Ok (None, f))"

text \<open>Adds a connection to the freelist: whether there was room or it could be enlarged.\<close>

definition conn_add_to_freelist :: "env \<Rightarrow> freelist \<Rightarrow> addr \<Rightarrow> (bool \<times> env \<times> freelist) res" where
  "conn_add_to_freelist e f a =
     (if freecurr f < freetotal f then
        if freecurr f < length (freeconns f) then
          Ok (True, e, f\<lparr>freeconns := (freeconns f)[freecurr f := a], freecurr := freecurr f + 1\<rparr>)
        else Err OutOfBounds
      else
        (case alloc e of (ok, e) \<Rightarrow>
           if ok then
             let xs = freeconns f @ replicate (freetotal f * 2 - length (freeconns f)) 0 in
             if freecurr f < length xs then
               Ok (True, e, \<lparr>freeconns = xs[freecurr f := a], freetotal = freetotal f * 2, freecurr = freecurr f + 1\<rparr>)
             else Err OutOfBounds
           else Ok (False, e, f)))"

text \<open>What the users of a pool rely on: it is a stack, and an element taken is no longer in it.\<close>

locale pool =
  fixes inv :: "'s \<Rightarrow> bool"
    and content :: "'s \<Rightarrow> 'a list"
    and get :: "'s \<Rightarrow> ('a option \<times> 's) res"
    and put :: "'e \<Rightarrow> 's \<Rightarrow> 'a \<Rightarrow> (bool \<times> 'e \<times> 's) res"
  assumes get_empty: "inv s \<Longrightarrow> content s = [] \<Longrightarrow> get s = Ok (None, s)"
    and get_top: "inv s \<Longrightarrow> content s = x # xs \<Longrightarrow> \<exists>s'. get s = Ok (Some x, s') \<and> inv s' \<and> content s' = xs"
    and put_top: "inv s \<Longrightarrow> \<exists>ok e' s'. put e s x = Ok (ok, e', s') \<and> inv s' \<and>
      content s' = (if ok then x # content s else content s)"
begin

lemma get_cases:
  assumes "inv s"
  obtains "content s = []" "get s = Ok (None, s)"
  | x s' where "get s = Ok (Some x, s')" "inv s'" "content s = x # content s'"
proof (cases "content s")
  case Nil
  with get_empty [OF assms] that(1) show ?thesis by blast
next
  case (Cons x xs)
  with get_top [OF assms] that(2) show ?thesis by blast
qed

text \<open>What was put last is handed out first, and only once.\<close>

lemma put_get:
  assumes "inv s" and "put e s x = Ok (True, e', s')" and "distinct (content s)" and "x \<notin> set (content s)"
  shows "\<exists>s''. get s' = Ok (Some x, s'') \<and> inv s'' \<and> content s'' = content s \<and> x \<notin> set (content s'')"
proof -
  have "inv s'" "content s' = x # content s" using put_top [OF assms(1), of e x] assms(2) by auto
  with get_top [of s' x "content s"] assms(4) show ?thesis by auto
qed

end

text \<open>The stored connections, the next to be handed out first.\<close>

definition free_content :: "freelist \<Rightarrow> addr list" where
  "free_content f = rev (take (freecurr f) (freeconns f))"

definition free_inv :: "freelist \<Rightarrow> bool" where
  "free_inv f \<longleftrightarrow> length (freeconns f) = freetotal f \<and> freecurr f \<le> freetotal f \<and> 0 < freetotal f"

lemma conn_init_free: "conn_init e = (f, e') \<Longrightarrow> alloc_ok e (allocs e) \<Longrightarrow> free_inv f \<and> free_content f = []"
  by (auto simp: conn_init_def alloc_def free_inv_def free_content_def)

lemma free_store:
  "n < length xs \<Longrightarrow> rev (take (Suc n) (xs[n := a])) = a # rev (take n xs)"
  by (simp add: take_update_last del: take_Suc)

interpretation freelist: pool free_inv free_content conn_from_freelist conn_add_to_freelist
proof unfold_locales
  show "conn_from_freelist s = Ok (None, s)" if "free_inv s" "free_content s = []" for s
    using that by (auto simp: conn_from_freelist_def free_inv_def free_content_def)
  show "\<exists>s'. conn_from_freelist s = Ok (Some x, s') \<and> free_inv s' \<and> free_content s' = xs"
    if inv: "free_inv s" "free_content s = x # xs" for s x xs
  proof -
    obtain n where n: "freecurr s = Suc n" "n < length (freeconns s)"
      using inv by (cases "freecurr s") (auto simp: free_inv_def free_content_def)
    then have "free_content s = freeconns s ! n # rev (take n (freeconns s))"
      by (simp add: free_content_def take_Suc_conv_app_nth)
    then show ?thesis using inv n by (simp add: conn_from_freelist_def free_inv_def free_content_def)
  qed
  show "\<exists>ok e' s'. conn_add_to_freelist e s x = Ok (ok, e', s') \<and> free_inv s' \<and>
      free_content s' = (if ok then x # free_content s else free_content s)" if inv: "free_inv s" for e s x
  proof (cases "freecurr s < freetotal s")
    case True
    then show ?thesis using inv
      by (intro exI [of _ True] exI [of _ e]
          exI [of _ "s\<lparr>freeconns := (freeconns s)[freecurr s := x], freecurr := freecurr s + 1\<rparr>"])
         (simp add: conn_add_to_freelist_def free_inv_def free_content_def free_store del: take_Suc)
  next
    case False
    then have full: "freecurr s = freetotal s" "length (freeconns s) = freetotal s" "0 < freetotal s"
      using inv by (auto simp: free_inv_def)
    show ?thesis
    proof (cases "alloc_ok e (allocs e)")
      case True
      have lt: "freetotal s < length (freeconns s @ replicate (freetotal s) 0)" using full by simp
      show ?thesis
        using True full free_store [OF lt, of x]
        by (intro exI [of _ True] exI [of _ "snd (alloc e)"]
            exI [of _ "\<lparr>freeconns = (freeconns s @ replicate (freetotal s) 0)[freetotal s := x],
              freetotal = freetotal s * 2, freecurr = freecurr s + 1\<rparr>"])
           (simp add: conn_add_to_freelist_def alloc_def Let_def free_inv_def free_content_def del: take_Suc)
    next
      case False
      then show ?thesis using full inv
        by (intro exI [of _ False] exI [of _ "snd (alloc e)"] exI [of _ s]) (simp add: conn_add_to_freelist_def alloc_def)
    qed
  qed
qed

section \<open>The program's globals\<close>

record worker_thread_t =
  notify_receive_fd :: int
  notify_send_fd :: int
  notify_pipe :: "char list"        \<comment> \<open>the bytes in the notification pipe\<close>
  pipe_faults :: "bool list"        \<comment> \<open>which of the next reads and writes on it fail; none when exhausted\<close>
  new_conn_queue :: conn_queue_t
  memcache :: "addr list"           \<comment> \<open>the used part of the array; \<open>memcache_used\<close> is its length\<close>

record world =
  w_env :: env
  config :: settings
  fixed_item :: "item option"
  w_conns :: "addr \<Rightarrow> conn option"
  w_fresh :: addr
  w_free :: freelist
  listen_conn :: "addr option"
  w_closed :: "int list"            \<comment> \<open>the descriptors passed to \<open>close\<close>, in order\<close>
  w_threads :: "worker_thread_t list"
  last_thread :: int
  w_qheap :: qheap
  w_qfresh :: addr
  init_count :: int
  current_cpu :: int

text \<open>Store a connection.\<close>

definition put_conn :: "addr \<Rightarrow> conn \<Rightarrow> world \<Rightarrow> world" where
  "put_conn a c w = w\<lparr>w_conns := (w_conns w)(a \<mapsto> c)\<rparr>"

abbreviation w_stats :: "world \<Rightarrow> statistics" where
  "w_stats w \<equiv> s_stats (config w)"

definition set_stats :: "statistics \<Rightarrow> world \<Rightarrow> world" where
  "set_stats s w = w\<lparr>config := (config w)\<lparr>s_stats := s\<rparr>\<rparr>"

text \<open>\<open>close\<close> of a descriptor.\<close>

definition close_fd :: "int \<Rightarrow> world \<Rightarrow> world" where
  "close_fd fd w = w\<lparr>w_closed := w_closed w @ [fd]\<rparr>"

section \<open>Making and closing connections\<close>

text \<open>Frees a connection.\<close>

definition conn_free :: "addr \<Rightarrow> world \<Rightarrow> world" where
  "conn_free a w = w\<lparr>w_conns := (w_conns w)(a := None)\<rparr>"

text \<open>
  The part of \<open>conn_new\<close> for an empty free list: seven allocations, of which the last, for the
  queue of backend requests, is not checked.
\<close>

definition conn_alloc :: "world \<Rightarrow> int \<Rightarrow> addr option \<times> world" where
  "conn_alloc w read_buffer_size =
     (case alloc (w_env w) of (c_ok, e) \<Rightarrow>
        if \<not> c_ok then (None, w\<lparr>w_env := e\<rparr>)
        else
          (case alloc e of (ok_rbuf, e_rbuf) \<Rightarrow> case alloc e_rbuf of (ok_wbuf, e_wbuf) \<Rightarrow> case alloc e_wbuf of (ok_iov, e) \<Rightarrow>
           case alloc e of (ok_msg, e) \<Rightarrow> case alloc e of (ok_ilist, e) \<Rightarrow> case alloc e of (ok_rpc, e) \<Rightarrow>
           let a = w_fresh w;
               c = zero_conn\<lparr>rsize := read_buffer_size, wsize := DATA_BUFFER_SIZE,
                     rbuf := unwritten e_rbuf (nat read_buffer_size),
                     wbuf := unwritten e_wbuf (nat DATA_BUFFER_SIZE),
                     iovsize := IOV_LIST_INITIAL, iov := replicate IOV_LIST_INITIAL zero_iovec,
                     msgsize := MSG_LIST_INITIAL, msglist := replicate MSG_LIST_INITIAL zero_msghdr,
                     isize := ITEM_LIST_INITIAL, ilist := replicate ITEM_LIST_INITIAL None,
                     rpcsize := MEMCACHE_RPC_QUEUE,
                     rpc := (if ok_rpc then replicate MEMCACHE_RPC_QUEUE 0 else [])\<rparr>;
               w = w\<lparr>w_env := e, w_fresh := Suc a\<rparr>
           in if \<not> (ok_rbuf \<and> ok_wbuf \<and> ok_iov \<and> ok_msg \<and> ok_ilist) then (None, conn_free a w)
              else (Some a, put_conn a c w)))"

text \<open>The fields that \<open>conn_new\<close> sets in every case.\<close>

definition conn_reset ::
  "conn_type \<Rightarrow> int \<Rightarrow> int \<Rightarrow> conn_states \<Rightarrow> conn \<Rightarrow> conn"
where
  "conn_reset type client_id sfd init_state c =
     c\<lparr>c_client_id := client_id, c_type := type, c_sfd := sfd, c_state := init_state,
       after_write := init_state, rbytes := 0, wbytes := 0, rcurr := 0, wcurr := 0, iovused := 0,
       msgcurr := 0, msgused := 0, ileft := 0, icurr := 0, rpcused := 0, rpcdone := 0, rpcwaiting := 0\<rparr>"

text \<open>The counters of the client, under its lock.\<close>

definition count_connection :: "addr \<Rightarrow> statistics \<Rightarrow> statistics res" where
  "count_connection cs s =
     (case st_heap s cs of
        None \<Rightarrow> Err NullDeref
      | Some n \<Rightarrow> Ok (s\<lparr>st_heap := (st_heap s)(cs \<mapsto> n\<lparr>total_connections := i32 (total_connections n + 1),
                                                   live_connections := i32 (live_connections n + 1)\<rparr>)\<rparr>))"

text \<open>Give a connection back to the free list, or free it when that has no room.\<close>

definition conn_release :: "addr \<Rightarrow> world \<Rightarrow> world res" where
  "conn_release a w =
     bindR (conn_add_to_freelist (w_env w) (w_free w) a) (\<lambda>(ok, e, f).
       let w = w\<lparr>w_env := e, w_free := f\<rparr> in Ok (if ok then w else conn_free a w))"

text \<open>Create a new connection value: its address, or \<open>None\<close>.\<close>

definition conn_new ::
  "world \<Rightarrow> conn_type \<Rightarrow> int \<Rightarrow> int \<Rightarrow> conn_states \<Rightarrow> int \<Rightarrow> int \<Rightarrow> (addr option \<times> world) res"
where
  "conn_new w type client_id sfd init_state event_flags read_buffer_size =
     bindR (conn_from_freelist (w_free w)) (\<lambda>(p, f).
     case (case p of None \<Rightarrow> conn_alloc (w\<lparr>w_free := f\<rparr>) read_buffer_size
                   | Some a \<Rightarrow> (Some a, w\<lparr>w_free := f\<rparr>)) of
       (None, w) \<Rightarrow> Ok (None, w)
     | (Some a, w) \<Rightarrow>
         (case w_conns w a of
            None \<Rightarrow> Err NullDeref
          | Some c \<Rightarrow>
              bindR (get_client_stats (w_env w) (w_stats w) client_id) (\<lambda>(cs, e, s).
              bindR (count_connection cs s) (\<lambda>s.
              let c = (conn_reset type client_id sfd init_state c)\<lparr>c_stats := Some cs, ev_flags := event_flags\<rparr> in
              case event_call e of (ok, e) \<Rightarrow>
                let w = put_conn a c (set_stats s (w\<lparr>w_env := e\<rparr>)) in
                if ok then Ok (Some a, w)
                else bindR (conn_release a w) (\<lambda>w. Ok (None, w))))))"

text \<open>Close a connection.\<close>

definition conn_close :: "addr \<Rightarrow> world \<Rightarrow> world res" where
  "conn_close a w =
     (case w_conns w a of
        None \<Rightarrow> Err NullDeref
      | Some c \<Rightarrow>
          (case event_call (w_env w) of (_, e) \<Rightarrow>
           let w = close_fd (c_sfd c) (w\<lparr>w_env := e\<rparr>) in
           case c_stats c of
             None \<Rightarrow> Err NullDeref
           | Some cs \<Rightarrow>
               bindR (drop_ref (w_stats w) cs) (\<lambda>s.
                 conn_release a (put_conn a (c\<lparr>c_stats := None, mem_blob := None\<rparr>) (set_stats s w)))))"

section \<open>Reference counts\<close>

text \<open>The connections that hold a reference on a client's statistics.\<close>

definition refs :: "(addr \<Rightarrow> conn option) \<Rightarrow> addr \<Rightarrow> addr set" where
  "refs conns a = {k. \<exists>c. conns k = Some c \<and> c_stats c = Some a}"

text \<open>Every object counts its connections and one reference more, that of the map.\<close>

definition refs_inv :: "(addr \<Rightarrow> conn option) \<Rightarrow> (addr \<Rightarrow> client_stats option) \<Rightarrow> bool" where
  "refs_inv conns h \<longleftrightarrow>
     finite (dom conns) \<and> (\<forall>a n. h a = Some n \<longrightarrow> card (refs conns a) < unat (cs_refcnt n)) \<and>
     (\<forall>a. refs conns a \<noteq> {} \<longrightarrow> h a \<noteq> None)"

lemma finite_refs: "finite (dom conns) \<Longrightarrow> finite (refs conns a)"
  by (rule finite_subset [of _ "dom conns"]) (auto simp: refs_def)

lemma refs_inv_mono:
  assumes "refs_inv conns h" "\<forall>a. refs conns' a \<subseteq> refs conns a" "finite (dom conns')"
  shows "refs_inv conns' h"
proof -
  have "card (refs conns' a) \<le> card (refs conns a)" for a
    using assms by (intro card_mono finite_refs) (auto simp: refs_inv_def)
  then show ?thesis using assms by (fastforce simp: refs_inv_def intro: le_less_trans)
qed

lemma refs_update:
  "refs (conns(k \<mapsto> c)) a = (if c_stats c = Some a then insert k (refs conns a) else refs conns a - {k})"
  by (auto simp: refs_def)

lemma refs_free: "refs (conns(k := None)) a = refs conns a - {k}"
  by (auto simp: refs_def)

lemma refs_inv_store:
  assumes "refs_inv conns h" "c_stats c' = None \<or> (\<exists>c. conns k = Some c \<and> c_stats c = c_stats c')"
  shows "refs_inv (conns(k \<mapsto> c')) h"
proof (rule refs_inv_mono [OF assms(1)])
  show "\<forall>a. refs (conns(k \<mapsto> c')) a \<subseteq> refs conns a"
    using assms(2) by (auto simp: refs_def)
qed (use assms(1) in \<open>simp add: refs_inv_def\<close>)

lemma refs_inv_free: "refs_inv conns h \<Longrightarrow> refs_inv (conns(k := None)) h"
  by (rule refs_inv_mono) (auto simp: refs_free refs_inv_def)

lemma unat_decr: "r \<noteq> 0 \<Longrightarrow> unat (refcount_decr r) = unat r - 1"
  by (simp add: refcount_decr_def unat_minus_one)

lemma unat_incr: "unat r < 65535 \<Longrightarrow> unat (refcount_incr r) = Suc (unat r)"
  using unat_word_ariths(1) [of r 1] by (simp add: refcount_incr_def)

text \<open>A connection takes a reference that \<open>get_client_stats\<close> has counted.\<close>

lemma refs_inv_take:
  assumes "refs_inv conns h" "c_stats c' = Some cs"
    and "h' = h(cs \<mapsto> n)" and "card (refs conns cs) + 1 < unat (cs_refcnt n)"
  shows "refs_inv (conns(k \<mapsto> c')) h'"
proof -
  have fin: "finite (dom conns)" using assms(1) by (simp add: refs_inv_def)
  have le: "card (refs (conns(k \<mapsto> c')) a) \<le> (if a = cs then card (refs conns a) + 1 else card (refs conns a))" for a
    using assms(2) finite_refs [OF fin, of a] card_insert_le_m1 [of "card (refs conns a) + 1" "refs conns a" k]
    by (auto simp: refs_update intro: card_mono)
  have "refs (conns(k \<mapsto> c')) a \<noteq> {} \<longrightarrow> h' a \<noteq> None" for a
    using assms(1-3) by (auto simp: refs_inv_def refs_update)
  moreover have "card (refs (conns(k \<mapsto> c')) a) < unat (cs_refcnt m)" if "h' a = Some m" for a m
    using le [of a] assms(1,3,4) that by (fastforce simp: refs_inv_def split: if_splits)
  ultimately show ?thesis using fin by (simp add: refs_inv_def)
qed

text \<open>A connection gives its reference back: the object stays, since the map still refers to it.\<close>

lemma refs_inv_drop:
  assumes "refs_inv conns h" "conns k = Some c" "c_stats c = Some cs" "c_stats c' = None"
  shows "\<exists>n. h cs = Some n \<and> refcount_decr (cs_refcnt n) \<noteq> 0 \<and>
    refs_inv (conns(k \<mapsto> c')) (h(cs \<mapsto> n\<lparr>cs_refcnt := refcount_decr (cs_refcnt n)\<rparr>))"
proof -
  have k: "k \<in> refs conns cs" using assms(2,3) by (simp add: refs_def)
  then obtain n where n: "h cs = Some n" using assms(1) by (auto simp: refs_inv_def)
  have fin: "finite (refs conns a)" for a using assms(1) finite_refs by (auto simp: refs_inv_def)
  have two: "1 \<le> card (refs conns cs)" "card (refs conns cs) < unat (cs_refcnt n)"
    using k fin [of cs] n assms(1) by (auto simp: refs_inv_def Suc_le_eq card_gt_0_iff)
  then have nz: "cs_refcnt n \<noteq> 0" by auto
  have less: "card (refs (conns(k \<mapsto> c')) cs) < unat (refcount_decr (cs_refcnt n))"
    using two k fin [of cs] by (simp add: refs_update assms(4) card_Diff_singleton unat_decr [OF nz])
  have "refs_inv (conns(k \<mapsto> c')) h" using refs_inv_store [OF assms(1)] assms(4) by blast
  then have "refs_inv (conns(k \<mapsto> c')) (h(cs \<mapsto> n\<lparr>cs_refcnt := refcount_decr (cs_refcnt n)\<rparr>))"
    using less by (auto simp: refs_inv_def)
  moreover have "refcount_decr (cs_refcnt n) \<noteq> 0" using less by auto
  ultimately show ?thesis using n by blast
qed

section \<open>The invariant\<close>

text \<open>A connection's buffers, and the window of unread input inside the read buffer.\<close>

definition conn_ok :: "conn \<Rightarrow> bool" where
  "conn_ok c \<longleftrightarrow>
     arrays_ok c \<and> wbuf_ok c \<and> items_ok c \<and> int (length (rbuf c)) = rsize c \<and> 0 < rsize c \<and> rsize c \<le> INT_MAX \<and>
     0 \<le> rcurr c \<and> 0 \<le> rbytes c \<and> rcurr c + rbytes c \<le> rsize c"

definition conns_inv :: "(addr \<Rightarrow> conn option) \<Rightarrow> addr \<Rightarrow> freelist \<Rightarrow> bool" where
  "conns_inv conns fresh f \<longleftrightarrow>
     free_inv f \<and> distinct (free_content f) \<and> (\<forall>a \<in> set (free_content f). conns a \<noteq> None) \<and>
     (\<forall>a. conns a \<noteq> None \<longrightarrow> a < fresh) \<and> (\<forall>a c. conns a = Some c \<longrightarrow> conn_ok c)"

definition world_inv :: "world \<Rightarrow> bool" where
  "world_inv w \<longleftrightarrow>
     conns_inv (w_conns w) (w_fresh w) (w_free w) \<and> stats_inv (w_stats w) \<and>
     refs_inv (w_conns w) (st_heap (w_stats w))"

text \<open>A connection in use: allocated and not on the free list.\<close>

definition in_use :: "world \<Rightarrow> addr \<Rightarrow> bool" where
  "in_use w a \<longleftrightarrow> w_conns w a \<noteq> None \<and> a \<notin> set (free_content (w_free w))"

lemma conns_inv_store: "conns_inv conns fresh f \<Longrightarrow> conn_ok c \<Longrightarrow> a < fresh \<Longrightarrow> conns_inv (conns(a \<mapsto> c)) fresh f"
  by (auto simp: conns_inv_def)

lemma world_inv_env [simp]: "world_inv (w\<lparr>w_env := e\<rparr>) = world_inv w" "world_inv (close_fd fd w) = world_inv w"
  by (simp_all add: world_inv_def close_fd_def)

text \<open>What the pool operations leave alone.\<close>

definition same_rest :: "world \<Rightarrow> world \<Rightarrow> bool" where
  "same_rest w w' \<longleftrightarrow>
     fixed_item w' = fixed_item w \<and> listen_conn w' = listen_conn w \<and> w_threads w' = w_threads w \<and>
     last_thread w' = last_thread w \<and> w_qheap w' = w_qheap w \<and> w_qfresh w' = w_qfresh w \<and>
     init_count w' = init_count w \<and> current_cpu w' = current_cpu w \<and>
     (config w')\<lparr>s_stats := new_stats\<rparr> = (config w)\<lparr>s_stats := new_stats\<rparr>"

lemma same_rest_refl [simp]: "same_rest w w"
  by (simp add: same_rest_def)

lemma same_rest_trans: "same_rest w w' \<Longrightarrow> same_rest w' w'' \<Longrightarrow> same_rest w w''"
  by (simp add: same_rest_def)

lemma conn_release_ok:
  assumes "world_inv w" "w_conns w a = Some c" "a \<notin> set (free_content (w_free w))"
  shows "\<exists>w'. conn_release a w = Ok w' \<and> world_inv w' \<and> \<not> in_use w' a \<and> same_rest w w' \<and> w_stats w' = w_stats w \<and>
    w_closed w' = w_closed w \<and> (\<forall>b. b \<noteq> a \<longrightarrow> w_conns w' b = w_conns w b \<and> in_use w' b = in_use w b) \<and>
    (mem_ok (w_env w) \<longrightarrow> free_content (w_free w') = a # free_content (w_free w) \<and> w_conns w' = w_conns w \<and>
       mem_ok (w_env w'))"
proof -
  have inv: "conns_inv (w_conns w) (w_fresh w) (w_free w)" using assms(1) by (simp add: world_inv_def)
  then obtain ok e f where p: "conn_add_to_freelist (w_env w) (w_free w) a = Ok (ok, e, f)" "free_inv f"
    "free_content f = (if ok then a # free_content (w_free w) else free_content (w_free w))"
    using freelist.put_top [of "w_free w" "w_env w" a] by (auto simp: conns_inv_def)
  have mem: "mem_ok (w_env w) \<longrightarrow> ok \<and> mem_ok e"
    using p(1) by (auto simp: conn_add_to_freelist_def alloc_def Let_def split: if_splits)
  show ?thesis
  proof (cases ok)
    case True
    then have "conn_release a w = Ok (w\<lparr>w_env := e, w_free := f\<rparr>)" using p(1) by (simp add: conn_release_def)
    moreover have "world_inv (w\<lparr>w_env := e, w_free := f\<rparr>)"
      using assms inv p(2,3) True by (simp add: world_inv_def conns_inv_def)
    ultimately show ?thesis using True p(3) mem
      by (intro exI [of _ "w\<lparr>w_env := e, w_free := f\<rparr>"]) (simp add: in_use_def same_rest_def)
  next
    case False
    let ?w = "conn_free a (w\<lparr>w_env := e, w_free := f\<rparr>)"
    have "conn_release a w = Ok ?w" using p(1) False by (simp add: conn_release_def)
    moreover have "world_inv ?w"
      using assms inv p(2,3) False refs_inv_free [of "w_conns w" _ a]
      by (auto simp: world_inv_def conns_inv_def conn_free_def)
    ultimately show ?thesis using False p(3) mem
      by (intro exI [of _ ?w]) (auto simp: in_use_def same_rest_def conn_free_def)
  qed
qed

lemma conn_close_ok:
  assumes inv: "world_inv w" and c: "w_conns w a = Some c" "a \<notin> set (free_content (w_free w))" "c_stats c = Some cs"
  shows "\<exists>w' n. conn_close a w = Ok w' \<and> world_inv w' \<and> \<not> in_use w' a \<and> same_rest w w' \<and>
    w_closed w' = w_closed w @ [c_sfd c] \<and>
    (\<forall>b. b \<noteq> a \<longrightarrow> w_conns w' b = w_conns w b \<and> in_use w' b = in_use w b) \<and>
    st_heap (w_stats w) cs = Some n \<and>
    w_stats w' = (w_stats w)\<lparr>st_heap := (st_heap (w_stats w))(cs \<mapsto> n\<lparr>cs_refcnt := refcount_decr (cs_refcnt n)\<rparr>)\<rparr>"
proof -
  define e where "e = snd (event_call (w_env w))"
  define c' where "c' = c\<lparr>c_stats := None, mem_blob := None\<rparr>"
  obtain n where n: "st_heap (w_stats w) cs = Some n" "refcount_decr (cs_refcnt n) \<noteq> 0"
    "refs_inv ((w_conns w)(a \<mapsto> c')) ((st_heap (w_stats w))(cs \<mapsto> n\<lparr>cs_refcnt := refcount_decr (cs_refcnt n)\<rparr>))"
    using refs_inv_drop [of "w_conns w" "st_heap (w_stats w)" a c cs c'] inv c by (auto simp: world_inv_def c'_def)
  define s where "s = (w_stats w)\<lparr>st_heap := (st_heap (w_stats w))(cs \<mapsto> n\<lparr>cs_refcnt := refcount_decr (cs_refcnt n)\<rparr>)\<rparr>"
  define w1 where "w1 = put_conn a c' (set_stats s (close_fd (c_sfd c) (w\<lparr>w_env := e\<rparr>)))"
  have w1: "w_conns w1 = (w_conns w)(a \<mapsto> c')" "w_free w1 = w_free w" "w_fresh w1 = w_fresh w" "w_stats w1 = s"
    "w_closed w1 = w_closed w @ [c_sfd c]" "same_rest w w1"
    by (simp_all add: w1_def put_conn_def set_stats_def close_fd_def same_rest_def)
  have close: "conn_close a w = conn_release a w1"
    using c n(1,2) by (simp add: conn_close_def drop_ref_def event_call_def e_def c'_def w1_def s_def Let_def
        close_fd_def)
  have "conn_ok c'" "a < w_fresh w" using inv c(1)
    by (auto simp: world_inv_def conns_inv_def conn_ok_def c'_def arrays_ok_def wbuf_ok_def items_ok_def)
  then have "world_inv w1"
    using inv n(3) stats_inv_touch [OF n(1)] by (auto simp: world_inv_def w1 s_def intro: conns_inv_store)
  then obtain w' where w': "conn_release a w1 = Ok w'" "world_inv w'" "\<not> in_use w' a" "same_rest w1 w'"
    "w_stats w' = w_stats w1" "w_closed w' = w_closed w1"
    "\<forall>b. b \<noteq> a \<longrightarrow> w_conns w' b = w_conns w1 b \<and> in_use w' b = in_use w1 b"
    using conn_release_ok [of w1 a c'] c(2) w1 by auto
  moreover have "same_rest w w'" using same_rest_trans [OF w1(6) w'(4)] .
  ultimately show ?thesis using close n(1) w1 by (intro exI [of _ w'] exI [of _ n]) (auto simp: in_use_def s_def)
qed

text \<open>A connection to set up: the last one given back, or a new one.\<close>

lemma conn_acquire:
  assumes inv: "world_inv w" and mem: "mem_ok (w_env w)" and rb: "0 < read_buffer_size \<and> read_buffer_size \<le> INT_MAX"
  obtains f p a c w' where "conn_from_freelist (w_free w) = Ok (p, f)"
    "(case p of None \<Rightarrow> conn_alloc (w\<lparr>w_free := f\<rparr>) read_buffer_size
              | Some a \<Rightarrow> (Some a, w\<lparr>w_free := f\<rparr>)) = (Some a, w')"
    "world_inv w'" "mem_ok (w_env w')" "w_conns w' a = Some c" "a \<notin> set (free_content (w_free w'))"
    "\<not> in_use w a" "same_rest w w'" "w_closed w' = w_closed w" "w_stats w' = w_stats w"
    "\<forall>b. b \<noteq> a \<longrightarrow> w_conns w' b = w_conns w b \<and> in_use w' b = in_use w b"
    "event_ok (w_env w') = event_ok (w_env w)" "events (w_env w') = events (w_env w)"
proof -
  have ci: "conns_inv (w_conns w) (w_fresh w) (w_free w)" using inv by (simp add: world_inv_def)
  then have fi: "free_inv (w_free w)" by (simp add: conns_inv_def)
  from fi show ?thesis
  proof (cases rule: freelist.get_cases)
    case 1
    define k where "k = w_fresh w"
    define e where "e = (w_env w)\<lparr>allocs := allocs (w_env w) + 7\<rparr>"
    define c where "c = zero_conn\<lparr>rsize := read_buffer_size, wsize := DATA_BUFFER_SIZE,
                     rbuf := unwritten ((w_env w)\<lparr>allocs := allocs (w_env w) + 2\<rparr>) (nat read_buffer_size),
                     wbuf := unwritten ((w_env w)\<lparr>allocs := allocs (w_env w) + 3\<rparr>) (nat DATA_BUFFER_SIZE),
                     iovsize := IOV_LIST_INITIAL, iov := replicate IOV_LIST_INITIAL zero_iovec,
                     msgsize := MSG_LIST_INITIAL, msglist := replicate MSG_LIST_INITIAL zero_msghdr,
                     isize := ITEM_LIST_INITIAL, ilist := replicate ITEM_LIST_INITIAL None,
                     rpcsize := MEMCACHE_RPC_QUEUE, rpc := replicate MEMCACHE_RPC_QUEUE 0\<rparr>"
    define w' where "w' = put_conn k c (w\<lparr>w_free := w_free w, w_env := e, w_fresh := Suc k\<rparr>)"
    have al: "alloc_ok (w_env w) (allocs (w_env w) + j)" for j using mem by (simp add: mem_ok_def)
    have "conn_alloc (w\<lparr>w_free := w_free w\<rparr>) read_buffer_size = (Some k, w')"
      using al [of 0] al [of 1] al [of 2] al [of 3] al [of 4] al [of 5] al [of 6]
      by (simp add: conn_alloc_def alloc_def Let_def w'_def k_def c_def e_def eval_nat_numeral)
    moreover have fresh: "w_conns w k = None" "k \<notin> set (free_content (w_free w))"
      using ci by (auto simp: conns_inv_def k_def)
    moreover have "conn_ok c"
      using rb by (simp add: conn_ok_def arrays_ok_def wbuf_ok_def items_ok_def c_def zero_conn_def DATA_BUFFER_SIZE_def
          MSG_LIST_INITIAL_def IOV_LIST_INITIAL_def ITEM_LIST_INITIAL_def)
    then have "world_inv w'"
      using inv fresh refs_inv_store [of "w_conns w" _ c k]
      by (auto simp: world_inv_def conns_inv_def w'_def put_conn_def k_def c_def zero_conn_def less_Suc_eq)
    moreover have "mem_ok (w_env w')" using mem by (simp add: w'_def put_conn_def e_def mem_ok_def)
    ultimately show ?thesis
      using 1 by (intro that [of None "w_free w" k w' c])
        (auto simp: in_use_def same_rest_def w'_def put_conn_def e_def)
  next
    case (2 a f)
    obtain c where c: "w_conns w a = Some c" using ci 2(3) by (auto simp: conns_inv_def)
    have "world_inv (w\<lparr>w_free := f\<rparr>)" using inv 2 by (auto simp: world_inv_def conns_inv_def)
    moreover have "a \<notin> set (free_content f)" using ci 2(3) by (simp add: conns_inv_def)
    ultimately show ?thesis
      using 2 c mem by (intro that [of "Some a" f a "w\<lparr>w_free := f\<rparr>" c]) (auto simp: in_use_def same_rest_def)
  qed
qed

text \<open>A connection as \<open>conn_new\<close> hands it out.\<close>

definition new_conn_state :: "conn_type \<Rightarrow> int \<Rightarrow> int \<Rightarrow> conn_states \<Rightarrow> int \<Rightarrow> conn \<Rightarrow> bool" where
  "new_conn_state type client_id sfd init_state flags c \<longleftrightarrow>
     c_type c = type \<and> c_client_id c = client_id \<and> c_sfd c = sfd \<and> c_state c = init_state \<and>
     after_write c = init_state \<and> rbytes c = 0 \<and> rcurr c = 0 \<and> msgused c = 0 \<and> msgcurr c = 0 \<and> iovused c = 0 \<and>
     ileft c = 0 \<and> rpcused c = 0 \<and> rpcdone c = 0 \<and> rpcwaiting c = 0 \<and> ev_flags c = flags"

lemma conn_reset_ok: "conn_ok c \<Longrightarrow> conn_ok ((conn_reset ty i fd st c)\<lparr>c_stats := cs, ev_flags := fl\<rparr>)"
  by (simp add: conn_ok_def conn_reset_def arrays_ok_def wbuf_ok_def items_ok_def)

lemma conn_reset_state:
  "new_conn_state ty i fd st fl ((conn_reset ty i fd st c)\<lparr>c_stats := cs, ev_flags := fl\<rparr>)"
  by (simp add: new_conn_state_def conn_reset_def)

text \<open>The statistics part of \<open>conn_new\<close>: one more reference and one more connection.\<close>

lemma register_client:
  assumes inv: "world_inv w" and mem: "mem_ok (w_env w)" and i: "0 \<le> i"
    and room: "\<forall>a n. st_heap (w_stats w) a = Some n \<longrightarrow> unat (cs_refcnt n) < 65535"
  obtains cs e s s' where "get_client_stats (w_env w) (w_stats w) i = Ok (cs, e, s)" "count_connection cs s = Ok s'"
    "mem_ok e" "event_ok e = event_ok (w_env w)" "events e = events (w_env w)" "stats_inv s'"
    "refs_inv ((w_conns w)(k \<mapsto> c'\<lparr>c_stats := Some cs\<rparr>)) (st_heap s')" "st_heap s' cs \<noteq> None"
proof -
  have si: "stats_inv (w_stats w)" and ri: "refs_inv (w_conns w) (st_heap (w_stats w))"
    using inv by (simp_all add: world_inv_def)
  have v: "in_map (w_stats w) i" using in_map_nonneg [OF si i] .
  obtain cs e s where g: "get_client_stats (w_env w) (w_stats w) i = Ok (cs, e, s)" "mem_ok e"
    using registry.get_returns [OF si v mem] by blast
  obtain n where n: "st_heap s cs = Some n" using registry.get_client [OF si g(1)] by blast
  define n' where "n' = n\<lparr>total_connections := i32 (total_connections n + 1), live_connections := i32 (live_connections n + 1)\<rparr>"
  define s' where "s' = s\<lparr>st_heap := (st_heap s)(cs \<mapsto> n')\<rparr>"
  have "count_connection cs s = Ok s'" using n by (simp add: count_connection_def s'_def n'_def)
  moreover have "stats_inv s'"
    using registry.get_inv [OF si g(1)] stats_inv_touch [OF n, of n'] by (simp add: s'_def n'_def)
  moreover have ev: "event_ok e = event_ok (w_env w)" "events e = events (w_env w)"
    using si g(1) by (cases rule: get_client_stats_cases; simp)+
  moreover have "refs_inv ((w_conns w)(k \<mapsto> c'\<lparr>c_stats := Some cs\<rparr>)) (st_heap s')"
    using si g(1)
  proof (cases rule: get_client_stats_cases)
    case (hit m)
    then have "card (refs (w_conns w) cs) < unat (cs_refcnt m)" "cs_refcnt n = refcount_incr (cs_refcnt m)"
      "unat (cs_refcnt m) < 65535"
      using ri room n by (auto simp: refs_inv_def)
    then have "card (refs (w_conns w) cs) + 1 < unat (cs_refcnt n')" by (simp add: n'_def unat_incr)
    moreover have "st_heap s' = (st_heap (w_stats w))(cs \<mapsto> n')" using hit by (simp add: s'_def)
    ultimately show ?thesis by (intro refs_inv_take [OF ri, of _ cs]) simp_all
  next
    case miss
    then have "st_heap (w_stats w) cs = None" using si by (simp add: stats_inv_def)
    then have "refs (w_conns w) cs = {}" using ri by (auto simp: refs_inv_def)
    moreover have "cs_refcnt n' = 2" using miss n by (auto simp: insert_node_def n'_def)
    ultimately have "card (refs (w_conns w) cs) + 1 < unat (cs_refcnt n')" by simp
    moreover have "st_heap s' = (st_heap (w_stats w))(cs \<mapsto> n')" using miss by (simp add: s'_def insert_node_def)
    ultimately show ?thesis by (intro refs_inv_take [OF ri, of _ cs]) simp_all
  qed
  ultimately show ?thesis using that [OF g(1)] g(2) by (simp add: s'_def)
qed

lemma conn_new_ok:
  assumes inv: "world_inv w" and mem: "mem_ok (w_env w)" and rb: "0 < rb \<and> rb \<le> INT_MAX" and i: "0 \<le> i"
    and room: "\<forall>a n. st_heap (w_stats w) a = Some n \<longrightarrow> unat (cs_refcnt n) < 65535"
  shows "\<exists>p w'. conn_new w ty i fd st fl rb = Ok (p, w') \<and> world_inv w' \<and> mem_ok (w_env w') \<and> same_rest w w' \<and>
    w_closed w' = w_closed w \<and>
    (case p of
       Some a \<Rightarrow> (\<exists>c. w_conns w' a = Some c \<and> new_conn_state ty i fd st fl c \<and> c_stats c \<noteq> None) \<and>
         in_use w' a \<and> \<not> in_use w a \<and> (\<forall>b. b \<noteq> a \<longrightarrow> in_use w' b = in_use w b \<and> w_conns w' b = w_conns w b)
     | None \<Rightarrow> \<not> event_ok (w_env w) (events (w_env w)) \<and>
         (\<forall>b. in_use w' b = in_use w b \<and> (in_use w b \<longrightarrow> w_conns w' b = w_conns w b)))"
proof -
  obtain f p a c w1 where a: "conn_from_freelist (w_free w) = Ok (p, f)"
    "(case p of None \<Rightarrow> conn_alloc (w\<lparr>w_free := f\<rparr>) rb
              | Some a \<Rightarrow> (Some a, w\<lparr>w_free := f\<rparr>)) = (Some a, w1)"
    "world_inv w1" "mem_ok (w_env w1)" "w_conns w1 a = Some c" "a \<notin> set (free_content (w_free w1))"
    "\<not> in_use w a" "same_rest w w1" "w_closed w1 = w_closed w" "w_stats w1 = w_stats w"
    "\<forall>b. b \<noteq> a \<longrightarrow> w_conns w1 b = w_conns w b \<and> in_use w1 b = in_use w b"
    "event_ok (w_env w1) = event_ok (w_env w)" "events (w_env w1) = events (w_env w)"
    using conn_acquire [OF inv mem rb] .
  define c' where "c' = (conn_reset ty i fd st c)\<lparr>c_stats := None, ev_flags := fl\<rparr>"
  have ok: "conn_ok c'" "a < w_fresh w1"
    using a(3,5) by (auto simp: world_inv_def conns_inv_def c'_def intro!: conn_reset_ok)
  obtain cs e s s' where r: "get_client_stats (w_env w1) (w_stats w1) i = Ok (cs, e, s)" "count_connection cs s = Ok s'"
    "mem_ok e" "event_ok e = event_ok (w_env w1)" "events e = events (w_env w1)" "stats_inv s'"
    "refs_inv ((w_conns w1)(a \<mapsto> c'\<lparr>c_stats := Some cs\<rparr>)) (st_heap s')" "st_heap s' cs \<noteq> None"
    using register_client [OF a(3,4) i room [folded a(10)], of a c'] .
  define c2 where "c2 = (conn_reset ty i fd st c)\<lparr>c_stats := Some cs, ev_flags := fl\<rparr>"
  have c2: "c2 = c'\<lparr>c_stats := Some cs\<rparr>" "conn_ok c2" "new_conn_state ty i fd st fl c2" "c_stats c2 = Some cs"
    using a(3,5) by (auto simp: c2_def c'_def world_inv_def conns_inv_def conn_reset_state intro!: conn_reset_ok)
  define e2 where "e2 = snd (event_call e)"
  define w2 where "w2 = put_conn a c2 (set_stats s' (w1\<lparr>w_env := e2\<rparr>))"
  have w2: "w_conns w2 = (w_conns w1)(a \<mapsto> c2)" "w_free w2 = w_free w1" "w_fresh w2 = w_fresh w1" "w_stats w2 = s'"
    "w_closed w2 = w_closed w1" "w_env w2 = e2" "same_rest w1 w2" "mem_ok e2"
    using r(3) by (simp_all add: w2_def put_conn_def set_stats_def same_rest_def e2_def mem_ok_def)
  have inv2: "world_inv w2"
    using a(3) r(6,7) c2(1,2) ok(2) by (auto simp: world_inv_def w2 intro: conns_inv_store)
  have use: "in_use w2 a" "\<forall>b. b \<noteq> a \<longrightarrow> in_use w2 b = in_use w b \<and> w_conns w2 b = w_conns w b"
    using a(6,11) by (auto simp: in_use_def w2)
  have "conn_new w ty i fd st fl rb = (if event_ok e (events e) then Ok (Some a, w2)
      else bindR (conn_release a w2) (\<lambda>w. Ok (None, w)))"
    using a(1,2,5) r(1,2) by (simp add: conn_new_def event_call_def Let_def w2_def c2_def e2_def)
  then show ?thesis
  proof (cases "event_ok e (events e)")
    case True
    then show ?thesis using \<open>conn_new w ty i fd st fl rb = _\<close> inv2 w2 use c2(3,4) a(7,9) same_rest_trans [OF a(8) w2(7)]
      by (intro exI [of _ "Some a"] exI [of _ w2]) simp
  next
    case False
    obtain w3 where w3: "conn_release a w2 = Ok w3" "world_inv w3" "\<not> in_use w3 a" "same_rest w2 w3"
      "w_closed w3 = w_closed w2" "\<forall>b. b \<noteq> a \<longrightarrow> w_conns w3 b = w_conns w2 b \<and> in_use w3 b = in_use w2 b" "mem_ok (w_env w3)"
      using conn_release_ok [OF inv2, of a c2] a(6) w2 by auto
    then show ?thesis
      using \<open>conn_new w ty i fd st fl rb = _\<close> False w2 use a(7,9,12,13) r(4,5)
        same_rest_trans [OF same_rest_trans [OF a(8) w2(7)] w3(4)]
      by (intro exI [of _ None] exI [of _ w3]) auto
  qed
qed

text \<open>The globals before the first connection.\<close>

definition world0 :: world where
  "world0 = \<lparr>w_env = calm_env, config = plain_settings, fixed_item = Some whole_item, w_conns = (\<lambda>_. None),
     w_fresh = 1, w_free = fst (conn_init calm_env), listen_conn = None, w_closed = [], w_threads = [],
     last_thread = -1, w_qheap = (\<lambda>_. None), w_qfresh = 1, init_count = 0, current_cpu = -1\<rparr>"

lemma new_stats_heap [simp]: "st_heap new_stats = (\<lambda>_. None)"
  by (simp add: new_stats_def)

lemma world0_inv: "world_inv world0" "mem_ok (w_env world0)" "st_heap (w_stats world0) a = None"
  "event_ok (w_env world0) k"
  by (simp_all add: world_inv_def conns_inv_def world0_def plain_settings_def conn_init_def alloc_def calm_env_def
      free_inv_def free_content_def stats_inv_new refs_inv_def refs_def mem_ok_def)

section \<open>Properties\<close>

text \<open>
  C14. With memory available \<open>conn_new\<close> never fails but for libevent: it hands out a connection that
  was not in use before, reset to the initial state it was asked for, keeps every other connection as it
  was, and keeps the invariant of buffers, free list and reference counts. When libevent refuses, no
  connection is left in use.
\<close>

theorem conn_new_spec:
  assumes "world_inv w" and "mem_ok (w_env w)" and "0 < rb \<and> rb \<le> INT_MAX" and "0 \<le> i"
    and "\<forall>a n. st_heap (w_stats w) a = Some n \<longrightarrow> unat (cs_refcnt n) < 65535"
  shows "\<exists>p w'. conn_new w ty i fd st fl rb = Ok (p, w') \<and> world_inv w' \<and>
    (event_ok (w_env w) (events (w_env w)) \<longrightarrow>
       (\<exists>a c. p = Some a \<and> w_conns w' a = Some c \<and> conn_ok c \<and> new_conn_state ty i fd st fl c \<and>
          in_use w' a \<and> \<not> in_use w a \<and> (\<forall>b. b \<noteq> a \<longrightarrow> in_use w' b = in_use w b \<and> w_conns w' b = w_conns w b))) \<and>
    (p = None \<longrightarrow> (\<forall>b. in_use w' b = in_use w b))"
proof -
  obtain p w' where r: "conn_new w ty i fd st fl rb = Ok (p, w')" "world_inv w'"
    "case p of
       Some a \<Rightarrow> (\<exists>c. w_conns w' a = Some c \<and> new_conn_state ty i fd st fl c \<and> c_stats c \<noteq> None) \<and>
         in_use w' a \<and> \<not> in_use w a \<and> (\<forall>b. b \<noteq> a \<longrightarrow> in_use w' b = in_use w b \<and> w_conns w' b = w_conns w b)
     | None \<Rightarrow> \<not> event_ok (w_env w) (events (w_env w)) \<and>
         (\<forall>b. in_use w' b = in_use w b \<and> (in_use w b \<longrightarrow> w_conns w' b = w_conns w b))"
    using conn_new_ok [OF assms, of ty fd st fl] by blast
  moreover have "conn_ok c" if "w_conns w' a = Some c" for a c
    using r(2) that by (auto simp: world_inv_def conns_inv_def)
  ultimately show ?thesis by (intro exI [of _ p] exI [of _ w']) (auto split: option.splits)
qed

theorem conn_new_spec_witness:
  "\<exists>a c w'. conn_new world0 client_conn 5 9 conn_new_cmd EV_READ_PERSIST DATA_BUFFER_SIZE = Ok (Some a, w') \<and>
     w_conns w' a = Some c \<and> new_conn_state client_conn 5 9 conn_new_cmd EV_READ_PERSIST c \<and> in_use w' a"
  using conn_new_spec [OF world0_inv(1,2), of DATA_BUFFER_SIZE 5 client_conn 9 conn_new_cmd EV_READ_PERSIST] world0_inv(3,4)
  by (auto simp: DATA_BUFFER_SIZE_def)

text \<open>
  C21. Closing a connection closes its descriptor, exactly once, drops the connection's reference on its
  client's statistics without freeing what the map still refers to, takes the connection out of use, leaves
  every other connection alone, and keeps the invariant.
\<close>

theorem conn_close_spec:
  assumes "world_inv w" and "w_conns w a = Some c" and "a \<notin> set (free_content (w_free w))" and "c_stats c = Some cs"
  shows "\<exists>w' n n'. conn_close a w = Ok w' \<and> world_inv w' \<and> w_closed w' = w_closed w @ [c_sfd c] \<and>
    \<not> in_use w' a \<and> (\<forall>b. b \<noteq> a \<longrightarrow> w_conns w' b = w_conns w b \<and> in_use w' b = in_use w b) \<and>
    st_heap (w_stats w) cs = Some n \<and> st_heap (w_stats w') cs = Some n' \<and> unat (cs_refcnt n) = unat (cs_refcnt n') + 1"
proof -
  obtain w' n where r: "conn_close a w = Ok w'" "world_inv w'" "\<not> in_use w' a" "w_closed w' = w_closed w @ [c_sfd c]"
    "\<forall>b. b \<noteq> a \<longrightarrow> w_conns w' b = w_conns w b \<and> in_use w' b = in_use w b" "st_heap (w_stats w) cs = Some n"
    "w_stats w' = (w_stats w)\<lparr>st_heap := (st_heap (w_stats w))(cs \<mapsto> n\<lparr>cs_refcnt := refcount_decr (cs_refcnt n)\<rparr>)\<rparr>"
    using conn_close_ok [OF assms] by blast
  have "card (refs (w_conns w) cs) < unat (cs_refcnt n)" using assms(1) r(6) by (simp add: world_inv_def refs_inv_def)
  then have nz: "cs_refcnt n \<noteq> 0" by auto
  then have "0 < unat (cs_refcnt n)" by (simp add: unat_gt_0)
  then show ?thesis using r unat_decr [OF nz]
    by (intro exI [of _ w'] exI [of _ n] exI [of _ "n\<lparr>cs_refcnt := refcount_decr (cs_refcnt n)\<rparr>"]) simp
qed

text \<open>A world with one open connection.\<close>

lemma one_open:
  obtains w a c cs where "conn_new world0 client_conn 5 9 conn_new_cmd EV_READ_PERSIST DATA_BUFFER_SIZE = Ok (Some a, w)"
    "world_inv w" "w_conns w a = Some c" "a \<notin> set (free_content (w_free w))" "c_stats c = Some cs" "c_sfd c = 9"
    "w_closed w = []"
proof -
  obtain p w' where r: "conn_new world0 client_conn 5 9 conn_new_cmd EV_READ_PERSIST DATA_BUFFER_SIZE = Ok (p, w')"
    "world_inv w'" "w_closed w' = w_closed world0"
    "case p of
       Some a \<Rightarrow> (\<exists>c. w_conns w' a = Some c \<and> new_conn_state client_conn 5 9 conn_new_cmd EV_READ_PERSIST c \<and> c_stats c \<noteq> None) \<and>
         in_use w' a \<and> \<not> in_use world0 a \<and> (\<forall>b. b \<noteq> a \<longrightarrow> in_use w' b = in_use world0 b \<and> w_conns w' b = w_conns world0 b)
     | None \<Rightarrow> \<not> event_ok (w_env world0) (events (w_env world0)) \<and>
         (\<forall>b. in_use w' b = in_use world0 b \<and> (in_use world0 b \<longrightarrow> w_conns w' b = w_conns world0 b))"
    using conn_new_ok [OF world0_inv(1,2), of DATA_BUFFER_SIZE 5 client_conn 9 conn_new_cmd EV_READ_PERSIST] world0_inv(3)
    by (auto simp: DATA_BUFFER_SIZE_def)
  then show ?thesis using that world0_inv(4)
    by (auto simp: new_conn_state_def in_use_def world0_def split: option.splits)
qed

theorem conn_close_spec_witness:
  "\<exists>w a w'. conn_close a w = Ok w' \<and> world_inv w' \<and> w_closed w' = [9] \<and> \<not> in_use w' a"
proof -
  obtain w a c cs where w: "world_inv w" "w_conns w a = Some c" "a \<notin> set (free_content (w_free w))" "c_stats c = Some cs"
    "c_sfd c = 9" "w_closed w = []"
    using one_open by metis
  from conn_close_spec [OF w(1-4)] w(5,6) show ?thesis by auto
qed

text \<open>
  \<open>live_connections\<close> never goes down: closing a connection leaves all counters of its client as they
  are, so the number that \<open>stats\<close> reports as live is the number of connections ever made.
\<close>

lemma conn_close_keeps_live:
  assumes "world_inv w" and "w_conns w a = Some c" and "a \<notin> set (free_content (w_free w))" and "c_stats c = Some cs"
  shows "\<exists>w' n n'. conn_close a w = Ok w' \<and> st_heap (w_stats w) cs = Some n \<and> st_heap (w_stats w') cs = Some n' \<and>
    live_connections n' = live_connections n \<and> total_connections n' = total_connections n"
proof -
  obtain w' n where r: "conn_close a w = Ok w'" "st_heap (w_stats w) cs = Some n"
    "w_stats w' = (w_stats w)\<lparr>st_heap := (st_heap (w_stats w))(cs \<mapsto> n\<lparr>cs_refcnt := refcount_decr (cs_refcnt n)\<rparr>)\<rparr>"
    using conn_close_ok [OF assms] by blast
  then show ?thesis
    by (intro exI [of _ w'] exI [of _ n] exI [of _ "n\<lparr>cs_refcnt := refcount_decr (cs_refcnt n)\<rparr>"]) simp
qed

text \<open>
  The free list is a stack that never hands out a connection twice: after a connection was given back,
  the next one taken is that connection, and it is no longer on the list.
\<close>

lemma conn_freelist_lifo:
  assumes "free_inv f" and "conn_add_to_freelist e f a = Ok (True, e', f')" and "distinct (free_content f)"
    and "a \<notin> set (free_content f)"
  shows "\<exists>f''. conn_from_freelist f' = Ok (Some a, f'') \<and> free_inv f'' \<and> free_content f'' = free_content f \<and>
    a \<notin> set (free_content f'')"
  by (rule freelist.put_get [OF assms])

end
