(* ===== verification/Memcache_Conn.thy ===== *)
theory Memcache_Conn
  imports Pool
begin

text \<open>
  \<open>memcache_conn.c\<close>: connections to memcached backends. A backend connection keeps the client
  connections that wait for a response in the queue \<open>rpc\<close>, oldest first; each response belongs to the
  oldest request, and the last response a client waits for wakes it up.

  The outcome of resolving and connecting is the parameter \<open>net\<close>.
\<close>

text \<open>Run on the connection at an address.\<close>

definition with_conn :: "world \<Rightarrow> addr \<Rightarrow> (conn \<Rightarrow> 'a res) \<Rightarrow> 'a res" where
  "with_conn w a f = (case w_conns w a of None \<Rightarrow> Err NullDeref | Some c \<Rightarrow> f c)"

lemma with_conn_Some [simp]: "w_conns w a = Some c \<Longrightarrow> with_conn w a f = f c"
  by (simp add: with_conn_def)

section \<open>Connecting\<close>

datatype net_result =
    NoAddress            \<comment> \<open>\<open>getaddrinfo\<close> failed\<close>
  | NoSocket             \<comment> \<open>\<open>socket\<close> failed\<close>
  | Refused int          \<comment> \<open>\<open>connect\<close> failed on this descriptor\<close>
  | Blocking int         \<comment> \<open>\<open>fcntl\<close> failed on this descriptor\<close>
  | Connected int

definition memcache_port :: string where "memcache_port = ''11211''"

text \<open>The host and the port of a backend: \<open>memchr\<close> for a colon in the string.\<close>

definition split_host :: "string \<Rightarrow> string \<times> string" where
  "split_host h =
     (let k = length (takeWhile (\<lambda>x. x \<noteq> CHR '':'') h) in
      if k = length h then (h, memcache_port) else (take k h, drop (k + 1) h))"

text \<open>
  Connect to a memcache server. The port is split off in place, so the host string of the
  configuration loses it. A descriptor on which \<open>connect\<close> fails is not closed.
\<close>

definition memcache_connect ::
  "(string \<Rightarrow> string \<Rightarrow> net_result) \<Rightarrow> world \<Rightarrow> nat \<Rightarrow> (addr option \<times> world) res"
where
  "memcache_connect net w i =
     (case hosts (s_backends (config w)) of
        None \<Rightarrow> Err NullDeref
      | Some hs \<Rightarrow>
          if length hs \<le> i then Err OutOfBounds
          else
            (case split_host (hs ! i) of (host, port) \<Rightarrow>
             let w = w\<lparr>config := (config w)\<lparr>s_backends := (s_backends (config w))\<lparr>hosts := Some (hs[i := host])\<rparr>\<rparr>\<rparr> in
             case net host port of
               NoAddress \<Rightarrow> Ok (None, w)
             | NoSocket \<Rightarrow> Ok (None, w)
             | Refused fd \<Rightarrow> Ok (None, w)
             | Blocking fd \<Rightarrow> Ok (None, close_fd fd w)
             | Connected fd \<Rightarrow> conn_new w memcached_conn 0 fd conn_new_cmd EV_READ_PERSIST DATA_BUFFER_SIZE))"

section \<open>Requests\<close>

text \<open>The three pieces of a request; \<open>keylen\<close> is \<open>strnlen(key, KEY_MAX_LENGTH)\<close>.\<close>

definition add_request :: "env \<Rightarrow> conn \<Rightarrow> string \<Rightarrow> (bool \<times> env \<times> conn) res" where
  "add_request e mc key =
     bindR (conn_add_iov e mc ''get '' 4) (\<lambda>(ok, e, mc).
       if \<not> ok then Ok (False, e, mc)
       else bindR (conn_add_iov e mc key (int (min (length key) KEY_MAX_LENGTH))) (\<lambda>(ok, e, mc).
         if \<not> ok then Ok (False, e, mc)
         else conn_add_iov e mc CRLF 2))"

text \<open>
  Get a memcache value associated with the given key. The result of \<open>conn_ensure_rpc_space\<close> is
  ignored, and the client is told of a failure only when the server is verbose.
\<close>

definition memcache_get :: "world \<Rightarrow> addr \<Rightarrow> addr \<Rightarrow> string \<Rightarrow> (bool \<times> world) res" where
  "memcache_get w m a key =
     with_conn w m (\<lambda>mc.
     bindR (add_request (w_env w) mc key) (\<lambda>(ok, e, mc).
     let w = put_conn m mc (w\<lparr>w_env := e\<rparr>) in
     if \<not> ok then
       if verbose (config w) > 0 then
         with_conn w a (\<lambda>c.
           bindR (error_response e c ''SERVER_ERROR out of memory performing backend rpc'') (\<lambda>(e, c).
             Ok (False, put_conn a c (w\<lparr>w_env := e\<rparr>))))
       else Ok (False, w)
     else
       bindR (conn_ensure_rpc_space e mc) (\<lambda>(_, e, mc).
       if rpcused mc < length (rpc mc) then
         let w = put_conn m (mc\<lparr>rpc := (rpc mc)[rpcused mc := a], rpcused := rpcused mc + 1\<rparr>) (w\<lparr>w_env := e\<rparr>) in
         with_conn w a (\<lambda>c.
         let w = put_conn a (c\<lparr>rpcwaiting := i32 (rpcwaiting c + 1)\<rparr>) w in
         with_conn w m (\<lambda>mc.
         bindR (conn_set_state mc conn_mwrite) (\<lambda>mc.
         case conn_update_event (w_env w) mc EV_WRITE_PERSIST of (ok, e, mc) \<Rightarrow>
           if \<not> ok then bindR (conn_set_state mc conn_closing) (\<lambda>mc. Ok (False, put_conn m mc (w\<lparr>w_env := e\<rparr>)))
           else Ok (True, put_conn m mc (w\<lparr>w_env := e\<rparr>)))))
       else Err OutOfBounds)))"

section \<open>Responses\<close>

text \<open>
  The common part of both responses: the oldest request is done, and its client is woken up when it waits
  for no other.
\<close>

definition rpc_answered :: "world \<Rightarrow> addr \<Rightarrow> world res" where
  "rpc_answered w m =
     with_conn w m (\<lambda>mc.
     if length (rpc mc) \<le> rpcdone mc then Err OutOfBounds
     else
       let a = rpc mc ! rpcdone mc;
           w = put_conn m (mc\<lparr>rpcdone := rpcdone mc + 1\<rparr>) w in
       with_conn w a (\<lambda>c.
       let c = c\<lparr>rpcwaiting := i32 (rpcwaiting c - 1)\<rparr> in
       if rpcwaiting c = 0 then
         (case conn_update_event (w_env w) c EV_WRITE_PERSIST of (ok, e, c) \<Rightarrow>
            bindR (conn_set_state c (if \<not> ok then conn_closing else conn_rpc_done)) (\<lambda>c.
              Ok (put_conn a c (w\<lparr>w_env := e\<rparr>))))
       else Ok (put_conn a c w)))"

text \<open>Process a hit response to a get rpc: swallow the value, its CRLF and the END line.\<close>

definition process_hit_response :: "world \<Rightarrow> addr \<Rightarrow> token_t list \<Rightarrow> world res" where
  "process_hit_response w m tokens =
     bindR (rpc_answered w m) (\<lambda>w.
     with_conn w m (\<lambda>mc.
     if length tokens < 4 then Err OutOfBounds
     else case tvalue (tokens ! 3) of
         None \<Rightarrow> Err NullDeref
       | Some _ \<Rightarrow>
           (case safe_strtol (token_text (rbuf mc) (tokens ! 3)) of (ok, vlen) \<Rightarrow>
              if \<not> ok then Err (Exit 1)
              else bindR (conn_set_state (mc\<lparr>sbytes := i32 (vlen + 7)\<rparr>) conn_swallow) (\<lambda>mc.
                Ok (put_conn m mc w)))))"

text \<open>Process a miss response to a get rpc.\<close>

definition process_miss_response :: "world \<Rightarrow> addr \<Rightarrow> world res" where
  "process_miss_response w m =
     bindR (rpc_answered w m) (\<lambda>w.
     with_conn w m (\<lambda>mc.
     bindR (conn_set_state mc conn_new_cmd) (\<lambda>mc. Ok (put_conn m mc w))))"

text \<open>Parse a single memcached response; \<open>False\<close> for one that is not understood.\<close>

definition memcached_response :: "world \<Rightarrow> addr \<Rightarrow> nat \<Rightarrow> (bool \<times> world) res" where
  "memcached_response w m p =
     with_conn w m (\<lambda>mc.
     bindR (tokenize_command (rbuf mc) p MAX_TOKENS) (\<lambda>(tokens, b).
     let w = put_conn m (mc\<lparr>rbuf := b\<rparr>) w; ntokens = length tokens;
         cmd = token_text b (tokens ! COMMAND_TOKEN) in
     if ntokens \<ge> 5 \<and> cmd = ''VALUE'' then bindR (process_hit_response w m tokens) (\<lambda>w. Ok (True, w))
     else if ntokens \<ge> 2 \<and> cmd = ''END'' then bindR (process_miss_response w m) (\<lambda>w. Ok (True, w))
     else Ok (False, w)))"

section \<open>Matching responses to requests\<close>

lemma rpc_pending_head:
  assumes "rpc_ok mc" "rpc_pending mc = a # as"
  shows "rpcdone mc < length (rpc mc)" "rpc mc ! rpcdone mc = a"
    "rpc_pending (mc\<lparr>rpcdone := rpcdone mc + 1\<rparr>) = as" "rpc_ok (mc\<lparr>rpcdone := rpcdone mc + 1\<rparr>)"
proof -
  have lt: "rpcdone mc < rpcused mc" using assms(2) by (cases "rpcdone mc < rpcused mc") (auto simp: rpc_pending_def)
  then show len: "rpcdone mc < length (rpc mc)" using assms(1) by (simp add: rpc_ok_def)
  have "rpcused mc - rpcdone mc = Suc (rpcused mc - Suc (rpcdone mc))" using lt by simp
  then have "rpc_pending mc = rpc mc ! rpcdone mc # take (rpcused mc - Suc (rpcdone mc)) (drop (Suc (rpcdone mc)) (rpc mc))"
    using len by (simp add: rpc_pending_def Cons_nth_drop_Suc [symmetric])
  then show "rpc mc ! rpcdone mc = a" "rpc_pending (mc\<lparr>rpcdone := rpcdone mc + 1\<rparr>) = as"
    using assms(2) by (simp_all add: rpc_pending_def)
  show "rpc_ok (mc\<lparr>rpcdone := rpcdone mc + 1\<rparr>)" using assms(1) lt by (simp add: rpc_ok_def)
qed

lemma rpc_pending_update [simp]:
  "rpc_pending (mc\<lparr>rbuf := b\<rparr>) = rpc_pending mc" "rpc_pending (mc\<lparr>c_state := st\<rparr>) = rpc_pending mc"
  "rpc_pending (mc\<lparr>sbytes := k\<rparr>) = rpc_pending mc" "rpc_pending (mc\<lparr>ev_flags := fl\<rparr>) = rpc_pending mc"
  "rpc_ok (mc\<lparr>rbuf := b\<rparr>) = rpc_ok mc" "rpc_ok (mc\<lparr>c_state := st\<rparr>) = rpc_ok mc"
  "rpc_ok (mc\<lparr>sbytes := k\<rparr>) = rpc_ok mc" "rpc_ok (mc\<lparr>ev_flags := fl\<rparr>) = rpc_ok mc"
  by (simp_all add: rpc_pending_def rpc_ok_def)

text \<open>
  Whether libevent lets a connection wait for the given events: nothing has to change, or the next two calls succeed.
\<close>

definition can_await :: "env \<Rightarrow> conn \<Rightarrow> int \<Rightarrow> bool" where
  "can_await e c fl \<longleftrightarrow> ev_flags c = fl \<or> event_ok e (events e) \<and> event_ok e (Suc (events e))"

lemma conn_update_event_iff: "conn_update_event e c fl = (ok, e', c') \<Longrightarrow> ok = can_await e c fl"
  by (auto simp: conn_update_event_def conn_update_event_t_def event_call_def can_await_def split: if_splits)

text \<open>The client after one of its requests was answered.\<close>

definition answered :: "env \<Rightarrow> conn \<Rightarrow> conn \<Rightarrow> bool" where
  "answered e c c' \<longleftrightarrow>
     rpcwaiting c' = rpcwaiting c - 1 \<and>
     (if rpcwaiting c = 1
      then if can_await e c EV_WRITE_PERSIST then c' = c\<lparr>rpcwaiting := 0, ev_flags := EV_WRITE_PERSIST, c_state := conn_rpc_done\<rparr>
           else c_state c' = conn_closing
      else c' = c\<lparr>rpcwaiting := rpcwaiting c - 1\<rparr>)"

lemma rpc_answered_ok:
  assumes "w_conns w m = Some mc" "rpc_ok mc" "rpc_pending mc = a # as" "w_conns w a = Some c" "a \<noteq> m"
    and "0 < rpcwaiting c" "rpcwaiting c \<le> INT_MAX"
  shows "\<exists>w' c'. rpc_answered w m = Ok w' \<and> w_conns w' m = Some (mc\<lparr>rpcdone := rpcdone mc + 1\<rparr>) \<and>
    w_conns w' a = Some c' \<and> answered (w_env w) c c' \<and> (\<forall>b. b \<noteq> m \<longrightarrow> b \<noteq> a \<longrightarrow> w_conns w' b = w_conns w b)"
proof -
  note h = rpc_pending_head [OF assms(2,3)]
  let ?c = "c\<lparr>rpcwaiting := rpcwaiting c - 1\<rparr>"
  define w1 where "w1 = put_conn m (mc\<lparr>rpcdone := Suc (rpcdone mc)\<rparr>) w"
  have w1: "w_conns w1 a = Some c" "w_conns w1 m = Some (mc\<lparr>rpcdone := rpcdone mc + 1\<rparr>)"
    "\<forall>b. b \<noteq> m \<longrightarrow> w_conns w1 b = w_conns w b"
    using assms(4,5) by (simp_all add: w1_def put_conn_def)
  have dec: "i32 (rpcwaiting c - 1) = rpcwaiting c - 1" using assms(6,7) by simp
  show ?thesis
  proof (cases "rpcwaiting c = 1")
    case False
    then have "rpc_answered w m = Ok (put_conn a ?c w1)"
      using assms(1) h(1,2) w1(1) dec by (simp add: rpc_answered_def Let_def w1_def [symmetric])
    then show ?thesis using False w1 assms(5)
      by (intro exI [of _ "put_conn a ?c w1"] exI [of _ ?c]) (simp add: put_conn_def answered_def)
  next
    case True
    obtain ok e c2 where u: "conn_update_event (w_env w1) ?c EV_WRITE_PERSIST = (ok, e, c2)"
      by (cases "conn_update_event (w_env w1) ?c EV_WRITE_PERSIST") auto
    define c3 where "c3 = c2\<lparr>c_state := (if \<not> ok then conn_closing else conn_rpc_done)\<rparr>"
    have ok: "ok = can_await (w_env w) c EV_WRITE_PERSIST"
      using conn_update_event_iff [OF u] by (simp add: can_await_def w1_def put_conn_def)
    have c2: "rpcwaiting c2 = 0" "ok \<longrightarrow> c2 = ?c\<lparr>ev_flags := EV_WRITE_PERSIST\<rparr>"
      using u True conn_update_event_ok [of "w_env w1" ?c EV_WRITE_PERSIST e c2] by (auto elim!: conn_update_event_cases)
    have "rpc_answered w m = Ok (put_conn a c3 (w1\<lparr>w_env := e\<rparr>))"
      using assms(1) h(1,2) w1(1) True u by (simp add: rpc_answered_def Let_def w1_def [symmetric] c3_def)
    moreover have "answered (w_env w) c c3" using True c2 ok by (auto simp: answered_def c3_def)
    ultimately show ?thesis using w1 assms(5)
      by (intro exI [of _ "put_conn a c3 (w1\<lparr>w_env := e\<rparr>)"] exI [of _ c3]) (simp add: put_conn_def)
  qed
qed

text \<open>A response line as the two handlers see it.\<close>

lemma response_tokens:
  assumes "NUL \<in> set (drop p b)" and "words (cstr (drop p b)) = w # ks"
  obtains toks b' where "tokenize_command b p MAX_TOKENS = Ok (toks, b')" "token_text b' (toks ! COMMAND_TOKEN) = w"
    "length toks = min 7 (length (w # ks)) + 1"
    "\<forall>i < length toks - 1. token_text b' (toks ! i) = (w # ks) ! i \<and> tvalue (toks ! i) \<noteq> None"
proof -
  let ?hi = "p + length (cstr (drop p b))"
  obtain toks b' ws rest where t: "tokenize_command b p MAX_TOKENS = Ok (toks, b')"
    "tokens_for b' p ?hi toks (w # ws) rest" "ks = ws @ words rest" "same_outside p ?hi b b'"
    "?hi < length b'" "b' ! ?hi = NUL" "token_text b' (toks ! COMMAND_TOKEN) = w"
    "length toks = min 7 (length (w # ks)) + 1"
    "\<forall>i < length (w # ws). token_text b' (toks ! i) = (w # ws) ! i \<and> tlength (toks ! i) = length ((w # ws) ! i) \<and>
       tvalue (toks ! i) \<noteq> None" "length toks = length ws + 2"
    using parse_command_tokens [OF assms] .
  have "token_text b' (toks ! i) = (w # ks) ! i \<and> tvalue (toks ! i) \<noteq> None" if "i < length toks - 1" for i
  proof -
    have i: "i < length (w # ws)" using that t(10) by simp
    then have "(w # ks) ! i = (w # ws) ! i" using t(3) nth_append [of "w # ws" "words rest" i] by simp
    then show ?thesis using t(9) i by simp
  qed
  then show ?thesis using that t(1,7,8) by blast
qed

section \<open>Properties\<close>

text \<open>
  C16. A response is matched to the oldest request in flight. For a miss (\<open>END\<close>) and for a hit
  (\<open>VALUE key flags length\<close>) that request leaves the queue, its client waits for one response less and is
  woken up exactly when it waits for none any more: it is then in \<open>conn_rpc_done\<close> and waits for its socket to accept
  output, and only if libevent refuses that, it is to be closed. Nothing else of it changes. On a hit the value, its CRLF and the END line are going to
  be swallowed. No other connection changes.
\<close>

theorem memcached_response_matches:
  assumes "w_conns w m = Some mc" and "rpc_ok mc" and "rpc_pending mc = a # as" and "w_conns w a = Some c" and "a \<noteq> m"
    and "0 < rpcwaiting c" and "rpcwaiting c \<le> INT_MAX"
    and "NUL \<in> set (drop p (rbuf mc))" and "words (cstr (drop p (rbuf mc))) = ws"
    and "hd ws = ''END'' \<and> ws \<noteq> [] \<or> hd ws = ''VALUE'' \<and> 4 \<le> length ws \<and> safe_strtol (ws ! 3) = (True, vlen)"
  shows "\<exists>w' mc' c'. memcached_response w m p = Ok (True, w') \<and> w_conns w' m = Some mc' \<and> w_conns w' a = Some c' \<and>
    rpc_pending mc' = as \<and> rpcwaiting c' = rpcwaiting c - 1 \<and>
    (if rpcwaiting c = 1
     then if can_await (w_env w) c EV_WRITE_PERSIST
          then c' = c\<lparr>rpcwaiting := 0, ev_flags := EV_WRITE_PERSIST, c_state := conn_rpc_done\<rparr>
          else c_state c' = conn_closing
     else c' = c\<lparr>rpcwaiting := rpcwaiting c - 1\<rparr>) \<and>
    (if hd ws = ''END'' then c_state mc' = conn_new_cmd else c_state mc' = conn_swallow \<and> sbytes mc' = i32 (vlen + 7)) \<and>
    (\<forall>b. b \<noteq> m \<longrightarrow> b \<noteq> a \<longrightarrow> w_conns w' b = w_conns w b)"
proof -
  obtain v ks where ws: "ws = v # ks" using assms(10) by (cases ws) auto
  obtain toks b where t: "tokenize_command (rbuf mc) p MAX_TOKENS = Ok (toks, b)" "token_text b (toks ! COMMAND_TOKEN) = v"
    "length toks = min 7 (length (v # ks)) + 1"
    "\<forall>i < length toks - 1. token_text b (toks ! i) = (v # ks) ! i \<and> tvalue (toks ! i) \<noteq> None"
    using response_tokens [OF assms(8), of v ks] assms(9) ws by metis
  define w1 where "w1 = put_conn m (mc\<lparr>rbuf := b\<rparr>) w"
  have w1: "w_conns w1 m = Some (mc\<lparr>rbuf := b\<rparr>)" "w_conns w1 a = Some c" "\<forall>k. k \<noteq> m \<longrightarrow> w_conns w1 k = w_conns w k"
    using assms(4,5) by (simp_all add: w1_def put_conn_def)
  define mc1 where "mc1 = mc\<lparr>rbuf := b, rpcdone := rpcdone mc + 1\<rparr>"
  obtain w2 c' where w2: "rpc_answered w1 m = Ok w2" "w_conns w2 m = Some mc1" "w_conns w2 a = Some c'" "answered (w_env w) c c'"
    "\<forall>k. k \<noteq> m \<longrightarrow> k \<noteq> a \<longrightarrow> w_conns w2 k = w_conns w1 k"
    using rpc_answered_ok [OF w1(1) _ _ w1(2) assms(5-7), of as] assms(2,3) by (auto simp: mc1_def w1_def put_conn_def)
  have pend: "rpc_pending mc1 = as"
    using rpc_pending_head(3) [of "mc\<lparr>rbuf := b\<rparr>" a as] assms(2,3) by (simp add: mc1_def)
  have n2: "2 \<le> length toks" using t(3) by simp
  define mc2 where "mc2 = (if v = ''END'' then mc1\<lparr>c_state := conn_new_cmd\<rparr>
      else mc1\<lparr>sbytes := i32 (vlen + 7), c_state := conn_swallow\<rparr>)"
  have res: "memcached_response w m p = Ok (True, put_conn m mc2 w2)"
  proof (cases "v = ''END''")
    case True
    then show ?thesis using assms(1) t(1,2) n2 w2(1,2)
      by (simp add: memcached_response_def process_miss_response_def Let_def w1_def [symmetric] mc2_def)
  next
    case False
    then have hit: "v = ''VALUE''" "4 \<le> length (v # ks)" "safe_strtol ((v # ks) ! 3) = (True, vlen)"
      using assms(10) ws by auto
    then have "5 \<le> length toks" "token_text (rbuf mc1) (toks ! 3) = (v # ks) ! 3" "tvalue (toks ! 3) \<noteq> None"
      using t(3,4) by (auto simp: mc1_def min_def)
    then show ?thesis using assms(1) t(1,2) w2(1,2) hit
      by (auto simp: memcached_response_def process_hit_response_def Let_def w1_def [symmetric] mc2_def)
  qed
  have "w_conns (put_conn m mc2 w2) m = Some mc2" "w_conns (put_conn m mc2 w2) a = Some c'"
    "\<forall>k. k \<noteq> m \<longrightarrow> k \<noteq> a \<longrightarrow> w_conns (put_conn m mc2 w2) k = w_conns w k"
    using w2(3,5) w1(3) assms(5) by (simp_all add: put_conn_def)
  moreover have "rpc_pending mc2 = as" using pend by (simp add: mc2_def)
  moreover have "if hd ws = ''END'' then c_state mc2 = conn_new_cmd else c_state mc2 = conn_swallow \<and> sbytes mc2 = i32 (vlen + 7)"
    by (simp add: ws mc2_def)
  ultimately show ?thesis using res w2(4)
    by (intro exI [of _ "put_conn m mc2 w2"] exI [of _ mc2] exI [of _ c'] conjI) (simp_all add: answered_def)
qed

text \<open>A backend connection at address 1 with a request of the client connection at address 2 in flight.\<close>

definition rpc_mc :: "string \<Rightarrow> conn" where
  "rpc_mc b = ready_conn b\<lparr>c_type := memcached_conn, rpc := [2, 0], rpcsize := 2, rpcused := 1\<rparr>"

definition rpc_world :: "string \<Rightarrow> world" where
  "rpc_world b = world0\<lparr>w_conns := [1 \<mapsto> rpc_mc b, 2 \<mapsto> ready_conn []\<lparr>rpcwaiting := 1\<rparr>], w_fresh := 3\<rparr>"

lemma rpc_world_conns:
  "w_conns (rpc_world b) 1 = Some (rpc_mc b)" "w_conns (rpc_world b) 2 = Some (ready_conn []\<lparr>rpcwaiting := 1\<rparr>)"
  "rpc_ok (rpc_mc b)" "rpc_pending (rpc_mc b) = [2]" "rbuf (rpc_mc b) = b"
  by (simp_all add: rpc_world_def rpc_mc_def rpc_ok_def rpc_pending_def ready_conn_def zero_conn_def)

theorem memcached_response_matches_witness:
  "\<exists>w' mc' c'. memcached_response (rpc_world (''VALUE key 0 5'' @ [NUL])) 1 0 = Ok (True, w') \<and>
     w_conns w' 1 = Some mc' \<and> w_conns w' 2 = Some c' \<and> rpc_pending mc' = [] \<and> rpcwaiting c' = 0 \<and>
     c_state c' = conn_rpc_done \<and> sbytes mc' = 12"
proof -
  let ?b = "''VALUE key 0 5'' @ [NUL]"
  have w: "words (cstr (drop 0 (rbuf (rpc_mc ?b)))) = [''VALUE'', ''key'', ''0'', ''5'']" "NUL \<in> set (drop 0 (rbuf (rpc_mc ?b)))"
    unfolding rpc_world_conns(5) by (simp_all add: words_def)
  have v: "safe_strtol ''5'' = (True, 5)"
    by (simp add: safe_strtol_def strtol_def isspace_def isdigit_def digit_val_def char_at_def Let_def)
  have "can_await (w_env (rpc_world ?b)) c EV_WRITE_PERSIST" for c
    by (simp add: can_await_def rpc_world_def world0_def calm_env_def)
  then show ?thesis
    using memcached_response_matches [OF rpc_world_conns(1,3,4,2) _ _ _ w(2,1), of 5] v by auto
qed

text \<open>The fields of a connection that a queued request leaves alone.\<close>

lemma rpc_pending_push:
  assumes "rpc_ok mc" "rpcused mc < rpcsize mc"
  shows "rpc_pending (mc\<lparr>rpc := (rpc mc)[rpcused mc := a], rpcused := rpcused mc + 1\<rparr>) = rpc_pending mc @ [a]"
    and "rpc_ok (mc\<lparr>rpc := (rpc mc)[rpcused mc := a], rpcused := rpcused mc + 1\<rparr>)"
proof -
  have d: "rpcdone mc \<le> rpcused mc" "rpcused mc < length (rpc mc)" using assms by (simp_all add: rpc_ok_def)
  have "take (Suc (rpcused mc - rpcdone mc)) ((drop (rpcdone mc) (rpc mc))[rpcused mc - rpcdone mc := a]) =
      take (rpcused mc - rpcdone mc) (drop (rpcdone mc) (rpc mc)) @ [a]"
    using d by (intro take_update_last) simp
  then show "rpc_pending (mc\<lparr>rpc := (rpc mc)[rpcused mc := a], rpcused := rpcused mc + 1\<rparr>) = rpc_pending mc @ [a]"
    using d(1) by (simp add: rpc_pending_def drop_update_swap Suc_diff_le del: take_Suc)
  show "rpc_ok (mc\<lparr>rpc := (rpc mc)[rpcused mc := a], rpcused := rpcused mc + 1\<rparr>)"
    using assms by (simp add: rpc_ok_def)
qed

lemma add_request_rep:
  assumes "out_rep mc msgs" "msgs \<noteq> []" "mem_ok e"
  obtains e' mc' ms where "add_request e mc key = Ok (True, e', mc')" "same_out mc mc'" "out_rep mc' ms" "mem_ok e'"
    "out_data ms = out_data msgs @ ''get '' @ take KEY_MAX_LENGTH key @ CRLF"
proof -
  let ?n = "int (min (length key) KEY_MAX_LENGTH)"
  obtain ok1 e1 c1 m1 where 1: "conn_add_iov e mc ''get '' 4 = Ok (ok1, e1, c1)" "same_out mc c1" "out_rep c1 m1" "m1 \<noteq> []"
    "mem_ok e \<longrightarrow> ok1 \<and> mem_ok e1" "ok1 \<longrightarrow> added msgs ''get '' 4 m1"
    using conn_add_iov_rep [OF assms(1,2), of 4 e "''get ''"] by auto
  obtain ok2 e2 c2 m2 where 2: "conn_add_iov e1 c1 key ?n = Ok (ok2, e2, c2)" "same_out c1 c2" "out_rep c2 m2" "m2 \<noteq> []"
    "mem_ok e1 \<longrightarrow> ok2 \<and> mem_ok e2" "ok2 \<longrightarrow> added m1 key (min (length key) KEY_MAX_LENGTH) m2"
    using conn_add_iov_rep [OF 1(3,4), of ?n e1 key] by auto
  obtain ok3 e3 c3 m3 where 3: "conn_add_iov e2 c2 CRLF 2 = Ok (ok3, e3, c3)" "same_out c2 c3" "out_rep c3 m3"
    "mem_ok e2 \<longrightarrow> ok3 \<and> mem_ok e3" "ok3 \<longrightarrow> added m2 CRLF 2 m3"
    using conn_add_iov_rep [OF 2(3,4), of 2 e2 CRLF] by auto
  have ok: "ok1" "ok2" "ok3" "mem_ok e3" using 1(5) 2(5) 3(4) assms(3) by auto
  have "add_request e mc key = Ok (True, e3, c3)" using 1(1) 2(1) 3(1) ok by (simp add: add_request_def)
  moreover have "out_data m3 = out_data msgs @ ''get '' @ take KEY_MAX_LENGTH key @ CRLF"
    using 1(6) 2(6) 3(5) ok by (auto simp: added_def min_def)
  moreover have "same_out mc c3" using 1(2) 2(2) 3(2) same_out_trans by metis
  ultimately show ?thesis using that 3(3) ok(4) by blast
qed

text \<open>
  C27. With memory, a backend request is appended to the pending output of the backend connection as \<open>get key\<close> with the
  key cut to \<open>KEY_MAX_LENGTH\<close> bytes, the client waits for one response more, and the backend connection is
  to be written. The client is put at the end of the queue of requests in flight. Those before it stay as they were when
  the queue has room, when it is full of requests in flight and grows, and when nothing is in flight; when a full
  queue is compacted, as many entries remain, but only the first eighth of them is sure to be the old one.
\<close>

theorem memcache_get_queues:
  assumes "w_conns w m = Some mc" and "w_conns w a = Some c" and "a \<noteq> m" and "mem_ok (w_env w)"
    and "out_rep mc msgs" and "msgs \<noteq> []" and "rpc_ok mc" and "c_type mc = memcached_conn"
    and "0 \<le> rpcwaiting c" and "rpcwaiting c < INT_MAX"
  shows "\<exists>ok w' mc' c' ms ps. memcache_get w m a key = Ok (ok, w') \<and> w_conns w' m = Some mc' \<and> w_conns w' a = Some c' \<and>
    rpc_ok mc' \<and> rpc_pending mc' = ps @ [a] \<and> length ps = length (rpc_pending mc) \<and>
    take (length ps div 8) ps = take (length ps div 8) (rpc_pending mc) \<and>
    (rpcused mc < rpcsize mc \<or> rpcdone mc = 0 \<or> rpcdone mc = rpcused mc \<longrightarrow> ps = rpc_pending mc) \<and>
    c' = c\<lparr>rpcwaiting := rpcwaiting c + 1\<rparr> \<and>
    c_state mc' = (if ok then conn_mwrite else conn_closing) \<and> (ok \<longrightarrow> ev_flags mc' = EV_WRITE_PERSIST) \<and>
    out_rep mc' ms \<and> out_data ms = out_data msgs @ ''get '' @ take KEY_MAX_LENGTH key @ CRLF \<and>
    (\<forall>b. b \<noteq> m \<longrightarrow> b \<noteq> a \<longrightarrow> w_conns w' b = w_conns w b)"
proof -
  obtain e0 mc0 ms where r: "add_request (w_env w) mc key = Ok (True, e0, mc0)" "same_out mc mc0" "out_rep mc0 ms" "mem_ok e0"
    "out_data ms = out_data msgs @ ''get '' @ take KEY_MAX_LENGTH key @ CRLF"
    using add_request_rep [OF assms(5,6,4)] .
  note f = same_out_fields [OF r(2)]
  have mc0: "rpc_ok mc0" "c_type mc0 = memcached_conn" "kept_requests mc0 = kept_requests mc"
    using assms(7,8) f by (simp_all add: rpc_ok_def kept_requests_def rpc_pending_def)
  obtain e1 mc1 where sp: "conn_ensure_rpc_space e0 mc0 = Ok (True, e1, mc1)" "rpc_ok mc1" "rpcused mc1 < rpcsize mc1"
    "rpc_pending mc1 = kept_requests mc"
    "mc1 = mc0\<lparr>rpc := rpc mc1, rpcsize := rpcsize mc1, rpcused := rpcused mc1, rpcdone := rpcdone mc1\<rparr>"
    using conn_ensure_rpc_space_ok [OF mc0(1,2) r(4)] mc0(3) by metis
  have room: "rpcused mc1 < length (rpc mc1)" using sp(2,3) by (simp add: rpc_ok_def)
  have rep: "out_rep mc1 ms" by (subst sp(5)) (use r(3) in \<open>simp add: out_rep_def\<close>)
  define mc2 where "mc2 = mc1\<lparr>rpc := (rpc mc1)[rpcused mc1 := a], rpcused := rpcused mc1 + 1, c_state := conn_mwrite\<rparr>"
  obtain ok e2 mc3 where u: "conn_update_event e1 mc2 EV_WRITE_PERSIST = (ok, e2, mc3)"
    by (cases "conn_update_event e1 mc2 EV_WRITE_PERSIST") auto
  then have mc3: "mc3 = mc2 \<or> mc3 = mc2\<lparr>ev_flags := EV_WRITE_PERSIST\<rparr>" "ok \<longrightarrow> ev_flags mc3 = EV_WRITE_PERSIST"
    by (auto elim!: conn_update_event_cases)
  define mc4 where "mc4 = (if ok then mc3 else mc3\<lparr>c_state := conn_closing\<rparr>)"
  let ?c = "c\<lparr>rpcwaiting := rpcwaiting c + 1\<rparr>"
  define w' where "w' = put_conn m mc4 (put_conn a ?c (put_conn m (mc1\<lparr>rpc := (rpc mc1)[rpcused mc1 := a],
      rpcused := rpcused mc1 + 1\<rparr>) (put_conn m mc0 (w\<lparr>w_env := e0\<rparr>)\<lparr>w_env := e1\<rparr>))\<lparr>w_env := e2\<rparr>)"
  have inc: "i32 (rpcwaiting c + 1) = rpcwaiting c + 1" using assms(9,10) by simp
  have "memcache_get w m a key = Ok (ok, w')"
    using assms(1-3) r(1) sp(1) room u inc
    by (simp add: memcache_get_def put_conn_def with_conn_def Let_def w'_def mc4_def mc2_def)
  moreover have "w_conns w' m = Some mc4" "w_conns w' a = Some ?c" "\<forall>b. b \<noteq> m \<longrightarrow> b \<noteq> a \<longrightarrow> w_conns w' b = w_conns w b"
    using assms(3) by (simp_all add: w'_def put_conn_def)
  moreover have "rpc_pending mc4 = kept_requests mc @ [a]" "rpc_ok mc4"
    using rpc_pending_push [OF sp(2,3), of a] mc3(1) sp(4) by (auto simp: mc4_def mc2_def)
  moreover have "c_state mc4 = (if ok then conn_mwrite else conn_closing)" "ok \<longrightarrow> ev_flags mc4 = EV_WRITE_PERSIST"
    using mc3 by (auto simp: mc4_def mc2_def)
  moreover have "out_rep mc4 ms" using mc3(1) rep by (auto simp: mc4_def mc2_def out_rep_def)
  ultimately show ?thesis using r(5) kept_requests_some [OF assms(7)]
    by (intro exI [of _ ok] exI [of _ w'] exI [of _ mc4] exI [of _ ?c] exI [of _ ms] exI [of _ "kept_requests mc"]) simp
qed

theorem memcache_get_queues_witness:
  "\<exists>ok w' mc'. memcache_get (rpc_world []) 1 2 ''skeleton'' = Ok (ok, w') \<and> w_conns w' 1 = Some mc' \<and>
     rpc_pending mc' = [2, 2]"
proof -
  have "out_rep (rpc_mc []) [[]]" "mem_ok (w_env (rpc_world []))"
    using ready_conn_ok(1) [of "[]"] world0_inv(2) by (simp_all add: out_rep_def rpc_mc_def rpc_world_def)
  moreover have "c_type (rpc_mc []) = memcached_conn" "rpcused (rpc_mc []) < rpcsize (rpc_mc [])"
    by (simp_all add: rpc_mc_def)
  ultimately show ?thesis
    using memcache_get_queues [OF rpc_world_conns(1,2), of "[]" "[[]]" "''skeleton''"] rpc_world_conns(3,4) [of "[]"] by auto
qed

section \<open>What opening a connection leaves alone\<close>

lemma conn_alloc_rest: "conn_alloc w rb = (p, w') \<Longrightarrow> same_rest w w'"
  by (auto simp: conn_alloc_def alloc_def Let_def conn_free_def put_conn_def same_rest_def split: if_splits)

lemma conn_release_rest: "conn_release a w = Ok w' \<Longrightarrow> same_rest w w'"
  by (auto simp: conn_release_def conn_free_def same_rest_def Let_def split: if_splits)

lemma same_rest_put: "same_rest w (put_conn a c (set_stats s (w\<lparr>w_env := e\<rparr>)))"
  by (simp add: same_rest_def put_conn_def set_stats_def)

lemma conn_new_rest:
  assumes "conn_new w ty i fd st fl rb = Ok (p, w')"
  shows "same_rest w w'"
proof -
  obtain q f where q: "conn_from_freelist (w_free w) = Ok (q, f)"
    using assms by (auto simp: conn_new_def)
  obtain r w1 where r: "(case q of None \<Rightarrow> conn_alloc (w\<lparr>w_free := f\<rparr>) rb | Some a \<Rightarrow> (Some a, w\<lparr>w_free := f\<rparr>)) = (r, w1)"
    by fastforce
  have "same_rest w (w\<lparr>w_free := f\<rparr>)" by (simp add: same_rest_def)
  then have w1: "same_rest w w1"
    using r same_rest_trans conn_alloc_rest by (auto split: option.splits)
  show ?thesis
  proof (cases r)
    case None
    then show ?thesis using assms q r w1 by (simp add: conn_new_def)
  next
    case (Some a)
    obtain c cs e s s' where g: "w_conns w1 a = Some c" "get_client_stats (w_env w1) (w_stats w1) i = Ok (cs, e, s)"
      "count_connection cs s = Ok s'"
      using assms q r Some by (auto simp: conn_new_def bindR_eq_Ok split: option.splits)
    define w2 where "w2 = put_conn a ((conn_reset ty i fd st c)\<lparr>c_stats := Some cs, ev_flags := fl\<rparr>)
        (set_stats s' (w1\<lparr>w_env := snd (event_call e)\<rparr>))"
    have w2: "same_rest w w2" using same_rest_trans [OF w1 same_rest_put] by (simp add: w2_def)
    have eq: "conn_new w ty i fd st fl rb = (if event_ok e (events e) then Ok (Some a, w2)
        else bindR (conn_release a w2) (\<lambda>w. Ok (None, w)))"
      using q r Some g by (simp add: conn_new_def event_call_def Let_def w2_def)
    have "event_ok e (events e) \<and> w' = w2 \<or> conn_release a w2 = Ok w'"
      using assms unfolding eq by (auto simp: bindR_eq_Ok split: if_splits)
    then show ?thesis using w2 same_rest_trans [OF w2 conn_release_rest] by auto
  qed
qed

text \<open>The part of \<open>memcache_connect\<close> after the name of the host was cut: it never looks at that name again.\<close>

lemma conn_new_hosts:
  assumes "conn_new w ty i fd st fl rb = Ok (p, w')"
  shows "s_backends (config w') = s_backends (config w)"
proof -
  have "(config w')\<lparr>s_stats := new_stats\<rparr> = (config w)\<lparr>s_stats := new_stats\<rparr>"
    using conn_new_rest [OF assms] by (simp add: same_rest_def)
  from arg_cong [OF this, of s_backends] show ?thesis by simp
qed

lemma memcache_connect_split:
  assumes "hosts (s_backends (config w)) = Some hs" and "i < length hs" and "split_host (hs ! i) = (host, port)"
  shows "memcache_connect net w i = memcache_connect (\<lambda>_ _. net host port) w i"
    and "memcache_connect net w i = Ok (p, w') \<Longrightarrow> hosts (s_backends (config w')) = Some (hs[i := host])"
  using assms
  by (auto simp: memcache_connect_def Let_def close_fd_def dest: conn_new_hosts split: net_result.splits)

text \<open>
  C36. The port of a backend is used only once. The first call of \<open>memcache_connect\<close> for a backend given as
  \<open>host:port\<close> asks for that port, and whatever comes of it, it leaves the name in the configuration without the port; every
  further call, which the next worker thread makes, asks for the default port, so that it gets no connection
  when the backend refuses that one.
\<close>

theorem memcache_connect_loses_port:
  assumes "hosts (s_backends (config w)) = Some hs" and "i < length hs" and "hs ! i = host @ '':'' @ port"
    and "CHR '':'' \<notin> set host" and "memcache_connect net w i = Ok (p, w1)"
  shows "memcache_connect net w i = memcache_connect (\<lambda>_ _. net host port) w i \<and>
    hosts (s_backends (config w1)) = Some (hs[i := host]) \<and>
    memcache_connect net w1 i = memcache_connect (\<lambda>_ _. net host ''11211'') w1 i \<and>
    (net host ''11211'' = Refused fd \<longrightarrow> (\<exists>w2. memcache_connect net w1 i = Ok (None, w2)))"
proof -
  have k: "takeWhile (\<lambda>x. x \<noteq> CHR '':'') (host @ '':'' @ port) = host" "takeWhile (\<lambda>x. x \<noteq> CHR '':'') host = host"
    using assms(4) by (auto simp: takeWhile_append)
  then have s: "split_host (hs ! i) = (host, port)" "split_host (hs[i := host] ! i) = (host, ''11211'')"
    using assms(2) by (simp_all add: split_host_def assms(3) k memcache_port_def Let_def)
  have h: "hosts (s_backends (config w1)) = Some (hs[i := host])" "i < length (hs[i := host])"
    using memcache_connect_split(2) [OF assms(1,2) s(1) assms(5)] assms(2) by simp_all
  moreover have "\<exists>w2. memcache_connect net w1 i = Ok (None, w2)" if "net host ''11211'' = Refused fd"
    using that h s(2) by (simp add: memcache_connect_def)
  ultimately show ?thesis
    using memcache_connect_split(1) [OF assms(1,2) s(1)] memcache_connect_split(1) [OF h s(2)] by blast
qed

text \<open>A backend that listens on port 9999 only, and is configured so: the first worker reaches it, the second does not.\<close>

definition backend_net :: "string \<Rightarrow> string \<Rightarrow> net_result" where
  "backend_net host port = (if port = ''9999'' then Connected 8 else Refused 9)"

definition backend_world :: world where
  "backend_world = world0\<lparr>config := plain_settings\<lparr>s_backends := \<lparr>hosts = Some [''mc1:9999''], bk_len = 1, bk_size = 1000\<rparr>\<rparr>\<rparr>"

theorem memcache_connect_loses_port_witness:
  "\<exists>b w1 w2. memcache_connect backend_net backend_world 0 = Ok (Some b, w1) \<and>
     memcache_connect backend_net w1 0 = Ok (None, w2)"
proof -
  have h: "hosts (s_backends (config backend_world)) = Some [''mc1:9999'']" by (simp add: backend_world_def)
  have s: "split_host ''mc1:9999'' = (''mc1'', ''9999'')" by (simp add: split_host_def)
  define w where "w = backend_world\<lparr>config := (config backend_world)\<lparr>s_backends :=
      (s_backends (config backend_world))\<lparr>hosts := Some [''mc1'']\<rparr>\<rparr>\<rparr>"
  have w: "world_inv w" "mem_ok (w_env w)" "\<forall>b k. st_heap (w_stats w) b = Some k \<longrightarrow> unat (cs_refcnt k) < 65535"
    "event_ok (w_env w) k" for k
    using world0_inv by (simp_all add: w_def backend_world_def world_inv_def world0_def calm_env_def)
  have "\<exists>b w1. memcache_connect backend_net backend_world 0 = Ok (Some b, w1)"
    using conn_new_ok [OF w(1,2) _ _ w(3), of DATA_BUFFER_SIZE 0 memcached_conn 8 conn_new_cmd EV_READ_PERSIST] w(4) s h
    by (fastforce simp: memcache_connect_def backend_net_def w_def Let_def DATA_BUFFER_SIZE_def split: option.splits)
  then obtain b w1 where w1: "memcache_connect backend_net backend_world 0 = Ok (Some b, w1)" by blast
  have "0 < length [''mc1:9999'']" "[''mc1:9999''] ! 0 = ''mc1'' @ '':'' @ ''9999''" "CHR '':'' \<notin> set ''mc1''" by simp_all
  note lost = memcache_connect_loses_port [OF h this w1, of 9]
  have "\<exists>w2. memcache_connect backend_net w1 0 = Ok (None, w2)"
    by (rule mp [OF lost [THEN conjunct2, THEN conjunct2, THEN conjunct2]]) (simp add: backend_net_def)
  then show ?thesis using w1 by blast
qed

end
