(* ===== verification/Input.thy ===== *)
theory Input
  imports Pool
begin

text \<open>
  \<open>read_network\<close> and \<open>reset_cmd_handler\<close> of \<open>server.c\<close>: reading from the socket into the read buffer,
  which grows as long as the socket delivers, and the choice of the next state between two commands.

  \<open>unread c\<close> is the window of the read buffer that holds input not yet parsed. Joined with what
  waits in the socket it is the input stream of the connection, which reading does not change.
\<close>

datatype read_result =
    READ_DATA_RECEIVED
  | READ_NO_DATA_RECEIVED
  | READ_ERROR
  | READ_MEMORY_ERROR

definition MAX_ALLOCS :: nat where "MAX_ALLOCS = 4"

text \<open>Reset a connection to a ready state for processing a new request.\<close>

definition reset_cmd_handler :: "conn \<Rightarrow> conn res" where
  "reset_cmd_handler c =
     conn_set_state (conn_shrink (c\<lparr>c_cmd := -1\<rparr>)) (if rbytes c > 0 then conn_parse_cmd else conn_waiting)"

text \<open>Before reading, move the remaining fragment of a command to the beginning of the buffer.\<close>

definition rn_compact :: "conn \<Rightarrow> conn res" where
  "rn_compact c =
     (if rcurr c \<noteq> 0 then
        if rbytes c \<noteq> 0 then
          if rcurr c < 0 \<or> rbytes c < 0 \<or> int (length (rbuf c)) < rcurr c + rbytes c then Err OutOfBounds
          else bindR (memwrite (rbuf c) 0 (take (nat (rbytes c)) (drop (nat (rcurr c)) (rbuf c)))) (\<lambda>b.
                 Ok (c\<lparr>rbuf := b, rcurr := 0\<rparr>))
        else Ok (c\<lparr>rcurr := 0\<rparr>)
      else Ok c)"

text \<open>How the loop goes on: with the number of reallocations so far, or with a result.\<close>

datatype rn_outcome =
    RnDone read_result env conn
  | RnMore read_result nat env conn

text \<open>
  A full buffer is doubled, at most \<open>MAX_ALLOCS\<close> times. The new size is computed at 32 bits; a negative
  one is a huge \<open>size_t\<close>, for which \<open>realloc\<close> fails.
\<close>

definition rn_grow :: "read_result \<Rightarrow> nat \<Rightarrow> env \<Rightarrow> conn \<Rightarrow> rn_outcome" where
  "rn_grow ret num_allocs e c =
     (if rbytes c \<ge> rsize c then
        if num_allocs = MAX_ALLOCS then RnDone ret e c
        else
          (case alloc e of (ok, e) \<Rightarrow>
           let n = i32 (rsize c * 2) in
           if \<not> ok \<or> n < 0 then RnDone READ_MEMORY_ERROR e c
           else RnMore ret (num_allocs + 1) e
                  (c\<lparr>rbuf := take (nat n) (rbuf c) @ unwritten e (nat n - length (rbuf c)), rcurr := 0, rsize := n\<rparr>))
      else RnMore ret num_allocs e c)"

text \<open>One \<open>read\<close> into the free part of the buffer.\<close>

definition rn_read :: "read_result \<Rightarrow> nat \<Rightarrow> env \<Rightarrow> conn \<Rightarrow> rn_outcome res" where
  "rn_read ret num_allocs e c =
     (let avail = rsize c - rbytes c in
      case sys_read e (c_sfd c) avail of
        (Data bs, e) \<Rightarrow>
          if bs = [] then Ok (RnDone READ_ERROR e c)
          else
            bindR (memwrite (rbuf c) (rbytes c) bs) (\<lambda>b.
              let c = c\<lparr>rbuf := b, rbytes := rbytes c + int (length bs)\<rparr> in
              if int (length bs) < avail then Ok (RnDone READ_DATA_RECEIVED e c)
              else Ok (RnMore READ_DATA_RECEIVED num_allocs e c))
      | (RdAgain, e) \<Rightarrow> Ok (RnDone ret e c)
      | (RdErr, e) \<Rightarrow> Ok (RnDone READ_ERROR e c))"

definition rn_round :: "read_result \<Rightarrow> nat \<Rightarrow> env \<Rightarrow> conn \<Rightarrow> rn_outcome res" where
  "rn_round ret num_allocs e c =
     (case rn_grow ret num_allocs e c of
        RnDone r e c \<Rightarrow> Ok (RnDone r e c)
      | RnMore ret k e c \<Rightarrow> rn_read ret k e c)"

partial_function (option) rn_loop :: "read_result \<Rightarrow> nat \<Rightarrow> env \<Rightarrow> conn \<Rightarrow> (read_result \<times> env \<times> conn) res" where
  "rn_loop ret k e c =
     (case rn_round ret k e c of
        None \<Rightarrow> None
      | Some (Inl x) \<Rightarrow> Err x
      | Some (Inr (RnDone r e' c')) \<Rightarrow> Ok (r, e', c')
      | Some (Inr (RnMore ret' k' e' c')) \<Rightarrow> rn_loop ret' k' e' c')"

text \<open>Read from the network as much as we can.\<close>

definition read_network :: "env \<Rightarrow> conn \<Rightarrow> (read_result \<times> env \<times> conn) res" where
  "read_network e c = bindR (rn_compact c) (\<lambda>c. rn_loop READ_NO_DATA_RECEIVED 0 e c)"

section \<open>The input stream\<close>

definition unread :: "conn \<Rightarrow> char list" where
  "unread c = take (nat (rbytes c)) (drop (nat (rcurr c)) (rbuf c))"

definition stream :: "env \<Rightarrow> conn \<Rightarrow> char list" where
  "stream e c = unread c @ incoming e (c_sfd c)"

text \<open>The window of unread input lies in the buffer, whose size is an \<open>int\<close>.\<close>

definition in_ok :: "conn \<Rightarrow> bool" where
  "in_ok c \<longleftrightarrow>
     int (length (rbuf c)) = rsize c \<and> 0 < rsize c \<and> rsize c \<le> INT_MAX \<and> 0 \<le> rcurr c \<and> 0 \<le> rbytes c \<and>
     rcurr c + rbytes c \<le> rsize c"

lemma unread_length: "in_ok c \<Longrightarrow> length (unread c) = nat (rbytes c)"
  by (auto simp: in_ok_def unread_def)

text \<open>Everything of a connection but its read buffer.\<close>

definition but_in :: "conn \<Rightarrow> conn" where
  "but_in c = c\<lparr>rbuf := [], rcurr := 0, rbytes := 0, rsize := 0\<rparr>"

definition same_but_in :: "conn \<Rightarrow> conn \<Rightarrow> bool" where
  "same_but_in c c' \<longleftrightarrow> but_in c' = but_in c"

lemma same_but_in_simps [simp]:
  "same_but_in c c" "same_but_in c (c'\<lparr>rbuf := b\<rparr>) = same_but_in c c'" "same_but_in c (c'\<lparr>rcurr := n\<rparr>) = same_but_in c c'"
  "same_but_in c (c'\<lparr>rbytes := k\<rparr>) = same_but_in c c'" "same_but_in c (c'\<lparr>rsize := k\<rparr>) = same_but_in c c'"
  by (simp_all add: same_but_in_def but_in_def)

lemma same_but_in_trans: "same_but_in c d \<Longrightarrow> same_but_in d f \<Longrightarrow> same_but_in c f"
  by (simp add: same_but_in_def)

lemma same_but_in_sfd: "same_but_in c c' \<Longrightarrow> c_sfd c' = c_sfd c"
  by (cases c; cases c'; simp add: same_but_in_def but_in_def)

text \<open>What a successful part of reading does: the stream is kept, with more of it in the buffer.\<close>

definition reads :: "env \<Rightarrow> conn \<Rightarrow> env \<Rightarrow> conn \<Rightarrow> bool" where
  "reads e c e' c' \<longleftrightarrow>
     in_ok c' \<and> stream e' c' = stream e c \<and> same_but_in c c' \<and> rbytes c \<le> rbytes c' \<and> (mem_ok e \<longrightarrow> mem_ok e') \<and>
     wire e' = wire e \<and> sock_out e' = sock_out e \<and> event_ok e' = event_ok e \<and> events e' = events e \<and>
     (\<forall>fd. fd \<noteq> c_sfd c \<longrightarrow> sock_in e' fd = sock_in e fd)"

lemma reads_refl [simp]: "in_ok c \<Longrightarrow> reads e c e c"
  by (simp add: reads_def)

lemma reads_trans: "reads e c e' c' \<Longrightarrow> reads e' c' e'' c'' \<Longrightarrow> reads e c e'' c''"
  using same_but_in_sfd [of c c'] by (auto simp: reads_def intro: same_but_in_trans)

lemma rn_compact_ok:
  assumes "in_ok c"
  obtains c' where "rn_compact c = Ok c'" "reads e c e c'" "rcurr c' = 0" "rbytes c' = rbytes c" "rsize c' = rsize c"
    "unread c' = unread c"
proof -
  define u where "u = unread c"
  have u: "length u = nat (rbytes c)" "take (nat (rbytes c)) (drop (nat (rcurr c)) (rbuf c)) = u"
    using unread_length [OF assms] by (simp_all add: u_def unread_def)
  define b where "b = (if rcurr c \<noteq> 0 \<and> rbytes c \<noteq> 0 then blit (rbuf c) 0 u else rbuf c)"
  have le: "length u \<le> length (rbuf c)" using assms u(1) by (auto simp: in_ok_def)
  have "rn_compact c = Ok (c\<lparr>rbuf := b, rcurr := 0\<rparr>)"
    using assms le by (auto simp: rn_compact_def in_ok_def b_def u(2) memwrite_def)
  moreover have "length b = length (rbuf c)" using le by (simp add: b_def)
  moreover have "take (nat (rbytes c)) b = u"
    using u assms by (auto simp: b_def blit_def in_ok_def)
  ultimately show ?thesis
    using assms by (intro that [of "c\<lparr>rbuf := b, rcurr := 0\<rparr>"])
      (auto simp: reads_def in_ok_def stream_def unread_def u(2))
qed

lemma i32_wrap: "2147483648 \<le> x \<Longrightarrow> x < 4294967296 \<Longrightarrow> i32 x = x - 4294967296"
proof -
  assume x: "2147483648 \<le> x" "x < 4294967296"
  have "(x + 2147483648) mod 4294967296 = (x + 2147483648 - 4294967296) mod 4294967296"
    by (rule minus_mod_self2 [symmetric])
  also have "\<dots> = x + 2147483648 - 4294967296" using x by (intro mod_pos_pos_trivial) simp_all
  finally show ?thesis by (simp add: i32_def)
qed

lemma i32_double:
  assumes "0 < n" and "n \<le> INT_MAX"
  shows "0 \<le> i32 (n * 2) \<longleftrightarrow> n * 2 \<le> INT_MAX" and "n * 2 \<le> INT_MAX \<Longrightarrow> i32 (n * 2) = n * 2"
  using assms i32_wrap [of "n * 2"] by (cases "n * 2 \<le> INT_MAX"; simp)+

text \<open>Growing keeps the contents, and makes room.\<close>

lemma rn_grow_more:
  assumes ok: "in_ok c" "rcurr c = 0" and r: "rn_grow ret k e c = RnMore r k' e' c'"
  shows "r = ret \<and> reads e c e' c' \<and> rcurr c' = 0 \<and> rbytes c' = rbytes c \<and> rbytes c' < rsize c' \<and> sock_in e' = sock_in e \<and>
    (if rsize c \<le> rbytes c then k' = k + 1 \<and> k \<noteq> MAX_ALLOCS \<and> rsize c' = rsize c * 2
     else k' = k \<and> rsize c' = rsize c)"
proof (cases "rsize c \<le> rbytes c")
  case True
  have full: "rbytes c = rsize c" using True ok by (auto simp: in_ok_def)
  have n: "i32 (rsize c * 2) = rsize c * 2" "rsize c * 2 \<le> INT_MAX" "0 < rsize c"
    using r ok True i32_double [of "rsize c"] by (auto simp: rn_grow_def alloc_def Let_def in_ok_def split: if_splits)
  define b where "b = rbuf c @ unwritten (snd (alloc e)) (length (rbuf c))"
  have len: "int (length (rbuf c)) = rsize c" using ok by (simp add: in_ok_def)
  then have "nat (rsize c * 2) = length (rbuf c) + length (rbuf c)" by simp
  then have c': "r = ret" "k' = k + 1" "k \<noteq> MAX_ALLOCS" "e' = snd (alloc e)" "c' = c\<lparr>rbuf := b, rcurr := 0, rsize := rsize c * 2\<rparr>"
    using r True n by (auto simp: rn_grow_def alloc_def Let_def b_def split: if_splits)
  have "int (length b) = rsize c * 2" using len by (simp add: b_def)
  moreover have "unread c' = unread c" using full len ok(2) by (simp add: unread_def c' b_def)
  ultimately show ?thesis
    using c' n full True by (simp add: reads_def in_ok_def stream_def incoming_def)
next
  case False
  then show ?thesis using ok r by (auto simp: rn_grow_def)
qed

lemma rn_grow_done:
  assumes ok: "in_ok c" and r: "rn_grow ret k e c = RnDone r e' c'"
  shows "c' = c \<and> reads e c e' c \<and> rsize c \<le> rbytes c \<and> sock_in e' = sock_in e \<and>
    (if k = MAX_ALLOCS then r = ret
     else r = READ_MEMORY_ERROR \<and> (\<not> alloc_ok e (allocs e) \<or> INT_MAX < rsize c * 2))"
proof (cases "k = MAX_ALLOCS")
  case True
  then show ?thesis using ok r by (auto simp: rn_grow_def split: if_splits)
next
  case False
  then have "c' = c" "r = READ_MEMORY_ERROR" "e' = snd (alloc e)" "rsize c \<le> rbytes c"
    "\<not> alloc_ok e (allocs e) \<or> i32 (rsize c * 2) < 0"
    using r by (auto simp: rn_grow_def alloc_def Let_def split: if_splits)
  moreover have "i32 (rsize c * 2) < 0 \<longrightarrow> INT_MAX < rsize c * 2"
    using ok i32_double [of "rsize c"] by (auto simp: in_ok_def)
  ultimately show ?thesis using ok False by (auto simp: reads_def stream_def incoming_def)
qed

text \<open>A read appends to the window.\<close>

lemma rn_read_data:
  assumes ok: "in_ok c" "rcurr c = 0" and bs: "int (length bs) \<le> rsize c - rbytes c"
  defines "c' \<equiv> c\<lparr>rbuf := blit (rbuf c) (nat (rbytes c)) bs, rbytes := rbytes c + int (length bs)\<rparr>"
  shows "memwrite (rbuf c) (rbytes c) bs = Ok (rbuf c')" "in_ok c'" "unread c' = unread c @ bs"
proof -
  have le: "nat (rbytes c) + length bs \<le> length (rbuf c)" using ok bs by (auto simp: in_ok_def)
  show "memwrite (rbuf c) (rbytes c) bs = Ok (rbuf c')" using le ok by (simp add: memwrite_def c'_def in_ok_def)
  show "in_ok c'" using le ok bs by (simp add: in_ok_def c'_def)
  have "nat (rbytes c + int (length bs)) = nat (rbytes c) + length bs" using ok by (simp add: in_ok_def nat_add_distrib)
  then show "unread c' = unread c @ bs" using le ok(2) by (simp add: unread_def c'_def take_blit_through)
qed

lemma rn_read_ok:
  assumes ok: "in_ok c" "rcurr c = 0" "rbytes c < rsize c"
  shows "\<exists>x. rn_read ret k e c = Ok x \<and>
    (case x of
       RnDone r e' c' \<Rightarrow> reads e c e' c' \<and>
         ((r = ret \<and> rbytes c' = rbytes c) \<or> (r = READ_DATA_RECEIVED \<and> rbytes c < rbytes c') \<or>
          (r = READ_ERROR \<and> rbytes c' = rbytes c)) \<and> rsize c' = rsize c
     | RnMore r k' e' c' \<Rightarrow> r = READ_DATA_RECEIVED \<and> k' = k \<and> reads e c e' c' \<and> rcurr c' = 0 \<and> rbytes c < rbytes c' \<and>
         rbytes c' = rsize c' \<and> rsize c' = rsize c)"
proof -
  obtain x e1 where rd: "sys_read e (c_sfd c) (rsize c - rbytes c) = (x, e1)" by fastforce
  note st = sys_read_stream [OF rd] and fr = sys_read_frame [OF rd] and ot = sys_read_other [OF rd]
  have mem: "mem_ok e \<longrightarrow> mem_ok e1" using fr by (simp add: mem_ok_def)
  show ?thesis
  proof (cases "\<exists>bs. x = Data bs \<and> bs \<noteq> []")
    case False
    then have "rd_bytes x = []" by (cases x) auto
    then have "reads e c e1 c" using ok st fr ot mem by (simp add: reads_def stream_def)
    then show ?thesis using False rd by (cases x) (auto simp: rn_read_def Let_def)
  next
    case True
    then obtain bs where bs: "x = Data bs" "bs \<noteq> []" by blast
    have le: "int (length bs) \<le> rsize c - rbytes c" using sys_read_length [OF rd [unfolded bs(1)]] ok(3) by simp
    note d = rn_read_data [OF ok(1,2) le]
    define c' where "c' = c\<lparr>rbuf := blit (rbuf c) (nat (rbytes c)) bs, rbytes := rbytes c + int (length bs)\<rparr>"
    have rs: "reads e c e1 c'"
      using d(2,3) st fr ot mem bs(1) by (simp add: reads_def stream_def c'_def)
    have run: "rn_read ret k e c = Ok (if int (length bs) < rsize c - rbytes c then RnDone READ_DATA_RECEIVED e1 c'
        else RnMore READ_DATA_RECEIVED k e1 c')"
      using rd bs d(1) by (simp add: rn_read_def Let_def c'_def)
    have len: "rbytes c < rbytes c'" "rsize c' = rsize c" "rcurr c' = 0" "0 < length bs"
      using bs(2) ok(2) by (simp_all add: c'_def)
    show ?thesis
    proof (cases "int (length bs) < rsize c - rbytes c")
      case True
      then show ?thesis using run rs len by simp
    next
      case False
      then have "rbytes c' = rsize c'" using le by (simp add: c'_def)
      then show ?thesis using run False rs len by simp
    qed
  qed
qed

text \<open>What the result of reading says.\<close>

definition read_post :: "read_result \<Rightarrow> env \<Rightarrow> conn \<Rightarrow> read_result \<Rightarrow> conn \<Rightarrow> bool" where
  "read_post ret e c r c' \<longleftrightarrow>
     (r = ret \<and> rbytes c' = rbytes c) \<or> (r = READ_DATA_RECEIVED \<and> rbytes c < rbytes c') \<or> r = READ_ERROR \<or>
     (r = READ_MEMORY_ERROR \<and> rbytes c' = rsize c' \<and> (\<not> mem_ok e \<or> INT_MAX < rsize c' * 2))"

lemma read_post_more:
  assumes "read_post READ_DATA_RECEIVED e' d r c'" "rbytes c < rbytes d" "mem_ok e \<longrightarrow> mem_ok e'"
  shows "read_post ret e c r c'"
  using assms by (auto simp: read_post_def)

lemma rn_round_ok:
  assumes ok: "in_ok c" "rcurr c = 0" and k: "k \<le> MAX_ALLOCS"
  shows "\<exists>x. rn_round ret k e c = Ok x \<and>
    (case x of
       RnDone r e' c' \<Rightarrow> reads e c e' c' \<and> read_post ret e c r c' \<and> rsize c' \<le> rsize c * 2 ^ (MAX_ALLOCS - k)
     | RnMore r k' e' c' \<Rightarrow> r = READ_DATA_RECEIVED \<and> reads e c e' c' \<and> rcurr c' = 0 \<and> rbytes c < rbytes c' \<and>
         rbytes c' = rsize c' \<and> k' \<le> MAX_ALLOCS \<and> k \<le> k' \<and> rsize c' = rsize c * 2 ^ (k' - k) \<and>
         (rsize c \<le> rbytes c \<longrightarrow> k < k'))"
proof (cases "rn_grow ret k e c")
  case (RnDone r e1 c1)
  note g = rn_grow_done [OF ok(1) RnDone]
  have "rsize c \<le> rsize c * 2 ^ (MAX_ALLOCS - k)" using ok(1) by (simp add: in_ok_def)
  moreover have "rbytes c = rsize c" using g ok by (auto simp: in_ok_def)
  ultimately show ?thesis using RnDone g
    by (auto simp: rn_round_def read_post_def split: if_splits)
next
  case (RnMore r k1 e1 c1)
  have g: "r = ret" "reads e c e1 c1" "rcurr c1 = 0" "rbytes c1 = rbytes c" "rbytes c1 < rsize c1"
    "if rsize c \<le> rbytes c then k1 = k + 1 \<and> k \<noteq> MAX_ALLOCS \<and> rsize c1 = rsize c * 2 else k1 = k \<and> rsize c1 = rsize c"
    using rn_grow_more [OF ok RnMore] by simp_all
  have k1: "k \<le> k1" "k1 \<le> MAX_ALLOCS" "rsize c1 = rsize c * 2 ^ (k1 - k)" "rsize c \<le> rbytes c \<longrightarrow> k < k1"
    using g(6) k by (auto split: if_splits)
  have "(2 :: int) ^ (k1 - k) \<le> 2 ^ (MAX_ALLOCS - k)" using k1(2) by (intro power_increasing) auto
  then have bound: "rsize c1 \<le> rsize c * 2 ^ (MAX_ALLOCS - k)" using k1(3) ok(1) by (simp add: in_ok_def)
  have in1: "in_ok c1" "mem_ok e \<longrightarrow> mem_ok e1" using g(2) by (simp_all add: reads_def)
  obtain x where x: "rn_read ret k1 e1 c1 = Ok x"
    "case x of
       RnDone r e' c' \<Rightarrow> reads e1 c1 e' c' \<and>
         ((r = ret \<and> rbytes c' = rbytes c1) \<or> (r = READ_DATA_RECEIVED \<and> rbytes c1 < rbytes c') \<or>
          (r = READ_ERROR \<and> rbytes c' = rbytes c1)) \<and> rsize c' = rsize c1
     | RnMore r k' e' c' \<Rightarrow> r = READ_DATA_RECEIVED \<and> k' = k1 \<and> reads e1 c1 e' c' \<and> rcurr c' = 0 \<and> rbytes c1 < rbytes c' \<and>
         rbytes c' = rsize c' \<and> rsize c' = rsize c1"
    using rn_read_ok [OF in1(1) g(3,5), of ret k1 e1] by blast
  have run: "rn_round ret k e c = Ok x" using RnMore g(1) x(1) by (simp add: rn_round_def)
  show ?thesis
  proof (cases x)
    case (RnDone r2 e2 c2)
    then show ?thesis using run x(2) reads_trans [OF g(2)] bound g(4) by (auto simp: read_post_def)
  next
    case (RnMore r2 k2 e2 c2)
    then show ?thesis using run x(2) reads_trans [OF g(2)] k1 g(4) by auto
  qed
qed

text \<open>
  The loop ends: a buffer that was filled is doubled before the next read, and there are at most
  \<open>MAX_ALLOCS\<close> reallocations.
\<close>

lemma rn_loop_ok:
  assumes "in_ok c" and "rcurr c = 0" and "k \<le> MAX_ALLOCS"
  shows "\<exists>r e' c'. rn_loop ret k e c = Ok (r, e', c') \<and> reads e c e' c' \<and> read_post ret e c r c' \<and>
    rsize c' \<le> rsize c * 2 ^ (MAX_ALLOCS - k)"
  using assms
proof (induction "2 * (MAX_ALLOCS - k) + (if rbytes c < rsize c then 1 else 0)" arbitrary: ret k e c rule: less_induct)
  case less
  obtain x where x: "rn_round ret k e c = Ok x"
    "case x of
       RnDone r e' c' \<Rightarrow> reads e c e' c' \<and> read_post ret e c r c' \<and> rsize c' \<le> rsize c * 2 ^ (MAX_ALLOCS - k)
     | RnMore r k' e' c' \<Rightarrow> r = READ_DATA_RECEIVED \<and> reads e c e' c' \<and> rcurr c' = 0 \<and> rbytes c < rbytes c' \<and>
         rbytes c' = rsize c' \<and> k' \<le> MAX_ALLOCS \<and> k \<le> k' \<and> rsize c' = rsize c * 2 ^ (k' - k) \<and>
         (rsize c \<le> rbytes c \<longrightarrow> k < k')"
    using rn_round_ok [OF less.prems, of ret e] by blast
  show ?case
  proof (cases x)
    case (RnDone r e' c')
    then have "rn_loop ret k e c = Ok (r, e', c')" using x(1) by (subst rn_loop.simps) simp
    then show ?thesis using x(2) RnDone by auto
  next
    case (RnMore r k' e1 c1)
    then have m: "r = READ_DATA_RECEIVED" "reads e c e1 c1" "rcurr c1 = 0" "rbytes c < rbytes c1" "rbytes c1 = rsize c1"
      "k' \<le> MAX_ALLOCS" "k \<le> k'" "rsize c1 = rsize c * 2 ^ (k' - k)" "rsize c \<le> rbytes c \<longrightarrow> k < k'"
      using x(2) by simp_all
    have in1: "in_ok c1" "mem_ok e \<longrightarrow> mem_ok e1" using m(2) by (simp_all add: reads_def)
    have "2 * (MAX_ALLOCS - k') + (if rbytes c1 < rsize c1 then 1 else 0) <
        2 * (MAX_ALLOCS - k) + (if rbytes c < rsize c then 1 else 0)"
      using m(5-7,9) less.prems(3) by (cases "rbytes c < rsize c") auto
    then obtain r2 e2 c2 where r2: "rn_loop READ_DATA_RECEIVED k' e1 c1 = Ok (r2, e2, c2)" "reads e1 c1 e2 c2"
      "read_post READ_DATA_RECEIVED e1 c1 r2 c2" "rsize c2 \<le> rsize c1 * 2 ^ (MAX_ALLOCS - k')"
      using less.hyps [OF _ in1(1) m(3,6), of READ_DATA_RECEIVED e1] by blast
    have "rn_loop ret k e c = Ok (r2, e2, c2)" using x(1) RnMore m(1) r2(1) by (subst rn_loop.simps) simp
    moreover have "rsize c1 * 2 ^ (MAX_ALLOCS - k') = rsize c * 2 ^ (MAX_ALLOCS - k)"
      using m(6-8) by (simp add: mult.assoc flip: power_add)
    ultimately show ?thesis
      using reads_trans [OF m(2) r2(2)] read_post_more [OF r2(3) m(4) in1(2)] r2(4) by auto
  qed
qed

lemma read_network_ok:
  assumes "in_ok c"
  shows "\<exists>r e' c'. read_network e c = Ok (r, e', c') \<and> reads e c e' c' \<and>
    read_post READ_NO_DATA_RECEIVED e c r c' \<and> rsize c' \<le> rsize c * 16"
proof -
  obtain d where d: "rn_compact c = Ok d" "reads e c e d" "rcurr d = 0" "rbytes d = rbytes c" "rsize d = rsize c"
    using rn_compact_ok [OF assms] .
  have "in_ok d" using d(2) by (simp add: reads_def)
  then obtain r e' c' where r: "rn_loop READ_NO_DATA_RECEIVED 0 e d = Ok (r, e', c')" "reads e d e' c'"
    "read_post READ_NO_DATA_RECEIVED e d r c'" "rsize c' \<le> rsize d * 2 ^ MAX_ALLOCS"
    using rn_loop_ok [OF _ d(3), of 0 READ_NO_DATA_RECEIVED e] by auto
  moreover have "read_network e c = Ok (r, e', c')" using d(1) r(1) by (simp add: read_network_def)
  moreover have "read_post READ_NO_DATA_RECEIVED e c r c'" using r(3) d(4) by (simp add: read_post_def)
  ultimately show ?thesis using reads_trans [OF d(2) r(2)] d(5) by (auto simp: MAX_ALLOCS_def)
qed

section \<open>Properties\<close>

text \<open>
  C8. \<open>read_network\<close> always returns, and neither loses, repeats nor reorders a byte of the input: the unread
  window of the buffer joined with what waits in the socket is the same before and after, whatever the
  chunks the socket delivers. The window stays inside the buffer, which grows at most sixteenfold in one
  call. New data is reported only when the window has grown, no data only when it is unchanged, and a
  memory error only when the buffer is full and could not be doubled.
\<close>

theorem read_network_conserves:
  assumes "in_ok c"
  shows "\<exists>r e' c'. read_network e c = Ok (r, e', c') \<and> in_ok c' \<and>
    unread c' @ incoming e' (c_sfd c) = unread c @ incoming e (c_sfd c) \<and> rsize c' \<le> rsize c * 16 \<and>
    (r = READ_DATA_RECEIVED \<longrightarrow> length (unread c) < length (unread c')) \<and>
    (r = READ_NO_DATA_RECEIVED \<longrightarrow> unread c' = unread c) \<and>
    (r = READ_MEMORY_ERROR \<longrightarrow> rbytes c' = rsize c' \<and> (\<not> mem_ok e \<or> INT_MAX < rsize c' * 2))"
proof -
  obtain r e' c' where r: "read_network e c = Ok (r, e', c')" "reads e c e' c'"
    "read_post READ_NO_DATA_RECEIVED e c r c'" "rsize c' \<le> rsize c * 16"
    using read_network_ok [OF assms] by blast
  have c': "in_ok c'" "unread c' @ incoming e' (c_sfd c) = unread c @ incoming e (c_sfd c)" "rbytes c \<le> rbytes c'"
    using r(2) same_but_in_sfd [of c c'] by (simp_all add: reads_def stream_def)
  have len: "length (unread c) = nat (rbytes c)" "length (unread c') = nat (rbytes c')"
    using unread_length assms c'(1) by blast+
  have "unread c' = unread c" if "rbytes c' = rbytes c"
    using c'(2) len that by simp
  then show ?thesis using r c' len assms
    by (intro exI [of _ r] exI [of _ e'] exI [of _ c']) (auto simp: read_post_def in_ok_def)
qed

theorem read_network_conserves_witness:
  "\<exists>r e' c'. read_network (calm_env\<lparr>sock_in := (\<lambda>_. [])(7 := [Data ''get a'', RdAgain])\<rparr>) (ready_conn ''ab''\<lparr>rcurr := 1, rbytes := 1\<rparr>) =
       Ok (r, e', c') \<and> in_ok c' \<and> unread c' @ incoming e' 7 = ''bget a''"
proof -
  let ?c = "ready_conn ''ab''\<lparr>rcurr := 1, rbytes := 1\<rparr>"
  let ?e = "calm_env\<lparr>sock_in := (\<lambda>_. [])(7 := [Data ''get a'', RdAgain])\<rparr>"
  have c: "in_ok ?c" "unread ?c = ''b''" "c_sfd ?c = 7" "incoming ?e 7 = ''get a''"
    by (simp_all add: in_ok_def unread_def ready_conn_def zero_conn_def incoming_def)
  from read_network_conserves [OF c(1), of ?e] show ?thesis unfolding c by (elim exE conjE) (auto)
qed

end
