(* ===== verification/Frames.thy ===== *)
theory Frames
  imports Protocol
begin

text \<open>
  What building a response leaves alone of the surroundings: it allocates memory and draws random numbers,
  and touches neither sockets nor events.
\<close>

definition same_net :: "env \<Rightarrow> env \<Rightarrow> bool" where
  "same_net e e' \<longleftrightarrow>
     sock_in e' = sock_in e \<and> sock_out e' = sock_out e \<and> wire e' = wire e \<and> event_ok e' = event_ok e \<and>
     events e' = events e"

lemma same_net_refl [simp]: "same_net e e"
  by (simp add: same_net_def)

lemma same_net_trans [trans]: "same_net e e' \<Longrightarrow> same_net e' e'' \<Longrightarrow> same_net e e''"
  by (simp add: same_net_def)

lemma same_net_update [simp]:
  "same_net e (e'\<lparr>allocs := n\<rparr>) = same_net e e'" "same_net e (e'\<lparr>draws := n\<rparr>) = same_net e e'"
  "same_net (e\<lparr>allocs := n\<rparr>) e' = same_net e e'" "same_net (e\<lparr>draws := n\<rparr>) e' = same_net e e'"
  by (simp_all add: same_net_def)

lemma conn_add_msghdr_net [cframe]: "conn_add_msghdr e c = Ok (ok, e', c') \<Longrightarrow> same_net e e'"
  by (auto simp: conn_add_msghdr_def alloc_def split: if_splits)

lemma conn_ensure_iov_space_net [cframe]: "conn_ensure_iov_space e c = (ok, e', c') \<Longrightarrow> same_net e e'"
  by (auto simp: conn_ensure_iov_space_def alloc_def split: if_splits)

lemma conn_expand_items_net [cframe]: "conn_expand_items e c = (ok, e', c') \<Longrightarrow> same_net e e'"
  by (auto simp: conn_expand_items_def alloc_def split: if_splits)

lemma add_iov_step_net [cframe]:
  assumes "add_iov_step e c buf len = Ok (ok, b, l, e', c')"
  shows "same_net e e'"
proof -
  obtain x e1 c1 where m: "(if msg_iovlen (msglist c ! (msgused c - 1)) = IOV_MAX \<or> (msgused c = 1 \<and> msgbytes c \<ge> MAX_PAYLOAD_SIZE)
      then conn_add_msghdr e c else Ok (True, e, c)) = Ok (x, e1, c1)"
    using assms by (auto simp: add_iov_step_def Let_def bindR_eq_Ok split: if_splits)
  obtain ok2 e2 c2 where s: "conn_ensure_iov_space e1 c1 = (ok2, e2, c2)" by (cases "conn_ensure_iov_space e1 c1") auto
  have "e' = e2" using assms m s by (auto simp: add_iov_step_def Let_def split: if_splits)
  moreover have "same_net e e1" using m conn_add_msghdr_net by (auto split: if_splits)
  ultimately show ?thesis using conn_ensure_iov_space_net [OF s] same_net_trans by blast
qed

lemma conn_add_iov_net [cframe]: "conn_add_iov e c buf len = Ok (ok, e', c') \<Longrightarrow> same_net e e'"
proof -
  have "\<forall>ok e' c'. r = Inr (ok, e', c') \<longrightarrow> same_net e e'" if "conn_add_iov e c buf len = Some r" for r
    using that
  proof (rule conn_add_iov.raw_induct [rotated], intro allI impI)
    fix f e c buf len y ok e' c'
    assume IH: "\<And>e c buf len y. f e c buf len = Some y \<Longrightarrow> \<forall>ok e' c'. y = Inr (ok, e', c') \<longrightarrow> same_net e e'"
      and s: "(case add_iov_step e c buf len of None \<Rightarrow> None | Some (Inl x) \<Rightarrow> Err x
         | Some (Inr (ok, buf', leftover, e', c')) \<Rightarrow>
             if \<not> ok then Ok (False, e', c') else if leftover > 0 then f e' c' buf' leftover else Ok (True, e', c')) = Some y"
      and y: "y = Inr (ok, e', c')"
    show "same_net e e'"
      using s y by (auto split: option.splits sum.splits prod.splits if_splits dest!: add_iov_step_net IH intro: same_net_trans)
  qed
  then show "conn_add_iov e c buf len = Ok (ok, e', c') \<Longrightarrow> same_net e e'" by blast
qed

lemma error_response_net [cframe]: "error_response e c str = Ok (e', c') \<Longrightarrow> same_net e e'"
  by (auto simp: error_response_def Let_def bindR_eq_Ok dest: conn_add_msghdr_net)

lemma add_item_net [cframe]: "add_item e c it = Ok (ok, e', c') \<Longrightarrow> same_net e e'"
  by (auto simp: add_item_def bindR_eq_Ok split: if_splits dest!: conn_add_iov_net intro: same_net_trans)

lemma get_blob_net [cframe]: "get_blob cfg e c = Ok (e', c') \<Longrightarrow> same_net e e'"
  by (auto simp: get_blob_def gsl_ran_gaussian_def alloc_def Let_def bindR_eq_Ok split: if_splits option.splits)

text \<open>The environment an outcome of the get loop carries.\<close>

fun outcome_env :: "get_outcome \<Rightarrow> env" where
  "outcome_env (GetReturn e c) = e"
| "outcome_env (GetToken t e c i) = e"
| "outcome_env (GetMore toks e c i) = e"
| "outcome_env (GetDone e c i) = e"

lemma get_inner_net [cframe]: "get_inner fixed e c toks i = Ok r \<Longrightarrow> same_net e (outcome_env r)"
proof (induction toks arbitrary: e c i)
  case (Cons t ts)
  then show ?case
    by (auto simp: bindR_eq_Ok split: if_splits option.splits prod.splits
        dest!: error_response_net conn_expand_items_net add_item_net intro: same_net_trans)
qed simp

lemma get_round_net [cframe]:
  assumes "get_round fixed e c toks i = Ok r"
  shows "same_net e (outcome_env r)"
proof -
  obtain x where x: "get_inner fixed e c toks i = Ok x" using assms by (auto simp: get_round_def)
  then have "outcome_env r = outcome_env x"
    using assms by (cases x) (auto simp: get_round_def Let_def bindR_eq_Ok split: option.splits if_splits)
  then show ?thesis using get_inner_net [OF x] by simp
qed

lemma get_outer_net [cframe]: "get_outer fixed e c toks i = Ok r \<Longrightarrow> same_net e (outcome_env r)"
proof -
  have "\<forall>r. y = Inr r \<longrightarrow> same_net e (outcome_env r)" if "get_outer fixed e c toks i = Some y" for y
    using that
  proof (rule get_outer.raw_induct [rotated], intro allI impI)
    fix f fixed e c toks i y r
    assume IH: "\<And>fixed e c toks i y. f fixed e c toks i = Some y \<Longrightarrow> \<forall>r. y = Inr r \<longrightarrow> same_net e (outcome_env r)"
      and s: "(case get_round fixed e c toks i of
        None \<Rightarrow> None
      | Some (Inl x) \<Rightarrow> Err x
      | Some (Inr (GetMore toks' e' c' i')) \<Rightarrow> f fixed e' c' toks' i'
      | Some (Inr (GetReturn e' c')) \<Rightarrow> Ok (GetReturn e' c')
      | Some (Inr (GetDone e' c' i')) \<Rightarrow> Ok (GetDone e' c' i')
      | Some (Inr (GetToken t e' c' i')) \<Rightarrow> Ok (GetToken t e' c' i')) = Some y"
      and y: "y = Inr r"
    obtain x where x: "get_round fixed e c toks i = Ok x"
      using s y by (auto split: option.splits sum.splits)
    show "same_net e (outcome_env r)"
      using s y get_round_net [OF x] x by (cases x) (auto dest!: IH intro: same_net_trans)
  qed
  then show "get_outer fixed e c toks i = Ok r \<Longrightarrow> same_net e (outcome_env r)" by blast
qed

lemma process_get_command_net [cframe]:
  assumes "process_get_command fixed cfg e c toks = Ok (e', c')"
  shows "same_net e e'"
proof -
  obtain e1 c1 r where g: "get_blob cfg e c = Ok (e1, c1)" "get_outer fixed e1 c1 (drop KEY_TOKEN toks) 0 = Ok r"
    using assms by (auto simp: process_get_command_def bindR_eq_Ok)
  have r: "same_net e (outcome_env r)" using get_blob_net [OF g(1)] get_outer_net [OF g(2)] same_net_trans by blast
  show ?thesis
    using assms g r by (cases r) (auto simp: process_get_command_def bindR_eq_Ok split: if_splits
        dest!: conn_add_iov_net error_response_net intro: same_net_trans)
qed

lemma process_update_command_net [cframe]: "process_update_command e c toks = Ok (e', c') \<Longrightarrow> same_net e e'"
  by (auto simp: process_update_command_def bindR_eq_Ok split: if_splits option.splits prod.splits dest: error_response_net)

lemma process_stat_command_net [cframe]: "process_stat_command cfg e c = Ok (e', c') \<Longrightarrow> same_net e e'"
  by (auto simp: process_stat_command_def bindR_eq_Ok split: option.splits)

lemma parse_command_net [cframe]:
  assumes "parse_command fixed cfg e c p = Ok (ok, cfg', e', c')"
  shows "same_net e e'"
  using assms
  by (auto simp: parse_command_def Let_def counted_def bindR_eq_Ok split: if_splits
      dest!: process_get_command_net process_update_command_net process_stat_command_net)

end
