(* ===== verification/Request.thy ===== *)
theory Request
  imports Memcache_Conn Input Frames
begin

text \<open>
  \<open>read_command\<close> and \<open>process_command\<close> of \<open>server.c\<close>: taking one line off the read buffer and running it,
  as a request on a client connection or as a response on a backend connection.
\<close>

section \<open>The operations\<close>

text \<open>
  Run the line at offset \<open>p\<close> of the read buffer. The output lists are reset first; a response that is not
  understood ends the process.
\<close>

definition process_command :: "world \<Rightarrow> addr \<Rightarrow> nat \<Rightarrow> world res" where
  "process_command w a p =
     with_conn w a (\<lambda>c.
     bindR (conn_add_msghdr (w_env w) (c\<lparr>msgcurr := 0, msgused := 0, iovused := 0\<rparr>)) (\<lambda>(ok, e, c).
     if \<not> ok then
       bindR (error_response e c ''SERVER_ERROR out of memory preparing response'') (\<lambda>(e, c).
         Ok (put_conn a c (w\<lparr>w_env := e\<rparr>)))
     else if c_type c = client_conn then
       bindR (parse_command (fixed_item w) (config w) e c p) (\<lambda>(ok, cfg, e, c).
         if \<not> ok then
           bindR (error_response e c ''ERROR'') (\<lambda>(e, c). Ok (put_conn a c (w\<lparr>w_env := e, config := cfg\<rparr>)))
         else Ok (put_conn a c (w\<lparr>w_env := e, config := cfg\<rparr>)))
     else
       bindR (memcached_response (put_conn a c (w\<lparr>w_env := e\<rparr>)) a p) (\<lambda>(ok, w).
         if \<not> ok then Err (Exit 1) else Ok w)))"

text \<open>\<open>strncmp(ptr, lit, strlen(lit)) == 0\<close>, which reads until the first difference.\<close>

fun has_prefix :: "char list \<Rightarrow> string \<Rightarrow> bool res" where
  "has_prefix b [] = Ok True"
| "has_prefix [] (x # xs) = Err OutOfBounds"
| "has_prefix (y # b) (x # xs) = (if y = x then has_prefix b xs else Ok False)"

text \<open>
  No end of line yet. After the first kilobyte only a large multiget may go on; the scan for its start is
  not bounded by the input.
\<close>

definition rc_no_line :: "conn \<Rightarrow> (bool \<times> conn) res" where
  "rc_no_line c =
     (if rbytes c > 1024 then
        let r = drop (nat (rcurr c)) (rbuf c);
            k = length (takeWhile (\<lambda>x. x = SP) r);
            nuke = bindR (conn_set_state c conn_closing) (\<lambda>c. Ok (True, c)) in
        if k = length r then Err OutOfBounds
        else if k > 100 then nuke
        else
          bindR (has_prefix (drop k r) ''get '') (\<lambda>get.
            if get then Ok (False, c)
            else bindR (has_prefix (drop k r) ''gets '') (\<lambda>gets. if gets then Ok (False, c) else nuke))
      else Ok (False, c))"

text \<open>If we have a complete line in the buffer, process it; \<open>False\<close> when more data is needed.\<close>

definition read_command :: "world \<Rightarrow> addr \<Rightarrow> (bool \<times> world) res" where
  "read_command w a =
     with_conn w a (\<lambda>c.
     if \<not> (rcurr c \<le> rsize c \<and> rbytes c > 0) then Err Abort
     else if rcurr c < 0 \<or> int (length (rbuf c)) < rcurr c + rbytes c then Err OutOfBounds
     else
       let u = take (nat (rbytes c)) (drop (nat (rcurr c)) (rbuf c));
           k = length (takeWhile (\<lambda>x. x \<noteq> LF) u) in
       if k = length u then bindR (rc_no_line c) (\<lambda>(r, c). Ok (r, put_conn a c w))
       else
         let cont = rcurr c + int k + 1;
             el = (if k > 1 \<and> u ! (k - 1) = CR then k - 1 else k);
             c = c\<lparr>rbuf := (rbuf c)[nat (rcurr c) + el := NUL]\<rparr> in
         bindR (process_command (put_conn a c w) a (nat (rcurr c))) (\<lambda>w.
         with_conn w a (\<lambda>c.
           let c = c\<lparr>rbytes := rbytes c - (cont - rcurr c), rcurr := cont\<rparr> in
           if rcurr c \<le> rsize c then Ok (True, put_conn a c w) else Err Abort)))"

section \<open>A line of input\<close>

text \<open>The line without its end: a carriage return before the line feed is dropped, except at the start.\<close>

definition chomp :: "string \<Rightarrow> string" where
  "chomp l = (if 1 < length l \<and> last l = CR then butlast l else l)"

lemma takeWhile_LF: "LF \<notin> set l \<Longrightarrow> takeWhile (\<lambda>x. x \<noteq> LF) (l @ LF # r) = l"
  by (auto simp: takeWhile_append)

lemma cstr_cut: "cstr (s @ NUL # b) = cstr s"
  by (induction s) auto

text \<open>The buffer after the end of line was overwritten.\<close>

lemma chomp_buffer:
  assumes ok: "in_ok c" and u: "unread c = l @ LF # rest"
  defines "k \<equiv> length l"
  defines "el \<equiv> (if k > 1 \<and> (l @ LF # rest) ! (k - 1) = CR then k - 1 else k)"
  defines "b \<equiv> (rbuf c)[nat (rcurr c) + el := NUL]"
  shows "length b = length (rbuf c)" "nat (rcurr c) + k + 1 + length rest \<le> length b"
    "NUL \<in> set (drop (nat (rcurr c)) b)" "cstr (drop (nat (rcurr c)) b) = cstr (chomp l)"
    "drop (nat (rcurr c) + k + 1) b = drop (nat (rcurr c) + k + 1) (rbuf c)"
    "take (length rest) (drop (nat (rcurr c) + k + 1) (rbuf c)) = rest"
    "rbytes c = int k + 1 + int (length rest)"
proof -
  define p where "p = nat (rcurr c)"
  have len: "int (length (rbuf c)) = rsize c" "0 \<le> rcurr c" "0 \<le> rbytes c" "rcurr c + rbytes c \<le> rsize c"
    using ok by (simp_all add: in_ok_def)
  show nb: "rbytes c = int k + 1 + int (length rest)"
    using unread_length [OF ok] u len(3) by (simp add: k_def)
  have le: "p + k + 1 + length rest \<le> length (rbuf c)" using len nb by (simp add: p_def)
  have tk: "take (k + 1 + length rest) (drop p (rbuf c)) = l @ LF # rest"
    using u nb by (simp add: unread_def p_def nat_add_distrib)
  then obtain post where r: "drop p (rbuf c) = l @ LF # rest @ post"
    by (metis append.assoc append_Cons append_take_drop_id)
  have elk: "el \<le> k" "1 < k \<Longrightarrow> (l @ LF # rest) ! (k - 1) = last l"
    by (simp add: el_def, cases l rule: rev_cases, auto simp: k_def nth_append)
  have el: "chomp l = take el l" "el \<le> length l"
    using elk(2) by (auto simp: el_def k_def chomp_def butlast_conv_take)
  have b: "drop p b = (l @ LF # rest @ post)[el := NUL]"
    using le elk(1) r by (simp add: b_def p_def drop_update_swap)
  also have "\<dots> = take el l @ NUL # drop (Suc el) (l @ LF # rest @ post)"
    using el(2) by (subst upd_conv_take_nth_drop) simp_all
  finally have d: "drop p b = chomp l @ NUL # drop (Suc el) (l @ LF # rest @ post)" by (simp add: el(1))
  show "length b = length (rbuf c)" by (simp add: b_def)
  then show "nat (rcurr c) + k + 1 + length rest \<le> length b" using le by (simp add: p_def)
  show "NUL \<in> set (drop (nat (rcurr c)) b)" using d by (simp add: p_def)
  show "cstr (drop (nat (rcurr c)) b) = cstr (chomp l)"
    unfolding p_def [symmetric] d by (rule cstr_cut)
  show "drop (nat (rcurr c) + k + 1) b = drop (nat (rcurr c) + k + 1) (rbuf c)"
    using elk(1) by (simp add: b_def)
  have "drop (k + 1) (drop p (rbuf c)) = rest @ post" by (simp add: r k_def)
  then show "take (length rest) (drop (nat (rcurr c) + k + 1) (rbuf c)) = rest"
    by (simp add: p_def add.commute add.left_commute)
qed

section \<open>Running a line on a client connection\<close>

text \<open>A client connection on which commands can run.\<close>

definition client_ready :: "world \<Rightarrow> conn \<Rightarrow> item \<Rightarrow> bool" where
  "client_ready w c it \<longleftrightarrow>
     c_type c = client_conn \<and> arrays_ok c \<and> wbuf_ok c \<and> items_ok c \<and> live_stats (config w) c \<and>
     (s_alloc (config w) \<longrightarrow> c_thread c \<noteq> None) \<and> fixed_item w = Some it \<and> sized it \<and> mem_ok (w_env w)"

text \<open>What the line with the words \<open>ws\<close> makes of the connection and of the configuration.\<close>

definition executes :: "item \<Rightarrow> string list \<Rightarrow> settings \<Rightarrow> conn \<Rightarrow> settings \<Rightarrow> conn \<Rightarrow> bool" where
  "executes it ws cfg c cfg' c' \<longleftrightarrow>
     (if recognised ws then counted_cfg cfg c cfg' \<and> cmd_post it ws [[]] (c\<lparr>msgcurr := 0\<rparr>) c'
      else cfg' = cfg \<and> says c' (''ERROR'' @ CRLF))"

lemma cmd_post_cong: "msgcurr d = msgcurr c \<Longrightarrow> wbuf d = wbuf c \<Longrightarrow> cmd_post it ws msgs d c' = cmd_post it ws msgs c c'"
  by (simp add: cmd_post_def get_reply_def)

lemma counted_cfg_cong: "c_stats d = c_stats c \<Longrightarrow> counted_cfg cfg d cfg' = counted_cfg cfg c cfg'"
  by (simp add: counted_cfg_def)

lemma cmd_post_arrays: "cmd_post it ws msgs c c' \<Longrightarrow> arrays_ok c'"
  by (auto simp: cmd_post_def says_def get_reply_def dest: out_rep_arrays split: if_splits)

lemma process_command_client:
  assumes c: "w_conns w a = Some c" and ready: "client_ready w c it"
    and nul: "NUL \<in> set (drop p (rbuf c))" and ws: "ws = words (cstr (drop p (rbuf c)))"
  shows "\<exists>e cfg c'. process_command w a p = Ok (put_conn a c' (w\<lparr>w_env := e, config := cfg\<rparr>)) \<and>
    mem_ok e \<and> same_net (w_env w) e \<and> same_cmd c c' \<and> arrays_ok c' \<and> wbuf_ok c' \<and> items_ok c' \<and>
    same_outside p (p + length (cstr (drop p (rbuf c)))) (rbuf c) (rbuf c') \<and> executes it ws (config w) c cfg c'"
proof -
  have r: "c_type c = client_conn" "arrays_ok c" "wbuf_ok c" "items_ok c" "live_stats (config w) c"
    "s_alloc (config w) \<longrightarrow> c_thread c \<noteq> None" "fixed_item w = Some it" "sized it" "mem_ok (w_env w)"
    using ready by (simp_all add: client_ready_def)
  obtain d where d: "conn_add_msghdr (w_env w) (c\<lparr>msgcurr := 0, msgused := 0, iovused := 0\<rparr>) = Ok (True, w_env w, d)"
    "out_rep d [[]]" "same_out (c\<lparr>msgcurr := 0\<rparr>) d"
    using conn_add_msghdr_first [OF r(2)] .
  note f = same_out_fields [OF d(3), simplified]
  have sd: "same_cmd c d" using same_out_cmd [OF d(3)] by (simp add: same_cmd_def but_cmd_def but_resp_def but_out_def)
  have dd: "wbuf_ok d" "items_ok d" "live_stats (config w) d" "s_alloc (config w) \<longrightarrow> c_thread d \<noteq> None"
    "c_type d = client_conn" "rbuf d = rbuf c" "c_stats d = c_stats c" "msgcurr d = 0" "wbuf d = wbuf c"
    using r f by (simp_all add: wbuf_ok_def items_ok_def live_stats_def)
  show ?thesis
  proof (cases "recognised ws")
    case True
    have "runs it (config w) (w_env w) d p [[]] ws"
      using parse_command_runs [OF d(2) _ r(9) dd(2) r(8) dd(1,4,3), of p] nul True ws dd(6) by simp
    then obtain cfg e c' where p: "parse_command (Some it) (config w) (w_env w) d p = Ok (True, cfg, e, c')" "mem_ok e" "same_cmd d c'"
      "items_ok c'" "same_outside p (p + length (cstr (drop p (rbuf d)))) (rbuf d) (rbuf c')" "counted_cfg (config w) d cfg"
      "cmd_post it ws [[]] d c'"
      unfolding runs_def by (elim exE conjE) (rule that)
    have "process_command w a p = Ok (put_conn a c' (w\<lparr>w_env := e, config := cfg\<rparr>))"
      using c d(1) dd(5) p(1) r(7) by (simp add: process_command_def)
    moreover have "executes it ws (config w) c cfg c'"
      using True p(6,7) cmd_post_cong [of d "c\<lparr>msgcurr := 0\<rparr>"] counted_cfg_cong [OF dd(7)] dd(8,9) by (simp add: executes_def)
    moreover have "wbuf_ok c'" using cmd_post_wbuf [OF p(7,3) dd(1)] .
    ultimately show ?thesis
      using p parse_command_net [OF p(1)] same_cmd_trans [OF sd p(3)] cmd_post_arrays [OF p(7)] dd(6)
      by (intro exI [of _ e] exI [of _ cfg] exI [of _ c']) simp
  next
    case False
    obtain b where b: "parse_command (Some it) (config w) (w_env w) d p = Ok (False, config w, w_env w, d\<lparr>rbuf := b\<rparr>)"
      "same_outside p (p + length (cstr (drop p (rbuf d)))) (rbuf d) b"
      using parse_command_unknown [of p d] nul False ws dd(6) by metis
    have "arrays_ok (d\<lparr>rbuf := b\<rparr>)" "wbuf_ok (d\<lparr>rbuf := b\<rparr>)"
      using out_rep_arrays [OF d(2)] dd(1) by (simp_all add: arrays_ok_def wbuf_ok_def)
    then obtain c' where c': "error_response (w_env w) (d\<lparr>rbuf := b\<rparr>) ''ERROR'' = Ok (w_env w, c')" "says c' (''ERROR'' @ CRLF)"
      "same_resp (d\<lparr>rbuf := b\<rparr>) c'"
      using error_response_says [of "d\<lparr>rbuf := b\<rparr>" "''ERROR''" "w_env w"] by auto
    note f' = same_resp_fields [OF c'(3)]
    have "process_command w a p = Ok (put_conn a c' (w\<lparr>w_env := w_env w, config := config w\<rparr>))"
      using c d(1) dd(5) b(1) r(7) c'(1) by (simp add: process_command_def)
    moreover have "same_cmd c c'" using same_cmd_trans [OF sd] same_resp_cmd [OF c'(3)] by simp
    moreover have "items_ok c'" "rbuf c' = b" using f' dd(2) by (simp_all add: items_ok_def)
    ultimately show ?thesis
      using c'(2) False b(2) r(9) dd(6) out_rep_arrays
      by (intro exI [of _ "w_env w"] exI [of _ "config w"] exI [of _ c']) (auto simp: executes_def says_def)
  qed
qed

section \<open>Reading a line\<close>

lemma executes_window [simp]:
  "executes it ws cfg c cfg' (c'\<lparr>rbytes := n, rcurr := m\<rparr>) = executes it ws cfg c cfg' c'"
  "executes it ws cfg (c\<lparr>rbuf := b\<rparr>) cfg' c' = executes it ws cfg c cfg' c'"
  by (simp_all add: executes_def cmd_post_def counted_cfg_def says_def get_reply_def out_rep_def wbuf_ok_def)

lemma read_command_finds:
  assumes c: "w_conns w a = Some c" and ok: "in_ok c" and u: "unread c = l @ LF # rest" "LF \<notin> set l"
  defines "el \<equiv> (if length l > 1 \<and> (l @ LF # rest) ! (length l - 1) = CR then length l - 1 else length l)"
  shows "read_command w a =
    bindR (process_command (put_conn a (c\<lparr>rbuf := (rbuf c)[nat (rcurr c) + el := NUL]\<rparr>) w) a (nat (rcurr c))) (\<lambda>w.
      with_conn w a (\<lambda>d.
        let d = d\<lparr>rbytes := rbytes d - (rcurr c + int (length l) + 1 - rcurr d), rcurr := rcurr c + int (length l) + 1\<rparr> in
        if rcurr d \<le> rsize d then Ok (True, put_conn a d w) else Err Abort))"
proof -
  have u': "take (nat (rbytes c)) (drop (nat (rcurr c)) (rbuf c)) = l @ LF # rest" using u(1) by (simp add: unread_def)
  have k: "length (takeWhile (\<lambda>x. x \<noteq> LF) (l @ LF # rest)) = length l" using takeWhile_LF [OF u(2)] by simp
  have "0 < rbytes c" using unread_length [OF ok] u(1) by (cases "rbytes c \<le> 0") auto
  then have g: "rcurr c \<le> rsize c \<and> rbytes c > 0" "\<not> (rcurr c < 0 \<or> int (length (rbuf c)) < rcurr c + rbytes c)"
    using ok by (auto simp: in_ok_def)
  show ?thesis
    unfolding read_command_def with_conn_Some [OF c] using g
    by (simp only: u' k Let_def el_def simp_thms if_True if_False not_True_eq_False length_append list.size) simp
qed

lemma read_command_line:
  assumes c: "w_conns w a = Some c" and ok: "in_ok c" and ready: "client_ready w c it"
    and u: "unread c = l @ LF # rest" "LF \<notin> set l"
  shows "\<exists>e cfg c'. read_command w a = Ok (True, put_conn a c' (w\<lparr>w_env := e, config := cfg\<rparr>)) \<and>
    mem_ok e \<and> same_net (w_env w) e \<and> in_ok c' \<and> unread c' = rest \<and> arrays_ok c' \<and> wbuf_ok c' \<and> items_ok c' \<and>
    c_type c' = c_type c \<and> c_sfd c' = c_sfd c \<and> c_stats c' = c_stats c \<and> c_thread c' = c_thread c \<and>
    executes it (words (cstr (chomp l))) (config w) c cfg c'"
proof -
  define el where "el = (if length l > 1 \<and> (l @ LF # rest) ! (length l - 1) = CR then length l - 1 else length l)"
  define p where "p = nat (rcurr c)"
  define b where "b = (rbuf c)[p + el := NUL]"
  define d where "d = c\<lparr>rbuf := b\<rparr>"
  note cb = chomp_buffer [OF ok u(1), folded el_def p_def, folded b_def]
  have ready': "client_ready (put_conn a d w) d it"
    using ready by (simp add: client_ready_def d_def put_conn_def arrays_ok_def wbuf_ok_def items_ok_def live_stats_def)
  obtain e cfg c1 where r: "process_command (put_conn a d w) a p = Ok (put_conn a c1 (put_conn a d w\<lparr>w_env := e, config := cfg\<rparr>))"
    "mem_ok e" "same_net (w_env (put_conn a d w)) e" "same_cmd d c1" "arrays_ok c1" "wbuf_ok c1" "items_ok c1"
    "same_outside p (p + length (cstr (drop p (rbuf d)))) (rbuf d) (rbuf c1)"
    "executes it (words (cstr (drop p (rbuf d)))) (config (put_conn a d w)) d cfg c1"
    using process_command_client [of "put_conn a d w" a d it p, OF _ ready' _ refl] cb(3)
    by (simp add: put_conn_def d_def) blast
  note f = same_cmd_fields [OF r(4)]
  define k where "k = length l"
  have rb: "rbytes c = int k + 1 + int (length rest)" "0 \<le> rcurr c" "rcurr c + rbytes c \<le> rsize c"
    "int (length (rbuf c)) = rsize c" "0 < rsize c" "rsize c \<le> INT_MAX"
    using cb(7) ok by (simp_all add: k_def in_ok_def)
  define c' where "c' = c1\<lparr>rbytes := int (length rest), rcurr := rcurr c + int k + 1\<rparr>"
  have d: "rcurr d = rcurr c" "rbytes d = rbytes c" "rsize d = rsize c" "rbuf d = b" "c_type d = c_type c" "c_sfd d = c_sfd c"
    "c_stats d = c_stats c" "c_thread d = c_thread c" by (simp_all add: d_def)
  have w: "w_conns (put_conn a c1 (put_conn a d w\<lparr>w_env := e, config := cfg\<rparr>)) a = Some c1" by (simp add: put_conn_def)
  have put: "put_conn a c' (put_conn a c1 (put_conn a d w\<lparr>w_env := e, config := cfg\<rparr>)) = put_conn a c' (w\<lparr>w_env := e, config := cfg\<rparr>)"
    by (simp add: put_conn_def)
  have run: "read_command w a = Ok (True, put_conn a c' (w\<lparr>w_env := e, config := cfg\<rparr>))"
    using read_command_finds [OF c ok u, folded el_def p_def, folded b_def, folded d_def] r(1) w f(3,4,5) d(1-3) rb
    unfolding put [symmetric] by (simp add: Let_def c'_def k_def)
  have len: "length (cstr (drop p b)) \<le> k"
  proof -
    have "length (cstr (chomp l)) \<le> length (chomp l)" by (simp add: cstr_def length_takeWhile_le)
    also have "\<dots> \<le> k" by (simp add: chomp_def k_def)
    finally show ?thesis using cb(4) by simp
  qed
  have "length (rbuf c1) = length b" using r(8) d(4) by (simp add: same_outside_def)
  then have in': "in_ok c'" using cb(1) rb f(5) d(3) by (simp add: in_ok_def c'_def)
  have "same_outside p (p + k + 1) b (rbuf c1)"
    using same_outside_widen [OF r(8), of p "p + k + 1"] len d(4) by simp
  then have "drop (p + k + 1) (rbuf c1) = drop (p + k + 1) (rbuf c)"
    using cb(5) by (simp add: same_outside_def k_def)
  moreover have "nat (rcurr c + int k + 1) = p + k + 1" using rb(2) by (simp add: p_def nat_add_distrib)
  ultimately have "unread c' = rest" using cb(6) by (simp add: unread_def c'_def k_def)
  moreover have "executes it (words (cstr (chomp l))) (config w) c cfg c'"
    using r(9) cb(4) d(4) by (simp add: c'_def d_def put_conn_def)
  moreover have "arrays_ok c'" "wbuf_ok c'" "items_ok c'"
    using r(5-7) by (simp_all add: c'_def arrays_ok_def wbuf_ok_def items_ok_def)
  moreover have "c_type c' = c_type c" "c_sfd c' = c_sfd c" "c_stats c' = c_stats c" "c_thread c' = c_thread c"
    using f d by (simp_all add: c'_def)
  moreover have "same_net (w_env w) e" using r(3) by (simp add: put_conn_def)
  ultimately show ?thesis using run r(2) in'
    by (intro exI [of _ e] exI [of _ cfg] exI [of _ c']) simp
qed

text \<open>Without an end of line nothing is taken off the buffer.\<close>

lemma has_prefix_cases: "(\<exists>b. has_prefix buf lit = Ok b) \<or> has_prefix buf lit = Err OutOfBounds"
  by (induction buf lit rule: has_prefix.induct) auto

lemma rc_no_line_cases:
  "rc_no_line c = Ok (False, c) \<or> rc_no_line c = Ok (True, c\<lparr>c_state := conn_closing\<rparr>) \<or> rc_no_line c = Err OutOfBounds"
proof -
  define r where "r = drop (nat (rcurr c)) (rbuf c)"
  define k where "k = length (takeWhile (\<lambda>x. x = SP) r)"
  have eq: "rc_no_line c =
     (if rbytes c > 1024 then
        if k = length r then Err OutOfBounds
        else if k > 100 then Ok (True, c\<lparr>c_state := conn_closing\<rparr>)
        else
          bindR (has_prefix (drop k r) ''get '') (\<lambda>get.
            if get then Ok (False, c)
            else bindR (has_prefix (drop k r) ''gets '') (\<lambda>gets. if gets then Ok (False, c) else Ok (True, c\<lparr>c_state := conn_closing\<rparr>)))
      else Ok (False, c))"
    unfolding rc_no_line_def Let_def r_def k_def by (simp only: conn_set_state_proper proper_state_simps bindR_simps)
  define g h where "g = has_prefix (drop k r) ''get ''" and "h = has_prefix (drop k r) ''gets ''"
  have "(\<exists>b. g = Ok b) \<or> g = Err OutOfBounds" "(\<exists>b. h = Ok b) \<or> h = Err OutOfBounds"
    unfolding g_def h_def by (rule has_prefix_cases)+
  then show ?thesis unfolding eq g_def [symmetric] h_def [symmetric] by (elim disjE exE) (simp_all split: if_split)
qed

lemma read_command_partial:
  assumes c: "w_conns w a = Some c" and ok: "in_ok c" "0 < rbytes c" and u: "LF \<notin> set (unread c)"
  shows "read_command w a = bindR (rc_no_line c) (\<lambda>(r, c). Ok (r, put_conn a c w))"
proof -
  have "takeWhile (\<lambda>x. x \<noteq> LF) (unread c) = unread c" using u by (auto simp: takeWhile_eq_all_conv)
  then have k: "length (takeWhile (\<lambda>x. x \<noteq> LF) (unread c)) = length (unread c)" by (rule arg_cong)
  have g: "rcurr c \<le> rsize c \<and> rbytes c > 0" "\<not> (rcurr c < 0 \<or> int (length (rbuf c)) < rcurr c + rbytes c)"
    using ok by (auto simp: in_ok_def)
  show ?thesis
    unfolding read_command_def with_conn_Some [OF c] using g
    by (simp only: unread_def [symmetric] k Let_def simp_thms if_True if_False not_True_eq_False)
qed

section \<open>Properties\<close>

text \<open>
  C7. A complete line in the read buffer is one command: \<open>read_command\<close> runs exactly the words of the line,
  without its line end, and leaves exactly what follows the line as unread input. A supported command is
  counted and has the effect the protocol gives it; any other line is answered by \<open>ERROR\<close>. Neither sockets nor
  other connections are touched.
\<close>

theorem read_command_executes:
  assumes "w_conns w a = Some c" and "in_ok c" and "client_ready w c it"
    and "unread c = l @ LF # rest" and "LF \<notin> set l"
  shows "\<exists>w' c'. read_command w a = Ok (True, w') \<and> w_conns w' = (w_conns w)(a \<mapsto> c') \<and> in_ok c' \<and> unread c' = rest \<and>
    executes it (words (cstr (chomp l))) (config w) c (config w') c' \<and>
    wire (w_env w') = wire (w_env w) \<and> sock_in (w_env w') = sock_in (w_env w)"
proof -
  obtain e cfg c' where r: "read_command w a = Ok (True, put_conn a c' (w\<lparr>w_env := e, config := cfg\<rparr>))"
    "same_net (w_env w) e" "in_ok c'" "unread c' = rest" "executes it (words (cstr (chomp l))) (config w) c cfg c'"
    using read_command_line [OF assms] by blast
  then show ?thesis
    by (intro exI [of _ "put_conn a c' (w\<lparr>w_env := e, config := cfg\<rparr>)"] exI [of _ c']) (simp add: put_conn_def same_net_def)
qed

definition line_conn :: "string \<Rightarrow> conn" where
  "line_conn b = ready_conn b\<lparr>c_stats := Some 1\<rparr>"

definition line_world :: "string \<Rightarrow> world" where
  "line_world b = world0\<lparr>config := one_client_settings, w_conns := [1 \<mapsto> line_conn b], w_fresh := 2\<rparr>"

lemma line_world_ok:
  assumes "b \<noteq> []" and "length b \<le> 1000"
  shows "w_conns (line_world b) 1 = Some (line_conn b)" "in_ok (line_conn b)" "unread (line_conn b) = b"
    "client_ready (line_world b) (line_conn b) whole_item"
proof -
  have rc: "arrays_ok (line_conn b)" "wbuf_ok (line_conn b)" "items_ok (line_conn b)"
    using ready_conn_ok [of b] by (simp_all add: line_conn_def arrays_ok_def wbuf_ok_def items_ok_def)
  show "w_conns (line_world b) 1 = Some (line_conn b)" by (simp add: line_world_def)
  show "in_ok (line_conn b)" "unread (line_conn b) = b"
    using assms by (simp_all add: in_ok_def unread_def line_conn_def ready_conn_def zero_conn_def)
  show "client_ready (line_world b) (line_conn b) whole_item"
    using rc by (simp add: client_ready_def line_world_def line_conn_def ready_conn_def zero_conn_def live_stats_def
        one_client_settings_def plain_settings_def world0_def whole_item_complete)
qed

theorem read_command_executes_witness:
  "\<exists>w' c'. read_command (line_world (''stats'' @ CRLF @ ''get'')) 1 = Ok (True, w') \<and> w_conns w' 1 = Some c' \<and>
     unread c' = ''get'' \<and> c_state c' = conn_new_cmd"
proof -
  let ?b = "''stats'' @ CRLF @ ''get''"
  have ok: "w_conns (line_world ?b) 1 = Some (line_conn ?b)" "in_ok (line_conn ?b)" "unread (line_conn ?b) = (''stats'' @ [CR]) @ LF # ''get''"
    "client_ready (line_world ?b) (line_conn ?b) whole_item"
    using line_world_ok [of ?b] by simp_all
  have w: "words (cstr (chomp (''stats'' @ [CR]))) = [''stats'']" by (simp add: chomp_def words_def)
  have "recognised [''stats'']" "\<not> is_get [''stats'']" "\<not> is_update [''stats'']"
    by (simp_all add: recognised_def is_get_def is_update_def is_stats_def)
  then show ?thesis
    using read_command_executes [OF ok(1,2,4,3)] unfolding w executes_def cmd_post_def by auto
qed

text \<open>
  C39. The scan for a multiget that has no end of line yet is not bounded by the input: when a client fills the
  read buffer with spaces, \<open>read_command\<close> reads past the end of the buffer.
\<close>

theorem read_command_overreads:
  assumes "w_conns w a = Some c" and "in_ok c" and "rcurr c = 0" and "1024 < rbytes c" and "rbytes c = rsize c"
    and "unread c = replicate (nat (rbytes c)) SP"
  shows "read_command w a = Err OutOfBounds"
proof -
  have "length (rbuf c) = nat (rbytes c)" using assms(2,5) by (auto simp: in_ok_def)
  then have b: "rbuf c = replicate (nat (rbytes c)) SP" using assms(3,6) by (simp add: unread_def)
  have "takeWhile (\<lambda>x. x = SP) (rbuf c) = rbuf c" by (simp add: b takeWhile_eq_all_conv)
  then have "length (takeWhile (\<lambda>x. x = SP) (rbuf c)) = length (rbuf c)" by (rule arg_cong)
  then have "rc_no_line c = Err OutOfBounds" using assms(3,4) by (simp add: rc_no_line_def Let_def)
  moreover have "LF \<notin> set (unread c)" using assms(6) by simp
  ultimately show ?thesis using read_command_partial [OF assms(1,2)] assms(4) by simp
qed

theorem read_command_overreads_witness: "read_command (line_world (replicate 2048 SP)) 1 = Err OutOfBounds"
proof (rule read_command_overreads)
  show "w_conns (line_world (replicate 2048 SP)) 1 = Some (line_conn (replicate 2048 SP))" by (simp add: line_world_def)
qed (simp_all add: in_ok_def unread_def line_conn_def ready_conn_def zero_conn_def)

end
