(* ===== verification/Threads.thy ===== *)
theory Threads
  imports Memcache_Conn
begin

text \<open>
  \<open>threads.c\<close>: the worker threads and the hand-over of new connections. The dispatcher puts a new
  descriptor on the queue of the next worker in turn and writes one byte to that worker's notification
  pipe; the worker reads a byte per event and takes one descriptor from its queue.

  The threads share the queues only, each under its mutex, so an execution is a sequence of dispatches
  and of handler runs: the relation \<open>handover\<close>. The system calls that start threads and pipes are
  parameters, and so is which reads and writes on a pipe fail; the code reports such a failure and goes on.
\<close>

section \<open>Handing over\<close>

text \<open>Returns a fresh connection queue item; its contents are set by the caller.\<close>

definition cqi_new :: "world \<Rightarrow> addr option \<times> world" where
  "cqi_new w =
     (case alloc (w_env w) of (ok, e) \<Rightarrow>
        if \<not> ok then (None, w\<lparr>w_env := e\<rparr>)
        else (Some (w_qfresh w),
              w\<lparr>w_env := e, w_qfresh := Suc (w_qfresh w),
                w_qheap := (w_qheap w)(w_qfresh w \<mapsto>
                  \<lparr>nc_client_id = 0, nc_sfd = 0, nc_init_state = conn_min_state, nc_event_flags = 0, nc_next = None,
                   nc_read_buffer_size = 0\<rparr>)\<rparr>))"

text \<open>Frees a connection queue item.\<close>

definition new_conn_free :: "addr \<Rightarrow> world \<Rightarrow> world" where
  "new_conn_free a w = w\<lparr>w_qheap := (w_qheap w)(a := None)\<rparr>"

text \<open>
  The \<open>write\<close> of one byte to the notification pipe, which is blocking and waits for room, and the \<open>read\<close> of one byte
  into an array of the handler. After a failed read that byte is what the stack holds. A read on an empty pipe waits
  for a byte; libevent runs the handler only when there is one.
\<close>

definition notify_write :: "worker_thread_t \<Rightarrow> worker_thread_t" where
  "notify_write th =
     (case pipe_faults th of
        True # fs \<Rightarrow> th\<lparr>pipe_faults := fs\<rparr>
      | _ \<Rightarrow> th\<lparr>notify_pipe := notify_pipe th @ ''c'', pipe_faults := tl (pipe_faults th)\<rparr>)"

definition notify_read :: "env \<Rightarrow> worker_thread_t \<Rightarrow> (char \<times> worker_thread_t) option" where
  "notify_read e th =
     (case pipe_faults th of
        True # fs \<Rightarrow> Some (junk e (allocs e) 0, th\<lparr>pipe_faults := fs\<rparr>)
      | _ \<Rightarrow>
          (case notify_pipe th of
             [] \<Rightarrow> None
           | b # bs \<Rightarrow> Some (b, th\<lparr>notify_pipe := bs, pipe_faults := tl (pipe_faults th)\<rparr>)))"

text \<open>
  Dispatches a new connection to another thread. The item is written through unchecked; a division by
  zero threads ends the process.
\<close>

definition dispatch_conn_new :: "world \<Rightarrow> int \<Rightarrow> conn_states \<Rightarrow> int \<Rightarrow> int \<Rightarrow> world res" where
  "dispatch_conn_new w sfd init_state event_flags read_buffer_size =
     (case cqi_new w of (p, w) \<Rightarrow>
      if threads (config w) = 0 then Err Abort
      else
        let t = (last_thread w + 1) smod threads (config w);
            w = w\<lparr>last_thread := t\<rparr> in
        case p of
          None \<Rightarrow> Err NullDeref
        | Some a \<Rightarrow>
            (case rand (w_env w) of (client_id, e) \<Rightarrow>
             let h = (w_qheap w)(a \<mapsto> \<lparr>nc_client_id = client_id, nc_sfd = sfd, nc_init_state = init_state,
                       nc_event_flags = event_flags, nc_next = None, nc_read_buffer_size = read_buffer_size\<rparr>) in
             if t < 0 \<or> int (length (w_threads w)) \<le> t then Err OutOfBounds
             else
               let th = w_threads w ! nat t in
               bindR (conn_queue_push (h, new_conn_queue th) a) (\<lambda>(h, cq).
                 Ok (w\<lparr>w_env := e, w_qheap := h,
                       w_threads := (w_threads w)[nat t := notify_write (th\<lparr>new_conn_queue := cq\<rparr>)]\<rparr>))))"

text \<open>
  Handles a new connection event for a particular thread. A failed read is only reported: the \<open>switch\<close> looks at the
  byte all the same.
\<close>

definition thread_new_conn_handler :: "world \<Rightarrow> nat \<Rightarrow> world res" where
  "thread_new_conn_handler w t =
     (if length (w_threads w) \<le> t then Err OutOfBounds
      else let me = w_threads w ! t in
      case notify_read (w_env w) me of
        None \<Rightarrow> None
      | Some (b, me) \<Rightarrow>
          let w = w\<lparr>w_threads := (w_threads w)[t := me]\<rparr> in
          if b \<noteq> CHR ''c'' then Ok w
          else
            bindR (conn_queue_pop (w_qheap w, new_conn_queue me)) (\<lambda>(p, h, cq).
            let w = w\<lparr>w_qheap := h, w_threads := (w_threads w)[t := (w_threads w ! t)\<lparr>new_conn_queue := cq\<rparr>]\<rparr> in
            case p of
              None \<Rightarrow> Ok w
            | Some a \<Rightarrow>
                (case w_qheap w a of
                   None \<Rightarrow> Err NullDeref
                 | Some n \<Rightarrow>
                     bindR (conn_new w client_conn (nc_client_id n) (nc_sfd n) (nc_init_state n) (nc_event_flags n)
                              (nc_read_buffer_size n)) (\<lambda>(p, w).
                       case p of
                         None \<Rightarrow> Ok (new_conn_free a (close_fd (nc_sfd n) w))
                       | Some k \<Rightarrow> with_conn w k (\<lambda>c. Ok (new_conn_free a (put_conn k (c\<lparr>c_thread := Some t\<rparr>) w)))))))"

section \<open>Starting the workers\<close>

text \<open>The loop of \<open>setup_thread\<close> over the backends, from index \<open>i\<close> with \<open>n\<close> left.\<close>

fun connect_backends ::
  "(string \<Rightarrow> string \<Rightarrow> net_result) \<Rightarrow> bool \<Rightarrow> nat \<Rightarrow> nat \<Rightarrow> addr list \<Rightarrow> world \<Rightarrow> (addr list \<times> world) res"
where
  "connect_backends net arr_ok i 0 mcs w = Ok (mcs, w)"
| "connect_backends net arr_ok i (Suc n) mcs w =
     bindR (memcache_connect net w i) (\<lambda>(p, w).
       case p of
         None \<Rightarrow> connect_backends net arr_ok (i + 1) n mcs w
       | Some mc \<Rightarrow> if arr_ok then connect_backends net arr_ok (i + 1) n (mcs @ [mc]) w else Err NullDeref)"

text \<open>
  Set up a worker thread with the pipe \<open>fds\<close>, its two descriptors and the failures on it: its event base, the notification event, the queue and the backend
  connections. The random generator is part of the environment.
\<close>

definition setup_thread ::
  "(string \<Rightarrow> string \<Rightarrow> net_result) \<Rightarrow> int \<times> int \<times> bool list \<Rightarrow> world \<Rightarrow> (worker_thread_t \<times> world) res"
where
  "setup_thread net fds w =
     (case alloc (w_env w) of (base_ok, e) \<Rightarrow>
        if \<not> base_ok then Err (Exit 1)
        else case event_call e of (add_ok, e) \<Rightarrow>
          if \<not> add_ok then Err (Exit 1)
          else
            bindR (conn_queue_new e) (\<lambda>(cq, e).
            case alloc e of (arr_ok, e) \<Rightarrow>
            bindR (connect_backends net arr_ok 0 (bk_len (s_backends (config w))) [] (w\<lparr>w_env := e\<rparr>)) (\<lambda>(mcs, w).
              Ok (\<lparr>notify_receive_fd = fst fds, notify_send_fd = fst (snd fds), notify_pipe = [], pipe_faults = snd (snd fds),
                   new_conn_queue = cq, memcache = mcs\<rparr>, w))))"

definition MAX_CPUS :: nat where "MAX_CPUS = 1024"

text \<open>The search for the next processor in the affinity mask, \<open>n\<close> candidates left at offset \<open>i\<close>.\<close>

fun next_cpu :: "(int \<Rightarrow> bool) \<Rightarrow> int \<Rightarrow> nat \<Rightarrow> nat \<Rightarrow> int option" where
  "next_cpu m cur i 0 = None"
| "next_cpu m cur i (Suc n) =
     (let c = (cur + int i + 1) smod int MAX_CPUS in if m c then Some c else next_cpu m cur (i + 1) n)"

text \<open>
  Creates a worker thread. \<open>m\<close> is the process's affinity mask, \<open>attr_ok\<close> and \<open>create_ok\<close> say whether
  the two \<open>pthread\<close> calls succeed.
\<close>

definition create_worker :: "(int \<Rightarrow> bool) \<Rightarrow> bool \<Rightarrow> bool \<Rightarrow> world \<Rightarrow> world res" where
  "create_worker m attr_ok create_ok w =
     bindR (if thread_affinity (config w) then
              (case next_cpu m (current_cpu w) 0 MAX_CPUS of
                 None \<Rightarrow> Ok w
               | Some c \<Rightarrow> if \<not> attr_ok then Err (Exit 1) else Ok (w\<lparr>current_cpu := c\<rparr>))
            else Ok w) (\<lambda>w.
       if \<not> create_ok then Err (Exit 1) else Ok w)"

definition register_thread_initialized :: "world \<Rightarrow> world" where
  "register_thread_initialized w = w\<lparr>init_count := init_count w + 1\<rparr>"

text \<open>The two loops of \<open>thread_init\<close>, and the workers' registrations it waits for.\<close>

fun setup_threads ::
  "(string \<Rightarrow> string \<Rightarrow> net_result) \<Rightarrow> (int \<times> int \<times> bool list) option list \<Rightarrow> world \<Rightarrow> world res"
where
  "setup_threads net [] w = Ok w"
| "setup_threads net (p # ps) w =
     (case p of
        None \<Rightarrow> Err (Exit 1)
      | Some fds \<Rightarrow>
          bindR (setup_thread net fds w) (\<lambda>(t, w). setup_threads net ps (w\<lparr>w_threads := w_threads w @ [t]\<rparr>)))"

fun create_workers :: "(int \<Rightarrow> bool) \<Rightarrow> (bool \<times> bool) list \<Rightarrow> world \<Rightarrow> world res" where
  "create_workers m [] w = Ok w"
| "create_workers m ((attr_ok, create_ok) # r) w =
     bindR (create_worker m attr_ok create_ok w) (\<lambda>w. create_workers m r w)"

text \<open>
  Initializes the thread subsystem. \<open>pipe i\<close> and \<open>create i\<close> are the outcomes of the system calls for thread
  \<open>i\<close>. The wait at the end returns when \<open>init_count\<close> has reached the number of threads; each worker that was
  created registers once (\<open>Barrier\<close> has the steps of both).
\<close>

definition thread_init ::
  "(string \<Rightarrow> string \<Rightarrow> net_result) \<Rightarrow> (nat \<Rightarrow> (int \<times> int \<times> bool list) option) \<Rightarrow> (int \<Rightarrow> bool) \<Rightarrow> (nat \<Rightarrow> bool \<times> bool) \<Rightarrow>
   int \<Rightarrow> world \<Rightarrow> world res"
where
  "thread_init net pipe m create nthreads w =
     (case alloc (w_env w) of (ok, e) \<Rightarrow>
        if \<not> ok then Err (Exit 1)
        else
          bindR (setup_threads net (map pipe [0..<nat nthreads]) (w\<lparr>w_env := e, w_threads := []\<rparr>)) (\<lambda>w.
          bindR (create_workers m (map create [0..<nat nthreads]) w) (\<lambda>w.
            let w = (register_thread_initialized ^^ nat nthreads) w in
            if init_count w < nthreads then None else Ok w)))"

lemma smod_nonneg: "0 \<le> a \<Longrightarrow> 0 < b \<Longrightarrow> a smod b = a mod (b :: int)"
  by (cases "a = 0") (simp_all add: signed_modulo_int_def sgn_if)

section \<open>The queues of the workers\<close>

text \<open>
  The item addresses on the queues of the workers, \<open>qs ! t\<close> for worker \<open>t\<close>: no item is on two queues. When nothing
  fails on the pipes, there is one byte in a worker's pipe per item on its queue.
\<close>

definition threads_inv :: "world \<Rightarrow> addr list list \<Rightarrow> bool" where
  "threads_inv w qs \<longleftrightarrow>
     length qs = length (w_threads w) \<and>
     (\<forall>t < length qs. q_rep (w_qheap w, new_conn_queue (w_threads w ! t)) (qs ! t)) \<and>
     (\<forall>t < length qs. \<forall>u < length qs. t \<noteq> u \<longrightarrow> set (qs ! t) \<inter> set (qs ! u) = {}) \<and>
     (\<forall>a. w_qheap w a \<noteq> None \<longrightarrow> a < w_qfresh w)"

definition notified :: "world \<Rightarrow> addr list list \<Rightarrow> bool" where
  "notified w qs \<longleftrightarrow>
     (\<forall>t < length qs. notify_pipe (w_threads w ! t) = replicate (length (qs ! t)) (CHR ''c'') \<and>
        True \<notin> set (pipe_faults (w_threads w ! t)))"

lemma threads_invD:
  assumes "threads_inv w qs"
  shows "length qs = length (w_threads w)"
    "t < length qs \<Longrightarrow> q_rep (w_qheap w, new_conn_queue (w_threads w ! t)) (qs ! t)"
    "t < length qs \<Longrightarrow> u < length qs \<Longrightarrow> t \<noteq> u \<Longrightarrow> set (qs ! t) \<inter> set (qs ! u) = {}"
    "w_qheap w a \<noteq> None \<Longrightarrow> a < w_qfresh w"
  using assms by (simp_all add: threads_inv_def)

text \<open>The operations on a pipe do not touch the queue; without faults they put and take one byte.\<close>

lemma notify_write_queue [simp]: "new_conn_queue (notify_write th) = new_conn_queue th"
  by (simp add: notify_write_def split: list.split bool.split)

lemma notify_write_ok:
  "True \<notin> set (pipe_faults th) \<Longrightarrow>
   notify_pipe (notify_write th) = notify_pipe th @ ''c'' \<and> True \<notin> set (pipe_faults (notify_write th))"
  by (cases "pipe_faults th") (auto simp: notify_write_def split: bool.split)

lemma notify_read_queue: "notify_read e th = Some (b, th') \<Longrightarrow> new_conn_queue th' = new_conn_queue th"
  by (auto simp: notify_read_def split: list.splits bool.splits)

lemma notify_read_ok:
  assumes "notify_read e th = Some (b, th')" and "True \<notin> set (pipe_faults th)"
  shows "notify_pipe th = b # notify_pipe th' \<and> True \<notin> set (pipe_faults th')"
  using assms by (cases "pipe_faults th"; cases "notify_pipe th") (auto simp: notify_read_def split: bool.splits)

definition item_fd :: "qheap \<Rightarrow> addr \<Rightarrow> int" where
  "item_fd h a = (case h a of None \<Rightarrow> -1 | Some n \<Rightarrow> nc_sfd n)"

definition queued :: "world \<Rightarrow> addr list list \<Rightarrow> nat \<Rightarrow> int list" where
  "queued w qs t = map (item_fd (w_qheap w)) (qs ! t)"

lemma q_chain_cong: "\<forall>a \<in> set as. h' a = h a \<Longrightarrow> q_chain h' p as = q_chain h p as"
  by (induction as arbitrary: p) auto

lemma q_rep_cong: "\<forall>a \<in> set as. h' a = h a \<Longrightarrow> q_rep (h', cq) as = q_rep (h, cq) as"
  using q_chain_cong [of as h' h "cq_head cq"] by (simp add: q_rep_def)

lemma q_rep_live: "q_rep s as \<Longrightarrow> a \<in> set as \<Longrightarrow> fst s a \<noteq> None"
  by (auto simp: q_rep_def dest: q_chain_live)

text \<open>A push changes the pushed item and the last item of the queue only, and no descriptor.\<close>

lemma item_fd_upd: "h a = Some n \<Longrightarrow> nc_sfd n' = nc_sfd n \<Longrightarrow> item_fd (h(a \<mapsto> n')) = item_fd h \<and> dom (h(a \<mapsto> n')) = dom h"
  by (auto simp: item_fd_def fun_eq_iff)

lemma conn_queue_push_frame:
  assumes "conn_queue_push (h, cq) a = Ok (h', cq')" "q_rep (h, cq) as"
  shows "(\<forall>b. b \<noteq> a \<longrightarrow> b \<notin> set as \<longrightarrow> h' b = h b) \<and> item_fd h' = item_fd h \<and> dom h' = dom h"
proof -
  obtain n where n: "h a = Some n" using assms(1) by (auto simp: conn_queue_push_def split: option.splits)
  define h1 where "h1 = h(a \<mapsto> n\<lparr>nc_next := None\<rparr>)"
  have 1: "item_fd h1 = item_fd h" "dom h1 = dom h" using item_fd_upd [of h a n] n by (simp_all add: h1_def)
  show ?thesis
  proof (cases "cq_tail cq")
    case None
    then have "h' = h1" using assms(1) n by (simp add: conn_queue_push_def h1_def)
    then show ?thesis using 1 by (simp add: h1_def)
  next
    case (Some t)
    then have t: "t \<in> set as" using assms(2) by (auto simp: q_rep_def split: if_splits)
    obtain m where m: "h1 t = Some m" "h' = h1(t \<mapsto> m\<lparr>nc_next := Some a\<rparr>)"
      using assms(1) n Some by (auto simp: conn_queue_push_def h1_def [symmetric] split: option.splits)
    then have "item_fd h' = item_fd h1" "dom h' = dom h1" using item_fd_upd [of h1 t m] m by simp_all
    then show ?thesis using 1 t m(2) by (auto simp: h1_def)
  qed
qed

lemma dispatch_conn_new_ok:
  assumes inv: "threads_inv w qs" and mem: "alloc_ok (w_env w) (allocs (w_env w))"
    and n: "int (length (w_threads w)) = threads (config w)" "0 < threads (config w)" and last: "-1 \<le> last_thread w"
  defines "t \<equiv> nat ((last_thread w + 1) mod threads (config w))"
  shows "\<exists>w'. dispatch_conn_new w fd st fl rb = Ok w' \<and> threads_inv w' (qs[t := qs ! t @ [w_qfresh w]]) \<and>
    (notified w qs \<longrightarrow> notified w' (qs[t := qs ! t @ [w_qfresh w]])) \<and> t < length qs \<and> last_thread w' = int t \<and> config w' = config w \<and> length (w_threads w') = length (w_threads w) \<and>
    item_fd (w_qheap w') = (item_fd (w_qheap w))(w_qfresh w := fd) \<and>
    w_conns w' = w_conns w \<and> w_closed w' = w_closed w"
proof -
  let ?a = "w_qfresh w" and ?m = "threads (config w)"
  have sm: "(last_thread w + 1) smod ?m = int t"
    using last n(2) by (simp add: t_def smod_nonneg)
  have t: "t < length qs" "t < length (w_threads w)"
    using inv n by (auto simp: threads_inv_def t_def nat_less_iff)
  define th where "th = w_threads w ! t"
  have q: "q_rep (w_qheap w, new_conn_queue th) (qs ! t)"
    using inv t by (simp_all add: threads_inv_def th_def)
  have fresh: "?a \<notin> set (qs ! u)" if "u < length qs" for u
  proof
    assume "?a \<in> set (qs ! u)"
    then have "w_qheap w ?a \<noteq> None" using inv that q_rep_live by (fastforce simp: threads_inv_def)
    then show False using inv by (auto simp: threads_inv_def)
  qed
  define x where "x = \<lparr>nc_client_id = rands (w_env w) (nrand (w_env w)), nc_sfd = fd, nc_init_state = st,
      nc_event_flags = fl, nc_next = None, nc_read_buffer_size = rb\<rparr>"
  define h where "h = (w_qheap w)(?a \<mapsto> x)"
  have qh: "q_rep (h, cq) (qs ! u) = q_rep (w_qheap w, cq) (qs ! u)" if "u < length qs" for cq u
    using fresh [OF that] by (intro q_rep_cong) (auto simp: h_def)
  obtain h' cq where push: "conn_queue_push (h, new_conn_queue th) ?a = Ok (h', cq)" "q_rep (h', cq) (qs ! t @ [?a])"
    using conn_queue_push_rep [of "(h, new_conn_queue th)" "qs ! t" ?a] q qh [OF t(1)] fresh [OF t(1)]
    by (auto simp: q_live_def h_def)
  have fr: "\<forall>b. b \<noteq> ?a \<longrightarrow> b \<notin> set (qs ! t) \<longrightarrow> h' b = h b" "item_fd h' = item_fd h" "dom h' = dom h"
    using conn_queue_push_frame [OF push(1)] q qh [OF t(1)] by blast+
  define e where "e = (w_env w)\<lparr>allocs := Suc (allocs (w_env w)), nrand := Suc (nrand (w_env w))\<rparr>"
  define w' where "w' = w\<lparr>w_env := e, w_qfresh := Suc ?a, w_qheap := h', last_thread := int t,
      w_threads := (w_threads w)[t := notify_write (th\<lparr>new_conn_queue := cq\<rparr>)]\<rparr>"
  have "dispatch_conn_new w fd st fl rb = Ok w'"
    using mem n(2) sm t push(1)
    by (simp add: dispatch_conn_new_def cqi_new_def alloc_def rand_def Let_def w'_def e_def th_def h_def x_def)
  moreover have "threads_inv w' (qs[t := qs ! t @ [?a]])"
  proof -
    have other: "q_rep (h', new_conn_queue (w_threads w ! u)) (qs ! u)" if u: "u < length qs" "u \<noteq> t" for u
    proof -
      have "\<forall>b \<in> set (qs ! u). h' b = h b"
      proof
        fix b assume b: "b \<in> set (qs ! u)"
        then have "b \<noteq> ?a" "b \<notin> set (qs ! t)"
          using fresh [OF u(1)] threads_invD(3) [OF inv u(1) t(1) u(2)] by auto
        with fr(1) show "h' b = h b" by simp
      qed
      then have "q_rep (h', new_conn_queue (w_threads w ! u)) (qs ! u) = q_rep (h, new_conn_queue (w_threads w ! u)) (qs ! u)"
        by (rule q_rep_cong)
      then show ?thesis using threads_invD(2) [OF inv u(1)] qh [OF u(1)] by simp
    qed
    have dom: "b < Suc ?a" if "h' b \<noteq> None" for b
    proof -
      have "b \<in> dom h" using that fr(3) by blast
      then show ?thesis using threads_invD(4) [OF inv, of b] by (cases "b = ?a") (auto simp: h_def dom_def)
    qed
    have disj: "set ((qs[t := qs ! t @ [?a]]) ! v) \<inter> set ((qs[t := qs ! t @ [?a]]) ! u) = {}"
      if "v < length qs" "u < length qs" "v \<noteq> u" for v u
      using threads_invD(3) [OF inv that] fresh [OF that(1)] fresh [OF that(2)] that t(1)
      by (auto simp: nth_list_update split: if_splits)
    have "q_rep (w_qheap w', new_conn_queue (w_threads w' ! u)) ((qs[t := qs ! t @ [?a]]) ! u)"
      if "u < length qs" for u
      using that t push(2) other [of u] threads_invD(1) [OF inv] by (cases "u = t") (simp_all add: w'_def)
    then show ?thesis
      using disj dom threads_invD(1) [OF inv] by (simp add: threads_inv_def w'_def)
  qed
  moreover have "notified w' (qs[t := qs ! t @ [?a]])" if n: "notified w qs"
  proof -
    have "notify_pipe (w_threads w' ! u) = replicate (length ((qs[t := qs ! t @ [?a]]) ! u)) (CHR ''c'') \<and>
        True \<notin> set (pipe_faults (w_threads w' ! u))" if u: "u < length qs" for u
      using n u t notify_write_ok [of "th\<lparr>new_conn_queue := cq\<rparr>"]
      by (cases "u = t") (simp_all add: notified_def w'_def th_def replicate_append_same)
    then show ?thesis by (simp add: notified_def)
  qed
  moreover have "item_fd h' = (item_fd (w_qheap w))(?a := fd)"
    unfolding fr(2) by (simp add: h_def x_def item_fd_def fun_eq_iff)
  ultimately show ?thesis using t(1) by (intro exI [of _ w']) (simp add: w'_def)
qed

lemma threads_inv_pop:
  assumes inv: "threads_inv w qs" and t: "t < length qs" and at: "qs ! t = a # as"
    and q: "q_rep (w_qheap w, cq) as"
    and w': "w_qheap w' = (w_qheap w)(a := None)" "w_qfresh w' = w_qfresh w"
      "w_threads w' = (w_threads w)[t := th]" "new_conn_queue th = cq"
  shows "threads_inv w' (qs[t := as])"
    and "\<forall>u < length qs. \<forall>b \<in> set ((qs[t := as]) ! u). item_fd (w_qheap w') b = item_fd (w_qheap w) b"
proof -
  have d: "distinct (qs ! t)" using threads_invD(2) [OF inv t] by (simp add: q_rep_def)
  have out: "a \<notin> set ((qs[t := as]) ! u)" if "u < length qs" for u
    using threads_invD(3) [OF inv t that] d at that t by (cases "u = t") auto
  have rep: "q_rep (w_qheap w', cq') ((qs[t := as]) ! u) = q_rep (w_qheap w, cq') ((qs[t := as]) ! u)"
    if "u < length qs" for u cq'
    using out [OF that] by (intro q_rep_cong) (auto simp: w'(1))
  have len: "t < length (w_threads w)" using t threads_invD(1) [OF inv] by simp
  have "q_rep (w_qheap w', new_conn_queue (w_threads w' ! u)) ((qs[t := as]) ! u)" if "u < length qs" for u
    using that t len q rep [OF that] threads_invD(2) [OF inv that] by (cases "u = t") (simp_all add: w'(3,4))
  moreover have "set ((qs[t := as]) ! v) \<inter> set ((qs[t := as]) ! u) = {}" if "v < length qs" "u < length qs" "v \<noteq> u" for v u
    using threads_invD(3) [OF inv that] that at t by (auto simp: nth_list_update split: if_splits)
  moreover have "b < w_qfresh w'" if "w_qheap w' b \<noteq> None" for b
    using that threads_invD(4) [OF inv, of b] by (auto simp: w' split: if_splits)
  ultimately show "threads_inv w' (qs[t := as])"
    using threads_invD(1) [OF inv] by (simp add: threads_inv_def w'(3))
  show "\<forall>u < length qs. \<forall>b \<in> set ((qs[t := as]) ! u). item_fd (w_qheap w') b = item_fd (w_qheap w) b"
    using out by (auto simp: w'(1) item_fd_def)
qed

lemma same_rest_config:
  assumes "same_rest w w'"
  shows "fixed_item w' = fixed_item w" "s_alloc (config w') = s_alloc (config w)"
proof -
  have "(config w')\<lparr>s_stats := new_stats\<rparr> = (config w)\<lparr>s_stats := new_stats\<rparr>" "fixed_item w' = fixed_item w"
    using assms by (simp_all add: same_rest_def)
  from arg_cong [OF this(1), of s_alloc] this(2) show "fixed_item w' = fixed_item w" "s_alloc (config w') = s_alloc (config w)"
    by simp_all
qed

lemma same_restD:
  assumes "same_rest w w'"
  shows "w_threads w' = w_threads w" "last_thread w' = last_thread w" "w_qheap w' = w_qheap w" "w_qfresh w' = w_qfresh w"
    "threads (config w') = threads (config w)"
proof -
  have "threads ((config w')\<lparr>s_stats := new_stats\<rparr>) = threads ((config w)\<lparr>s_stats := new_stats\<rparr>)"
    using assms by (simp only: same_rest_def)
  then show "threads (config w') = threads (config w)" by simp
qed (use assms in \<open>simp_all add: same_rest_def\<close>)

text \<open>The descriptor that the next run of a worker's handler takes from its queue.\<close>

definition next_fd :: "world \<Rightarrow> nat \<Rightarrow> int option" where
  "next_fd w t =
     (let th = w_threads w ! t in
      case notify_read (w_env w) th of
        None \<Rightarrow> None
      | Some (b, _) \<Rightarrow> if b = CHR ''c'' then map_option (item_fd (w_qheap w)) (cq_head (new_conn_queue th)) else None)"

lemma next_fd_queue:
  assumes "threads_inv w qs" "t < length qs" "notify_read (w_env w) (w_threads w ! t) = Some (b, th)"
  shows "next_fd w t =
    (if b = CHR ''c'' then case qs ! t of [] \<Rightarrow> None | a # as \<Rightarrow> Some (item_fd (w_qheap w) a) else None)"
  using threads_invD(2) [OF assms(1,2)] assms(3) by (cases "qs ! t") (auto simp: next_fd_def q_rep_def Let_def)

text \<open>The handler up to the new connection.\<close>

lemma handler_takes:
  assumes inv: "threads_inv w qs" and t: "t < length qs" and at: "qs ! t = a # as"
    and rd: "notify_read (w_env w) (w_threads w ! t) = Some (CHR ''c'', me)"
  obtains cq n w1 where "q_rep (w_qheap w, cq) as" "w_qheap w a = Some n"
    "w_threads w1 = (w_threads w)[t := me\<lparr>new_conn_queue := cq\<rparr>]"
    "thread_new_conn_handler w t =
       bindR (conn_new w1 client_conn (nc_client_id n) (nc_sfd n) (nc_init_state n) (nc_event_flags n)
                              (nc_read_buffer_size n)) (\<lambda>(p, w).
                       case p of
                         None \<Rightarrow> Ok (new_conn_free a (close_fd (nc_sfd n) w))
                       | Some k \<Rightarrow> with_conn w k (\<lambda>c. Ok (new_conn_free a (put_conn k (c\<lparr>c_thread := Some t\<rparr>) w))))"
    "w1 = w\<lparr>w_threads := w_threads w1\<rparr>"
proof -
  define th where "th = w_threads w ! t"
  have q: "q_rep (w_qheap w, new_conn_queue th) (a # as)" "new_conn_queue me = new_conn_queue th"
    using threads_invD(2) [OF inv t] at notify_read_queue [OF rd] by (simp_all add: th_def)
  obtain h cq where pop: "conn_queue_pop (w_qheap w, new_conn_queue th) = Ok (Some a, h, cq)" "q_rep (h, cq) as"
    using conn_queue_pop_first [OF q(1)] by auto
  have h: "h = w_qheap w" using conn_queue_pop_heap [OF pop(1)] .
  obtain n where n: "w_qheap w a = Some n" using q_rep_live [OF q(1), of a] by auto
  have len: "t < length (w_threads w)" using t threads_invD(1) [OF inv] by simp
  define w1 where "w1 = w\<lparr>w_threads := (w_threads w)[t := me\<lparr>new_conn_queue := cq\<rparr>]\<rparr>"
  show ?thesis
  proof (rule that [of cq n w1])
    show "thread_new_conn_handler w t =
       bindR (conn_new w1 client_conn (nc_client_id n) (nc_sfd n) (nc_init_state n) (nc_event_flags n)
                              (nc_read_buffer_size n)) (\<lambda>(p, w).
                       case p of
                         None \<Rightarrow> Ok (new_conn_free a (close_fd (nc_sfd n) w))
                       | Some k \<Rightarrow> with_conn w k (\<lambda>c. Ok (new_conn_free a (put_conn k (c\<lparr>c_thread := Some t\<rparr>) w))))"
      using len rd q(2) pop(1) n h by (simp add: thread_new_conn_handler_def th_def Let_def w1_def)
  qed (use pop(2) h n in \<open>simp_all add: w1_def th_def same_rest_def\<close>)
qed

text \<open>A byte that is no notification, or an empty queue: only the pipe has changed.\<close>

lemma handler_idle:
  assumes inv: "threads_inv w qs" and t: "t < length qs" and run: "thread_new_conn_handler w t = Ok w'"
    and rd: "notify_read (w_env w) (w_threads w ! t) = Some (b, me)" and idle: "b = CHR ''c'' \<longrightarrow> qs ! t = []"
  shows "w' = w\<lparr>w_threads := (w_threads w)[t := me]\<rparr>" "threads_inv w' qs" "\<not> notified w qs"
proof -
  have len: "t < length (w_threads w)" using t threads_invD(1) [OF inv] by simp
  note me = notify_read_queue [OF rd]
  show w': "w' = w\<lparr>w_threads := (w_threads w)[t := me]\<rparr>"
  proof (cases "b = CHR ''c''")
    case True
    then have "q_rep (w_qheap w, new_conn_queue me) []" using threads_invD(2) [OF inv t] idle me by simp
    then have "conn_queue_pop (w_qheap w, new_conn_queue me) = Ok (None, w_qheap w, new_conn_queue me)"
      by (rule conn_queue.pop_empty)
    then show ?thesis using run len rd True by (simp add: thread_new_conn_handler_def Let_def)
  qed (use run len rd in \<open>simp add: thread_new_conn_handler_def Let_def\<close>)
  have "new_conn_queue (w_threads w' ! u) = new_conn_queue (w_threads w ! u)" for u
    using len me by (cases "u = t") (simp_all add: w')
  then show "threads_inv w' qs" using inv by (simp add: threads_inv_def w')
  show "\<not> notified w qs"
  proof
    assume "notified w qs"
    then have "replicate (length (qs ! t)) (CHR ''c'') = b # notify_pipe me"
      using notify_read_ok [OF rd] t by (simp add: notified_def)
    then show False using idle by (cases "qs ! t") auto
  qed
qed

lemma handler_pops:
  assumes inv: "threads_inv w qs" and t: "t < length qs" and run: "thread_new_conn_handler w t = Ok w'"
    and rd: "notify_read (w_env w) (w_threads w ! t) = Some (CHR ''c'', me)" and at: "qs ! t = a # as"
  shows "threads_inv w' (qs[t := as])" "last_thread w' = last_thread w"
    "threads (config w') = threads (config w)" "length (w_threads w') = length (w_threads w)"
    "\<forall>u < length qs. \<forall>b \<in> set ((qs[t := as]) ! u). item_fd (w_qheap w') b = item_fd (w_qheap w) b"
    "notified w qs \<longrightarrow> notified w' (qs[t := as])"
proof -
  obtain cq n w1 where h: "q_rep (w_qheap w, cq) as" "w_qheap w a = Some n"
    "w_threads w1 = (w_threads w)[t := me\<lparr>new_conn_queue := cq\<rparr>]"
    "thread_new_conn_handler w t =
       bindR (conn_new w1 client_conn (nc_client_id n) (nc_sfd n) (nc_init_state n) (nc_event_flags n)
                              (nc_read_buffer_size n)) (\<lambda>(p, w).
                       case p of
                         None \<Rightarrow> Ok (new_conn_free a (close_fd (nc_sfd n) w))
                       | Some k \<Rightarrow> with_conn w k (\<lambda>c. Ok (new_conn_free a (put_conn k (c\<lparr>c_thread := Some t\<rparr>) w))))"
    "w1 = w\<lparr>w_threads := w_threads w1\<rparr>"
    using handler_takes [OF inv t at rd] .
  obtain p w2 where c: "conn_new w1 client_conn (nc_client_id n) (nc_sfd n) (nc_init_state n) (nc_event_flags n)
        (nc_read_buffer_size n) = Ok (p, w2)"
    using run h(4) by auto
  note r = same_restD [OF conn_new_rest [OF c]]
  have w1: "w_qheap w1 = w_qheap w" "w_qfresh w1 = w_qfresh w" "last_thread w1 = last_thread w" "config w1 = config w"
    by (subst h(5), simp)+
  have w': "w_qheap w' = (w_qheap w)(a := None)" "w_qfresh w' = w_qfresh w" "w_threads w' = w_threads w1"
    "last_thread w' = last_thread w" "threads (config w') = threads (config w)"
    using run c r w1 unfolding h(4)
    by (auto simp: new_conn_free_def close_fd_def put_conn_def with_conn_def split: option.splits)
  note pop = threads_inv_pop [OF inv t at h(1) w'(1,2), unfolded w'(3), OF h(3)]
  show "threads_inv w' (qs[t := as])"
    "\<forall>u < length qs. \<forall>b \<in> set ((qs[t := as]) ! u). item_fd (w_qheap w') b = item_fd (w_qheap w) b"
    using pop by simp_all
  show "last_thread w' = last_thread w" "threads (config w') = threads (config w)" "length (w_threads w') = length (w_threads w)"
    using w' h(3) by simp_all
  have len: "t < length (w_threads w)" using t threads_invD(1) [OF inv] by simp
  show "notified w qs \<longrightarrow> notified w' (qs[t := as])"
  proof
    assume n: "notified w qs"
    have "notify_pipe (w_threads w' ! u) = replicate (length ((qs[t := as]) ! u)) (CHR ''c'') \<and>
        True \<notin> set (pipe_faults (w_threads w' ! u))" if u: "u < length qs" for u
      using n u t len notify_read_ok [OF rd] at by (cases "u = t") (simp_all add: notified_def w'(3) h(3))
    then show "notified w' (qs[t := as])" by (simp add: notified_def)
  qed
qed

text \<open>The queues after a run of the handler.\<close>

lemma handler_keeps:
  assumes inv: "threads_inv w qs" and t: "t < length qs" and run: "thread_new_conn_handler w t = Ok w'"
  obtains b me qs' where "notify_read (w_env w) (w_threads w ! t) = Some (b, me)"
    "threads_inv w' qs'" "length qs' = length qs" "last_thread w' = last_thread w"
    "threads (config w') = threads (config w)" "length (w_threads w') = length (w_threads w)"
    "qs' = (if b = CHR ''c'' then case qs ! t of [] \<Rightarrow> qs | a # as \<Rightarrow> qs[t := as] else qs)"
    "\<forall>u < length qs. \<forall>b \<in> set (qs' ! u). item_fd (w_qheap w') b = item_fd (w_qheap w) b"
    "notified w qs \<longrightarrow> notified w' qs'"
proof -
  obtain b me where rd: "notify_read (w_env w) (w_threads w ! t) = Some (b, me)"
    using run by (auto simp: thread_new_conn_handler_def Let_def split: if_splits option.splits)
  show thesis
  proof (cases "b = CHR ''c'' \<and> qs ! t \<noteq> []")
    case True
    then obtain a as where at: "qs ! t = a # as" by (cases "qs ! t") auto
    have b: "b = CHR ''c''" using True by simp
    note k = handler_pops [OF inv t run rd [unfolded b] at]
    show thesis by (rule that [of b me "qs[t := as]"]) (use rd k at b in simp_all)
  next
    case False
    then have "b = CHR ''c'' \<longrightarrow> qs ! t = []" by simp
    note k = handler_idle [OF inv t run rd this]
    show thesis by (rule that [of b me qs]) (use rd k False in \<open>auto split: list.split\<close>)
  qed
qed

section \<open>The workers at the start\<close>

text \<open>The queues, and what decides which one is next.\<close>

definition same_queues :: "world \<Rightarrow> world \<Rightarrow> bool" where
  "same_queues w w' \<longleftrightarrow>
     w_threads w' = w_threads w \<and> last_thread w' = last_thread w \<and> w_qheap w' = w_qheap w \<and> w_qfresh w' = w_qfresh w \<and>
     threads (config w') = threads (config w)"

lemma same_queues_refl [simp]: "same_queues w w"
  by (simp add: same_queues_def)

lemma same_queues_trans: "same_queues w w' \<Longrightarrow> same_queues w' w'' \<Longrightarrow> same_queues w w''"
  by (simp add: same_queues_def)

lemma same_rest_queues: "same_rest w w' \<Longrightarrow> same_queues w w'"
  using same_restD [of w w'] by (simp add: same_queues_def)

lemma threads_inv_cong: "same_queues w w' \<Longrightarrow> threads_inv w' qs = threads_inv w qs"
  by (simp add: same_queues_def threads_inv_def)

lemma memcache_connect_queues:
  assumes "memcache_connect net w i = Ok (p, w')"
  shows "same_queues w w'"
proof -
  obtain hs host port where h: "hosts (s_backends (config w)) = Some hs" "i < length hs" "split_host (hs ! i) = (host, port)"
    using assms by (auto simp: memcache_connect_def split: option.splits if_splits prod.splits)
  define w1 where "w1 = w\<lparr>config := (config w)\<lparr>s_backends := (s_backends (config w))\<lparr>hosts := Some (hs[i := host])\<rparr>\<rparr>\<rparr>"
  have "same_queues w w1" by (simp add: same_queues_def w1_def)
  moreover have "same_queues w1 w'"
    using assms h same_rest_queues [OF conn_new_rest, of w1]
    by (auto simp: memcache_connect_def w1_def [symmetric] close_fd_def same_queues_def split: net_result.splits)
  ultimately show ?thesis by (rule same_queues_trans)
qed

lemma connect_backends_queues: "connect_backends net ok i n mcs w = Ok (mcs', w') \<Longrightarrow> same_queues w w'"
proof (induction n arbitrary: i mcs w)
  case (Suc n)
  then obtain p w1 where c: "memcache_connect net w i = Ok (p, w1)" by auto
  then have "same_queues w1 w'" using Suc by (auto split: option.splits if_splits)
  then show ?case using memcache_connect_queues [OF c] same_queues_trans by blast
qed auto

lemma setup_thread_queues:
  assumes "setup_thread net fds w = Ok (t, w')"
  shows "same_queues w w'" "new_conn_queue t = \<lparr>cq_head = None, cq_tail = None\<rparr>" "notify_pipe t = []"
    "pipe_faults t = snd (snd fds)"
proof -
  obtain ok e mcs where c: "connect_backends net ok 0 (bk_len (s_backends (config w))) [] (w\<lparr>w_env := e\<rparr>) = Ok (mcs, w')"
    "new_conn_queue t = \<lparr>cq_head = None, cq_tail = None\<rparr>" "notify_pipe t = []" "pipe_faults t = snd (snd fds)"
    using assms by (auto simp: setup_thread_def alloc_def event_call_def conn_queue_new_def split: if_splits)
  show "same_queues w w'" using connect_backends_queues [OF c(1)] by (simp add: same_queues_def)
  show "new_conn_queue t = \<lparr>cq_head = None, cq_tail = None\<rparr>" "notify_pipe t = []" "pipe_faults t = snd (snd fds)"
    using c(2-4) by simp_all
qed

lemma threads_inv_add:
  assumes "threads_inv w (replicate (length (w_threads w)) [])" "new_conn_queue t = \<lparr>cq_head = None, cq_tail = None\<rparr>"
  shows "threads_inv (w\<lparr>w_threads := w_threads w @ [t]\<rparr>) (replicate (length (w_threads w) + 1) [])"
  using assms by (auto simp: threads_inv_def nth_append less_Suc_eq q_rep_def simp del: replicate_Suc)

text \<open>The pipe of a worker: the bytes in it and the failures to come.\<close>

definition new_pipe :: "worker_thread_t \<Rightarrow> char list \<times> bool list" where
  "new_pipe t = (notify_pipe t, pipe_faults t)"

lemma setup_threads_queues:
  assumes "setup_threads net pipes w = Ok w'" "threads_inv w (replicate (length (w_threads w)) [])"
  shows "threads_inv w' (replicate (length (w_threads w')) []) \<and> length (w_threads w') = length (w_threads w) + length pipes \<and>
    last_thread w' = last_thread w \<and> threads (config w') = threads (config w) \<and>
    map new_pipe (w_threads w') = map new_pipe (w_threads w) @ map (\<lambda>p. ([], snd (snd (the p)))) pipes"
  using assms
proof (induction pipes arbitrary: w)
  case (Cons p ps)
  then obtain fds t w1 where s: "setup_thread net fds w = Ok (t, w1)"
    "setup_threads net ps (w1\<lparr>w_threads := w_threads w1 @ [t]\<rparr>) = Ok w'" "p = Some fds"
    by (auto split: option.splits)
  note q = setup_thread_queues [OF s(1)]
  have "threads_inv w1 (replicate (length (w_threads w1)) [])"
    using Cons.prems(2) threads_inv_cong [OF q(1)] q(1) by (simp add: same_queues_def)
  then have "threads_inv (w1\<lparr>w_threads := w_threads w1 @ [t]\<rparr>) (replicate (length (w_threads w1) + 1) [])"
    using threads_inv_add q(2) by blast
  then have "threads_inv (w1\<lparr>w_threads := w_threads w1 @ [t]\<rparr>)
      (replicate (length (w_threads (w1\<lparr>w_threads := w_threads w1 @ [t]\<rparr>))) [])" by simp
  note IH = Cons.IH [OF s(2) this]
  have "threads_inv w' (replicate (length (w_threads w')) [])" using IH by (rule conjunct1)
  moreover have "length (w_threads w') = length (w_threads w1) + 1 + length ps"
    "last_thread w' = last_thread w1" "threads (config w') = threads (config w1)"
    "map new_pipe (w_threads w') = map new_pipe (w_threads w1) @ ([], snd (snd fds)) # map (\<lambda>p. ([], snd (snd (the p)))) ps"
    using IH q(3,4) by (simp_all add: new_pipe_def [of t])
  moreover have "w_threads w1 = w_threads w" "last_thread w1 = last_thread w" "threads (config w1) = threads (config w)"
    using q(1) by (simp_all add: same_queues_def)
  ultimately show ?case using s(3) by simp
qed simp

lemma create_workers_queues: "create_workers m cs w = Ok w' \<Longrightarrow> same_queues w w'"
proof (induction m cs w rule: create_workers.induct)
  case (2 m attr_ok create_ok r w)
  then obtain w1 where w1: "create_worker m attr_ok create_ok w = Ok w1" "create_workers m r w1 = Ok w'" by auto
  have "same_queues w w1"
    using w1(1) by (auto simp: create_worker_def same_queues_def bindR_eq_Ok split: if_splits option.splits)
  with "2.IH" [OF w1(1)] w1(2) same_queues_trans show ?case by blast
qed simp

lemma register_queues: "same_queues w ((register_thread_initialized ^^ n) w)"
  by (induction n) (auto simp: register_thread_initialized_def same_queues_def)

lemma thread_init_queues:
  assumes "thread_init net pipe m create n w = Ok w'" "\<forall>a. w_qheap w a = None"
  shows "threads_inv w' (replicate (nat n) [])" "length (w_threads w') = nat n"
    "last_thread w' = last_thread w" "threads (config w') = threads (config w)"
    "map new_pipe (w_threads w') = map (\<lambda>i. ([], snd (snd (the (pipe i))))) [0..<nat n]"
proof -
  obtain e w1 w2 where t: "setup_threads net (map pipe [0..<nat n]) (w\<lparr>w_env := e, w_threads := []\<rparr>) = Ok w1"
    "create_workers m (map create [0..<nat n]) w1 = Ok w2" "w' = (register_thread_initialized ^^ nat n) w2"
    using assms(1) by (auto simp: thread_init_def alloc_def Let_def bindR_eq_Ok split: if_splits)
  have "threads_inv (w\<lparr>w_env := e, w_threads := []\<rparr>) []" using assms(2) by (simp add: threads_inv_def)
  then have "threads_inv (w\<lparr>w_env := e, w_threads := []\<rparr>)
      (replicate (length (w_threads (w\<lparr>w_env := e, w_threads := []\<rparr>))) [])" by simp
  note st = setup_threads_queues [OF t(1) this]
  have "threads_inv w1 (replicate (length (w_threads w1)) [])" using st by (rule conjunct1)
  moreover have s: "length (w_threads w1) = nat n"
    "last_thread w1 = last_thread w" "threads (config w1) = threads (config w)"
    "map new_pipe (w_threads w1) = map (\<lambda>i. ([], snd (snd (the (pipe i))))) [0..<nat n]"
    using st by (simp_all add: comp_def)
  ultimately have s0: "threads_inv w1 (replicate (nat n) [])" by simp
  have q: "same_queues w1 w'"
    using same_queues_trans [OF create_workers_queues [OF t(2)] register_queues] t(3) by simp
  then show "threads_inv w' (replicate (nat n) [])" "length (w_threads w') = nat n"
    "last_thread w' = last_thread w" "threads (config w') = threads (config w)"
    "map new_pipe (w_threads w') = map (\<lambda>i. ([], snd (snd (the (pipe i))))) [0..<nat n]"
    using s0 s threads_inv_cong [OF q] by (simp_all add: same_queues_def)
qed

lemma thread_init_pipes:
  assumes "thread_init net pipe m create n w = Ok w'" "\<forall>a. w_qheap w a = None"
  shows "\<forall>th \<in> set (w_threads w'). notify_pipe th = []"
    "\<forall>i < nat n. True \<notin> set (snd (snd (the (pipe i)))) \<Longrightarrow> notified w' (replicate (nat n) [])"
proof -
  note q = thread_init_queues(2,5) [OF assms]
  have "new_pipe (w_threads w' ! i) = ([], snd (snd (the (pipe i))))" if "i < nat n" for i
    using that q(1) arg_cong [OF q(2), of "\<lambda>l. l ! i"] by simp
  then show "\<forall>th \<in> set (w_threads w'). notify_pipe th = []"
    "\<forall>i < nat n. True \<notin> set (snd (snd (the (pipe i)))) \<Longrightarrow> notified w' (replicate (nat n) [])"
    using q(1) by (auto simp: new_pipe_def notified_def in_set_conv_nth)
qed

section \<open>An execution\<close>

text \<open>
  \<open>handover w0 acc taken w\<close>: from \<open>w0\<close> the dispatcher has accepted the descriptors \<open>acc\<close>, worker \<open>t\<close> has
  taken the descriptors \<open>taken t\<close> from its queue, and the state is \<open>w\<close>. In between the connections run,
  which does not touch the queues.
\<close>

inductive handover :: "world \<Rightarrow> int list \<Rightarrow> (nat \<Rightarrow> int list) \<Rightarrow> world \<Rightarrow> bool" for w0 where
  start: "handover w0 [] (\<lambda>_. []) w0"
| dispatch: "handover w0 acc taken w \<Longrightarrow>
    dispatch_conn_new w fd conn_new_cmd EV_READ_PERSIST DATA_BUFFER_SIZE = Ok w' \<Longrightarrow>
    handover w0 (acc @ [fd]) taken w'"
| handle: "handover w0 acc taken w \<Longrightarrow> thread_new_conn_handler w t = Ok w' \<Longrightarrow>
    handover w0 acc (taken(t := taken t @ (case next_fd w t of None \<Rightarrow> [] | Some fd \<Rightarrow> [fd]))) w'"
| other: "handover w0 acc taken w \<Longrightarrow> same_queues w w' \<Longrightarrow> handover w0 acc taken w'"

text \<open>The descriptors that round robin over \<open>n\<close> workers gives to worker \<open>t\<close>.\<close>

definition assigned :: "nat \<Rightarrow> nat \<Rightarrow> int list \<Rightarrow> int list" where
  "assigned n t acc = map ((!) acc) (filter (\<lambda>p. p mod n = t) [0..<length acc])"

lemma assigned_snoc:
  "assigned n t (acc @ [fd]) = assigned n t acc @ (if length acc mod n = t then [fd] else [])"
  by (auto simp: assigned_def nth_append intro!: map_cong)

text \<open>The invariant; \<open>sound\<close> says that nothing fails on the pipes.\<close>

definition handover_inv :: "bool \<Rightarrow> nat \<Rightarrow> int list \<Rightarrow> (nat \<Rightarrow> int list) \<Rightarrow> world \<Rightarrow> addr list list \<Rightarrow> bool" where
  "handover_inv sound n acc taken w qs \<longleftrightarrow>
     threads_inv w qs \<and> (sound \<longrightarrow> notified w qs) \<and> length qs = n \<and> threads (config w) = int n \<and> 0 < n \<and>
     last_thread w = (if acc = [] then -1 else int ((length acc - 1) mod n)) \<and>
     (\<forall>t < n. taken t @ queued w qs t = assigned n t acc)"

lemma next_worker:
  assumes "0 < n" "l = (if k = 0 then -1 else int ((k - 1) mod n))"
  shows "nat ((l + 1) mod int n) = k mod n"
proof (cases k)
  case (Suc j)
  then have "(l + 1) mod int n = int ((j mod n + 1) mod n)" using assms(2) by (simp add: zmod_int add.commute)
  also have "(j mod n + 1) mod n = k mod n" using Suc by (simp add: mod_Suc_eq)
  finally show ?thesis by simp
qed (use assms in simp)

lemma dispatch_memory:
  "dispatch_conn_new w fd st fl rb = Ok w' \<Longrightarrow> alloc_ok (w_env w) (allocs (w_env w))"
  by (auto simp: dispatch_conn_new_def cqi_new_def alloc_def Let_def split: if_splits prod.splits)

lemma handover_dispatch:
  assumes inv: "handover_inv sound n acc taken w qs" and d: "dispatch_conn_new w fd st fl rb = Ok w'"
  shows "\<exists>qs'. handover_inv sound n (acc @ [fd]) taken w' qs'"
proof -
  let ?a = "w_qfresh w" and ?t = "length acc mod n"
  have i: "threads_inv w qs" "length qs = n" "threads (config w) = int n" "0 < n"
    "last_thread w = (if acc = [] then -1 else int ((length acc - 1) mod n))"
    "\<And>t. t < n \<Longrightarrow> taken t @ queued w qs t = assigned n t acc" "sound \<longrightarrow> notified w qs"
    using inv by (simp_all add: handover_inv_def)
  have t: "nat ((last_thread w + 1) mod threads (config w)) = ?t"
    using next_worker [OF i(4), of "last_thread w" "length acc"] i(3,5) by simp
  have last: "-1 \<le> last_thread w" using i(5) by (cases "acc = []") simp_all
  obtain w'' where w'': "dispatch_conn_new w fd st fl rb = Ok w''" "threads_inv w'' (qs[?t := qs ! ?t @ [?a]])"
    "last_thread w'' = int ?t" "config w'' = config w"
    "item_fd (w_qheap w'') = (item_fd (w_qheap w))(?a := fd)" "notified w qs \<longrightarrow> notified w'' (qs[?t := qs ! ?t @ [?a]])"
    using dispatch_conn_new_ok [OF i(1) dispatch_memory [OF d] _ _ last, of fd st fl rb] i(2-4) threads_invD(1) [OF i(1)]
    unfolding t by auto
  have w': "w'' = w'" using d w''(1) by simp
  have fresh: "?a \<notin> set (qs ! u)" if "u < n" for u
    using q_rep_live [OF threads_invD(2) [OF i(1)], of u ?a] threads_invD(4) [OF i(1), of ?a] that i(2) by auto
  have "taken u @ queued w' (qs[?t := qs ! ?t @ [?a]]) u = assigned n u (acc @ [fd])" if "u < n" for u
    using i(6) [OF that] i(2) fresh [OF that] that w''(5) w'
    by (cases "u = ?t") (auto simp: queued_def assigned_snoc)
  then have "handover_inv sound n (acc @ [fd]) taken w' (qs[?t := qs ! ?t @ [?a]])"
    using w'' i(2-4,7) w' by (simp add: handover_inv_def)
  then show ?thesis ..
qed

lemma handover_handle:
  assumes inv: "handover_inv sound n acc taken w qs" and run: "thread_new_conn_handler w t = Ok w'"
  shows "\<exists>qs'. handover_inv sound n acc (taken(t := taken t @ (case next_fd w t of None \<Rightarrow> [] | Some fd \<Rightarrow> [fd]))) w' qs'"
proof -
  have i: "threads_inv w qs" "length qs = n" "\<And>u. u < n \<Longrightarrow> taken u @ queued w qs u = assigned n u acc"
    using inv by (simp_all add: handover_inv_def)
  have t: "t < length qs"
    using run threads_invD(1) [OF i(1)] by (auto simp: thread_new_conn_handler_def split: if_splits)
  obtain b me qs' where rd: "notify_read (w_env w) (w_threads w ! t) = Some (b, me)"
    and q: "threads_inv w' qs'" "length qs' = length qs" "last_thread w' = last_thread w"
    "threads (config w') = threads (config w)" "length (w_threads w') = length (w_threads w)"
    "qs' = (if b = CHR ''c'' then case qs ! t of [] \<Rightarrow> qs | a # as \<Rightarrow> qs[t := as] else qs)"
    "\<forall>u < length qs. \<forall>b \<in> set (qs' ! u). item_fd (w_qheap w') b = item_fd (w_qheap w) b"
    "notified w qs \<longrightarrow> notified w' qs'"
    using handler_keeps [OF i(1) t run] .
  have fds: "queued w' qs' u = map (item_fd (w_qheap w)) (qs' ! u)" if "u < n" for u
    using q(7) that i(2) by (simp add: queued_def)
  have "(taken(t := taken t @ (case next_fd w t of None \<Rightarrow> [] | Some fd \<Rightarrow> [fd]))) u @ queued w' qs' u = assigned n u acc"
    if "u < n" for u
    unfolding fds [OF that] using i(3) [OF that] next_fd_queue [OF i(1) t rd] t
    by (cases "u = t"; cases "qs ! t") (simp_all add: q(6) queued_def)
  then have "handover_inv sound n acc (taken(t := taken t @ (case next_fd w t of None \<Rightarrow> [] | Some fd \<Rightarrow> [fd]))) w' qs'"
    using inv q(1-4,8) by (simp add: handover_inv_def)
  then show ?thesis ..
qed

lemma handover_invariant:
  assumes "handover w0 acc taken w" and "handover_inv sound n [] (\<lambda>_. []) w0 qs"
  shows "\<exists>qs. handover_inv sound n acc taken w qs"
  using assms
proof (induction rule: handover.induct)
  case (other acc taken w w')
  then obtain qs' where "handover_inv sound n acc taken w qs'" by blast
  then have "handover_inv sound n acc taken w' qs'"
    using other(2) threads_inv_cong [OF other(2)] by (simp add: handover_inv_def queued_def same_queues_def notified_def)
  then show ?case ..
qed (blast intro: handover_dispatch handover_handle)+

section \<open>Opening a connection\<close>

lemma world_inv_put:
  assumes "world_inv w" and "w_conns w a = Some c" and "c_stats c' = c_stats c" and "conn_ok c'"
  shows "world_inv (put_conn a c' w)"
proof -
  have "refs ((w_conns w)(a \<mapsto> c')) = refs (w_conns w)"
    using assms(2,3) by (auto simp: refs_def fun_eq_iff)
  moreover have "conns_inv ((w_conns w)(a \<mapsto> c')) (w_fresh w) (w_free w)"
    using assms by (auto simp: world_inv_def conns_inv_def)
  ultimately show ?thesis using assms(1) by (simp add: world_inv_def put_conn_def refs_inv_def)
qed

lemma world_inv_fields:
  "w_conns w' = w_conns w \<Longrightarrow> w_fresh w' = w_fresh w \<Longrightarrow> w_free w' = w_free w \<Longrightarrow> config w' = config w \<Longrightarrow>
   world_inv w' = world_inv w"
  by (simp add: world_inv_def)

lemma handler_opens:
  assumes "world_inv w" and "threads_inv w qs" and "t < length qs" and "qs ! t = a # as" and "w_qheap w a = Some n"
    and "mem_ok (w_env w)" and "0 < nc_read_buffer_size n \<and> nc_read_buffer_size n \<le> INT_MAX" and "0 \<le> nc_client_id n"
    and "\<forall>b k. st_heap (w_stats w) b = Some k \<longrightarrow> unat (cs_refcnt k) < 65535"
    and "notify_read (w_env w) (w_threads w ! t) = Some (CHR ''c'', me)"
  shows "\<exists>w'. thread_new_conn_handler w t = Ok w' \<and> world_inv w' \<and> threads_inv w' (qs[t := as]) \<and>
    (notified w qs \<longrightarrow> notified w' (qs[t := as])) \<and> mem_ok (w_env w') \<and>
    fixed_item w' = fixed_item w \<and> s_alloc (config w') = s_alloc (config w) \<and>
    ((\<exists>b c. w_conns w' b = Some c \<and> in_use w' b \<and> \<not> in_use w b \<and> c_thread c = Some t \<and> c_stats c \<noteq> None \<and>
        new_conn_state client_conn (nc_client_id n) (nc_sfd n) (nc_init_state n) (nc_event_flags n) c \<and>
        w_closed w' = w_closed w \<and> (\<forall>d. d \<noteq> b \<longrightarrow> w_conns w' d = w_conns w d \<and> in_use w' d = in_use w d)) \<or>
     (\<not> event_ok (w_env w) (events (w_env w)) \<and> w_closed w' = w_closed w @ [nc_sfd n] \<and>
        (\<forall>b. in_use w' b = in_use w b \<and> (in_use w b \<longrightarrow> w_conns w' b = w_conns w b))))"
proof -
  obtain cq n' w1 where h: "q_rep (w_qheap w, cq) as" "w_qheap w a = Some n'"
    "w_threads w1 = (w_threads w)[t := me\<lparr>new_conn_queue := cq\<rparr>]"
    "thread_new_conn_handler w t =
       bindR (conn_new w1 client_conn (nc_client_id n') (nc_sfd n') (nc_init_state n') (nc_event_flags n')
                              (nc_read_buffer_size n')) (\<lambda>(p, w).
                       case p of
                         None \<Rightarrow> Ok (new_conn_free a (close_fd (nc_sfd n') w))
                       | Some k \<Rightarrow> with_conn w k (\<lambda>c. Ok (new_conn_free a (put_conn k (c\<lparr>c_thread := Some t\<rparr>) w))))"
    "w1 = w\<lparr>w_threads := w_threads w1\<rparr>"
    using handler_takes [OF assms(2-4,10)] .
  have n: "n' = n" using h(2) assms(5) by simp
  have w1: "world_inv w1" "w_env w1 = w_env w" "w_stats w1 = w_stats w" "w_closed w1 = w_closed w" "w_conns w1 = w_conns w"
    "\<And>b. in_use w1 b = in_use w b" "fixed_item w1 = fixed_item w" "config w1 = config w"
    using assms(1) by (subst h(5), simp add: world_inv_def in_use_def)+
  obtain p w2 where p: "conn_new w1 client_conn (nc_client_id n) (nc_sfd n) (nc_init_state n) (nc_event_flags n)
      (nc_read_buffer_size n) = Ok (p, w2)" "world_inv w2" "mem_ok (w_env w2)" "same_rest w1 w2" "w_closed w2 = w_closed w1"
    "case p of
       Some b \<Rightarrow> (\<exists>c. w_conns w2 b = Some c \<and>
           new_conn_state client_conn (nc_client_id n) (nc_sfd n) (nc_init_state n) (nc_event_flags n) c \<and> c_stats c \<noteq> None) \<and>
         in_use w2 b \<and> \<not> in_use w1 b \<and> (\<forall>d. d \<noteq> b \<longrightarrow> in_use w2 d = in_use w1 d \<and> w_conns w2 d = w_conns w1 d)
     | None \<Rightarrow> \<not> event_ok (w_env w1) (events (w_env w1)) \<and>
         (\<forall>b. in_use w2 b = in_use w1 b \<and> (in_use w1 b \<longrightarrow> w_conns w2 b = w_conns w1 b))"
    using conn_new_ok [OF w1(1) assms(6) [folded w1(2)] assms(7,8) assms(9) [folded w1(3)],
        of client_conn "nc_sfd n" "nc_init_state n" "nc_event_flags n"]
    by (elim exE conjE) (rule that)
  have rest: "fixed_item w2 = fixed_item w" "s_alloc (config w2) = s_alloc (config w)" using same_rest_config [OF p(4)] w1 by simp_all
  show ?thesis
  proof (cases p)
    case None
    define w' where "w' = new_conn_free a (close_fd (nc_sfd n) w2)"
    have run: "thread_new_conn_handler w t = Ok w'" using h(4) p(1) None n by (simp add: w'_def)
    have "threads_inv w' (qs[t := as])" "notified w qs \<longrightarrow> notified w' (qs[t := as])"
      using handler_pops [OF assms(2,3) run assms(10,4)] by simp_all
    moreover have "world_inv w'" using p(2) by (simp add: w'_def new_conn_free_def world_inv_def close_fd_def)
    moreover have "w_env w' = w_env w2" "w_conns w' = w_conns w2" "\<And>b. in_use w' b = in_use w2 b" "w_closed w' = w_closed w2 @ [nc_sfd n]"
      "fixed_item w' = fixed_item w2" "config w' = config w2"
      by (simp_all add: w'_def new_conn_free_def close_fd_def in_use_def)
    ultimately show ?thesis using run p(3,5,6) w1 rest None by (intro exI [of _ w']) simp
  next
    case (Some b)
    then obtain c where c: "w_conns w2 b = Some c" "c_stats c \<noteq> None"
      "new_conn_state client_conn (nc_client_id n) (nc_sfd n) (nc_init_state n) (nc_event_flags n) c"
      using p(6) by auto
    define w' where "w' = new_conn_free a (put_conn b (c\<lparr>c_thread := Some t\<rparr>) w2)"
    have run: "thread_new_conn_handler w t = Ok w'" using h(4) p(1) Some n c(1) by (simp add: w'_def)
    have "threads_inv w' (qs[t := as])" "notified w qs \<longrightarrow> notified w' (qs[t := as])"
      using handler_pops [OF assms(2,3) run assms(10,4)] by simp_all
    moreover have "conn_ok (c\<lparr>c_thread := Some t\<rparr>)"
      using p(2) c(1) by (auto simp: world_inv_def conns_inv_def conn_ok_def arrays_ok_def wbuf_ok_def items_ok_def)
    then have "world_inv w'"
      using world_inv_put [OF p(2) c(1)] by (simp add: w'_def new_conn_free_def world_inv_def)
    moreover have "new_conn_state client_conn (nc_client_id n) (nc_sfd n) (nc_init_state n) (nc_event_flags n)
        (c\<lparr>c_thread := Some t\<rparr>)" using c(3) by (simp add: new_conn_state_def)
    moreover have "\<not> in_use w b" "in_use w2 b" "\<forall>d. d \<noteq> b \<longrightarrow> w_conns w2 d = w_conns w d \<and> in_use w2 d = in_use w d"
      using p(6) Some w1(5,6) by simp_all
    moreover have "in_use w' b = in_use w2 b" "w_conns w' b = Some (c\<lparr>c_thread := Some t\<rparr>)" "w_env w' = w_env w2"
      "\<forall>d. d \<noteq> b \<longrightarrow> w_conns w' d = w_conns w2 d \<and> in_use w' d = in_use w2 d" "w_closed w' = w_closed w"
      "fixed_item w' = fixed_item w2" "config w' = config w2"
      using p(5) w1(4) c(1) by (simp_all add: w'_def new_conn_free_def put_conn_def in_use_def)
    ultimately show ?thesis using run p(3) rest c(2)
      by (intro exI [of _ w'] conjI disjI1 exI [of _ b] exI [of _ "c\<lparr>c_thread := Some t\<rparr>"]) simp_all
  qed
qed

section \<open>Properties\<close>

text \<open>
  C10. New connections are spread round robin and none is lost, repeated or reordered: in every execution
  that follows \<open>thread_init\<close>, whatever the interleaving of accepts and of worker events, the descriptors
  that worker \<open>t\<close> has taken followed by those that wait on its queue are exactly the accepted ones at the
  positions \<open>t\<close>, \<open>t + n\<close>, \<open>t + 2n\<close> and so on, in this order, even when reads and writes on the pipes fail. When none
  fails, each queue has as many bytes in the worker's pipe as it has items, so no item is left behind.
\<close>

theorem handover_round_robin:
  assumes "thread_init net pipe m create n w = Ok w0" and "\<forall>a. w_qheap w a = None" and "last_thread w = -1"
    and "threads (config w) = n" and "0 < n" and "handover w0 acc taken w'" and "t < nat n"
  shows "\<exists>qs. threads_inv w' qs \<and> taken t @ queued w' qs t = assigned (nat n) t acc \<and>
    ((\<forall>i < nat n. True \<notin> set (snd (snd (the (pipe i))))) \<longrightarrow> notified w' qs)"
proof -
  define sound where "sound \<longleftrightarrow> (\<forall>i < nat n. True \<notin> set (snd (snd (the (pipe i)))))"
  have "handover_inv sound (nat n) [] (\<lambda>_. []) w0 (replicate (nat n) [])"
    using thread_init_queues(1-4) [OF assms(1,2)] thread_init_pipes(2) [OF assms(1,2)] assms(3-5)
    by (simp add: handover_inv_def queued_def assigned_def sound_def)
  from handover_invariant [OF assms(6) this] show ?thesis
    using assms(7) unfolding sound_def [symmetric] by (auto simp: handover_inv_def)
qed

definition two_workers :: world where
  "two_workers = world0\<lparr>config := plain_settings\<lparr>threads := 2\<rparr>\<rparr>"

lemma two_workers_start:
  obtains w where "thread_init (\<lambda>_ _. NoAddress) (\<lambda>i. Some (int i + 3, int i + 13, [])) (\<lambda>_. True) (\<lambda>_. (True, True)) 2
      two_workers = Ok w"
    "alloc_ok (w_env w) = (\<lambda>_. True)"
  by (simp add: thread_init_def two_workers_def world0_def upt_rec alloc_def setup_thread_def conn_queue_new_def
      plain_settings_def calm_env_def event_call_def create_worker_def register_thread_initialized_def numeral_2_eq_2)

theorem handover_round_robin_witness:
  "\<exists>w0 w'. thread_init (\<lambda>_ _. NoAddress) (\<lambda>i. Some (int i + 3, int i + 13, [])) (\<lambda>_. True) (\<lambda>_. (True, True)) 2
      two_workers = Ok w0 \<and> handover w0 [7] (\<lambda>_. []) w' \<and> (\<exists>qs. notified w' qs \<and> queued w' qs 0 = [7]) \<and>
      (\<exists>qs. threads_inv w' qs \<and> queued w' qs 1 = [])"
proof -
  obtain w0 where w0: "thread_init (\<lambda>_ _. NoAddress) (\<lambda>i. Some (int i + 3, int i + 13, [])) (\<lambda>_. True) (\<lambda>_. (True, True)) 2
      two_workers = Ok w0" "alloc_ok (w_env w0) = (\<lambda>_. True)"
    using two_workers_start .
  have g: "\<forall>a. w_qheap two_workers a = None" "last_thread two_workers = -1" "threads (config two_workers) = 2"
    by (simp_all add: two_workers_def world0_def)
  note q = thread_init_queues [OF w0(1) g(1), unfolded g]
  obtain w' where w': "dispatch_conn_new w0 7 conn_new_cmd EV_READ_PERSIST DATA_BUFFER_SIZE = Ok w'"
    using dispatch_conn_new_ok [OF q(1), of 7 conn_new_cmd EV_READ_PERSIST DATA_BUFFER_SIZE] q w0(2) by auto
  have "handover w0 [7] (\<lambda>_. []) w'"
    using handover.dispatch [OF handover.start w'] by simp
  moreover from handover_round_robin [OF w0(1) g(1,2,3) _ this, of 0] handover_round_robin [OF w0(1) g(1,2,3) _ this, of 1]
  have "\<exists>qs. notified w' qs \<and> queued w' qs 0 = [7]" "\<exists>qs. threads_inv w' qs \<and> queued w' qs 1 = []"
    by (auto simp: assigned_def)
  ultimately show ?thesis using w0(1) by blast
qed

text \<open>One worker with one descriptor on its queue.\<close>

definition waiting_item :: new_conn_t where
  "waiting_item = \<lparr>nc_client_id = 5, nc_sfd = 7, nc_init_state = conn_new_cmd, nc_event_flags = EV_READ_PERSIST,
     nc_next = None, nc_read_buffer_size = DATA_BUFFER_SIZE\<rparr>"

definition waiting_world :: world where
  "waiting_world = world0\<lparr>w_threads := [\<lparr>notify_receive_fd = 3, notify_send_fd = 4, notify_pipe = ''c'', pipe_faults = [],
       new_conn_queue = \<lparr>cq_head = Some 1, cq_tail = Some 1\<rparr>, memcache = []\<rparr>],
     w_qheap := [1 \<mapsto> waiting_item], w_qfresh := 2\<rparr>"

end
