(* ===== verification/Driver.thy ===== *)
theory Driver
  imports Request Threads
begin

text \<open>
  \<open>drive_machine\<close> and \<open>event_handler\<close> of \<open>server.c\<close>: the state machine of a connection, run when libevent
  reports an event on its descriptor. Each state has its operation; \<open>drive_step\<close> is one turn of the loop, which
  returns whether to stop and how many more requests may be served before the connection has to wait for
  its turn.

  The results of \<open>accept\<close> are a list: when it is exhausted, \<open>accept\<close> fails with EAGAIN.
\<close>

definition REQ_PER_EVENT :: int where "REQ_PER_EVENT = 20"

datatype accept_result =
    AcceptFails
  | AcceptBlocking int   \<comment> \<open>accepted, but \<open>fcntl\<close> fails\<close>
  | Accepted int

section \<open>The states\<close>

text \<open>\<open>conn_listening\<close>: accept a connection and hand it over.\<close>

definition dm_listening :: "accept_result list \<Rightarrow> world \<Rightarrow> (bool \<times> accept_result list \<times> world) res" where
  "dm_listening acs w =
     (case acs of
        [] \<Rightarrow> Ok (True, [], w)
      | AcceptFails # r \<Rightarrow> Ok (True, r, w)
      | AcceptBlocking sfd # r \<Rightarrow> Ok (False, r, close_fd sfd w)
      | Accepted sfd # r \<Rightarrow>
          bindR (dispatch_conn_new w sfd conn_new_cmd EV_READ_PERSIST DATA_BUFFER_SIZE) (\<lambda>w. Ok (True, r, w)))"

text \<open>Wait for other events on a connection and stop; when libevent fails, close it instead.\<close>

definition dm_await :: "int \<Rightarrow> env \<Rightarrow> conn \<Rightarrow> (bool \<times> env \<times> conn) res" where
  "dm_await flags e c =
     (case conn_update_event e c flags of (ok, e, c) \<Rightarrow>
        if \<not> ok then bindR (conn_set_state c conn_closing) (\<lambda>c. Ok (False, e, c)) else Ok (True, e, c))"

text \<open>\<open>conn_new_cmd\<close>: the blob of the last request is freed when its delay is over.\<close>

definition dm_new_cmd :: "int \<Rightarrow> env \<Rightarrow> conn \<Rightarrow> (bool \<times> int \<times> env \<times> conn) res" where
  "dm_new_cmd nreqs e c =
     (let c = (if mem_blob c \<noteq> None \<and> mem_free_delay c = 0 then c\<lparr>mem_blob := None\<rparr>
               else if mem_free_delay c > 0 then c\<lparr>mem_free_delay := mem_free_delay c - 1\<rparr> else c);
          nreqs = nreqs - 1 in
      if nreqs \<ge> 0 then bindR (reset_cmd_handler c) (\<lambda>c. Ok (False, nreqs, e, c))
      else
        bindR (dm_await (if rbytes c > 0 then EV_WRITE_PERSIST else EV_READ_PERSIST) e c) (\<lambda>(stop, e, c).
          Ok (stop, nreqs, e, c)))"

definition dm_waiting :: "env \<Rightarrow> conn \<Rightarrow> (bool \<times> env \<times> conn) res" where
  "dm_waiting e c =
     bindR (dm_await EV_READ_PERSIST e c) (\<lambda>(stop, e, c).
       if stop then bindR (conn_set_state c conn_read) (\<lambda>c. Ok (True, e, c)) else Ok (False, e, c))"

definition dm_read :: "env \<Rightarrow> conn \<Rightarrow> (bool \<times> env \<times> conn) res" where
  "dm_read e c =
     bindR (read_network e c) (\<lambda>(res, e, c).
     case res of
       READ_NO_DATA_RECEIVED \<Rightarrow> bindR (conn_set_state c conn_waiting) (\<lambda>c. Ok (False, e, c))
     | READ_DATA_RECEIVED \<Rightarrow> bindR (conn_set_state c conn_parse_cmd) (\<lambda>c. Ok (False, e, c))
     | READ_ERROR \<Rightarrow> bindR (conn_set_state c conn_closing) (\<lambda>c. Ok (False, e, c))
     | READ_MEMORY_ERROR \<Rightarrow>
         bindR (error_response e (c\<lparr>rbytes := 0\<rparr>) ''SERVER_ERROR out of memory reading request'') (\<lambda>(e, c).
           Ok (False, e, c\<lparr>after_write := conn_closing\<rparr>)))"

definition dm_parse_cmd :: "world \<Rightarrow> addr \<Rightarrow> world res" where
  "dm_parse_cmd w a =
     bindR (read_command w a) (\<lambda>(r, w).
       if \<not> r then with_conn w a (\<lambda>c. bindR (conn_set_state c conn_waiting) (\<lambda>c. Ok (put_conn a c w)))
       else Ok w)"

text \<open>
  \<open>conn_swallow\<close>: throw away \<open>sbytes\<close> bytes, from the buffer first. Moving \<open>rcurr\<close> outside of the buffer
  is an access outside the object. A negative count is one that \<open>read\<close> refuses.
\<close>

definition dm_swallow :: "env \<Rightarrow> conn \<Rightarrow> (bool \<times> env \<times> conn) res" where
  "dm_swallow e c =
     (if sbytes c = 0 then bindR (conn_set_state c conn_new_cmd) (\<lambda>c. Ok (False, e, c))
      else if rbytes c > 0 then
        let tocopy = (if rbytes c > sbytes c then sbytes c else rbytes c);
            c = c\<lparr>sbytes := i32 (sbytes c - tocopy), rcurr := rcurr c + tocopy, rbytes := i32 (rbytes c - tocopy)\<rparr> in
        if rcurr c < 0 \<or> int (length (rbuf c)) < rcurr c then Err OutOfBounds else Ok (False, e, c)
      else
        case sys_read e (c_sfd c) (if rsize c > sbytes c then sbytes c else rsize c) of
          (Data bs, e) \<Rightarrow>
            if bs = [] then bindR (conn_set_state c conn_closing) (\<lambda>c. Ok (False, e, c))
            else
              bindR (memwrite (rbuf c) 0 bs) (\<lambda>b.
                Ok (False, e, c\<lparr>rbuf := b, sbytes := i32 (sbytes c - int (length bs))\<rparr>))
        | (RdAgain, e) \<Rightarrow> dm_await EV_READ_PERSIST e c
        | (RdErr, e) \<Rightarrow> bindR (conn_set_state c conn_closing) (\<lambda>c. Ok (False, e, c)))"

text \<open>\<open>conn_read_value\<close> just swallows the value.\<close>

definition dm_read_value :: "env \<Rightarrow> conn \<Rightarrow> (bool \<times> env \<times> conn) res" where
  "dm_read_value e c =
     (if sbytes c = 0 then bindR (error_response e c ''STORED'') (\<lambda>(e, c). Ok (False, e, c))
      else dm_swallow e c)"

text \<open>The loop that releases the retained items; \<open>item_remove\<close> does nothing.\<close>

fun release_items :: "nat \<Rightarrow> conn \<Rightarrow> conn res" where
  "release_items 0 c = Ok c"
| "release_items (Suc n) c =
     (if icurr c < length (ilist c) then release_items n (c\<lparr>icurr := icurr c + 1, ileft := n\<rparr>) else Err OutOfBounds)"

definition dm_mwrite :: "env \<Rightarrow> conn \<Rightarrow> (bool \<times> env \<times> conn) res" where
  "dm_mwrite e c =
     bindR (transmit e c) (\<lambda>(r, e, c).
     case r of
       TRANSMIT_COMPLETE \<Rightarrow>
         if c_state c = conn_mwrite then
           bindR (release_items (ileft c) c) (\<lambda>c. bindR (conn_set_state c conn_new_cmd) (\<lambda>c. Ok (False, e, c)))
         else if c_state c = conn_write then bindR (conn_set_state c (after_write c)) (\<lambda>c. Ok (False, e, c))
         else bindR (conn_set_state c conn_closing) (\<lambda>c. Ok (False, e, c))
     | TRANSMIT_INCOMPLETE \<Rightarrow> Ok (False, e, c)
     | TRANSMIT_HARD_ERROR \<Rightarrow> Ok (False, e, c)
     | TRANSMIT_SOFT_ERROR \<Rightarrow> Ok (True, e, c))"

text \<open>\<open>conn_write\<close>: the line in \<open>wbuf\<close> becomes the pending output, then as \<open>conn_mwrite\<close>.\<close>

definition dm_write :: "env \<Rightarrow> conn \<Rightarrow> (bool \<times> env \<times> conn) res" where
  "dm_write e c =
     (if iovused c = 0 then
        bindR (conn_add_iov e c (drop (nat (wcurr c)) (wbuf c)) (wbytes c)) (\<lambda>(ok, e, c).
          if \<not> ok then bindR (conn_set_state c conn_closing) (\<lambda>c. Ok (False, e, c)) else dm_mwrite e c)
      else dm_mwrite e c)"

definition dm_rpc_done :: "env \<Rightarrow> conn \<Rightarrow> (bool \<times> env \<times> conn) res" where
  "dm_rpc_done e c = bindR (finish_get_command e c) (\<lambda>(e, c). Ok (False, e, c))"

definition dm_timeout :: "env \<Rightarrow> conn \<Rightarrow> (bool \<times> env \<times> conn) res" where
  "dm_timeout e c =
     (case conn_update_event_t e (c\<lparr>old_ev_flags := ev_flags c\<rparr>) 0 (Some (c_timeout c)) of (ok, e, c) \<Rightarrow>
        bindR (conn_set_state c (if \<not> ok then conn_closing else conn_timeout_post)) (\<lambda>c. Ok (True, e, c)))"

definition dm_timeout_post :: "env \<Rightarrow> conn \<Rightarrow> (bool \<times> env \<times> conn) res" where
  "dm_timeout_post e c =
     bindR (conn_set_state c (after_timeout c)) (\<lambda>c.
     bindR (dm_await (old_ev_flags c) e c) (\<lambda>(_, e, c). Ok (False, e, c)))"

section \<open>The loop\<close>

text \<open>Run an operation of a state on a connection of the pool.\<close>

definition on_conn ::
  "(env \<Rightarrow> conn \<Rightarrow> (bool \<times> env \<times> conn) res) \<Rightarrow> world \<Rightarrow> addr \<Rightarrow> (bool \<times> world) res"
where
  "on_conn f w a =
     with_conn w a (\<lambda>c. bindR (f (w_env w) c) (\<lambda>(stop, e, c). Ok (stop, put_conn a c (w\<lparr>w_env := e\<rparr>))))"

definition drive_step ::
  "int \<Rightarrow> accept_result list \<Rightarrow> world \<Rightarrow> addr \<Rightarrow> (bool \<times> int \<times> accept_result list \<times> world) res"
where
  "drive_step nreqs acs w a =
     with_conn w a (\<lambda>c.
     let run = (\<lambda>f. bindR (on_conn f w a) (\<lambda>(stop, w). Ok (stop, nreqs, acs, w))) in
     case c_state c of
       conn_listening \<Rightarrow> bindR (dm_listening acs w) (\<lambda>(stop, acs, w). Ok (stop, nreqs, acs, w))
     | conn_new_cmd \<Rightarrow>
         bindR (dm_new_cmd nreqs (w_env w) c) (\<lambda>(stop, nreqs, e, c).
           Ok (stop, nreqs, acs, put_conn a c (w\<lparr>w_env := e\<rparr>)))
     | conn_waiting \<Rightarrow> run dm_waiting
     | conn_read \<Rightarrow> run dm_read
     | conn_parse_cmd \<Rightarrow> bindR (dm_parse_cmd w a) (\<lambda>w. Ok (False, nreqs, acs, w))
     | conn_read_value \<Rightarrow> run dm_read_value
     | conn_swallow \<Rightarrow> run dm_swallow
     | conn_rpc_wait \<Rightarrow> run (dm_await 0)
     | conn_rpc_done \<Rightarrow> run dm_rpc_done
     | conn_write \<Rightarrow> run dm_write
     | conn_mwrite \<Rightarrow> run dm_mwrite
     | conn_timeout \<Rightarrow> run dm_timeout
     | conn_timeout_post \<Rightarrow> run dm_timeout_post
     | conn_closing \<Rightarrow> bindR (conn_close a w) (\<lambda>w. Ok (True, nreqs, acs, w))
     | conn_min_state \<Rightarrow> Err Abort
     | conn_max_state \<Rightarrow> Err Abort)"

partial_function (option) drive_loop ::
  "int \<Rightarrow> accept_result list \<Rightarrow> world \<Rightarrow> addr \<Rightarrow> (accept_result list \<times> world) res"
where
  "drive_loop nreqs acs w a =
     (case drive_step nreqs acs w a of
        None \<Rightarrow> None
      | Some (Inl x) \<Rightarrow> Err x
      | Some (Inr (stop, nreqs', acs', w')) \<Rightarrow> if stop then Ok (acs', w') else drive_loop nreqs' acs' w' a)"

definition drive_machine :: "accept_result list \<Rightarrow> world \<Rightarrow> addr \<Rightarrow> (accept_result list \<times> world) res" where
  "drive_machine acs w a = drive_loop REQ_PER_EVENT acs w a"

text \<open>Event loop entry point.\<close>

definition event_handler :: "accept_result list \<Rightarrow> world \<Rightarrow> addr \<Rightarrow> int \<Rightarrow> int \<Rightarrow> (accept_result list \<times> world) res" where
  "event_handler acs w a fd which =
     with_conn w a (\<lambda>c.
     let w = put_conn a (c\<lparr>c_which := which\<rparr>) w in
     if fd \<noteq> c_sfd c then bindR (conn_close a w) (\<lambda>w. Ok (acs, w))
     else drive_machine acs w a)"

end
