(* ===== verification/Serving.thy ===== *)
theory Serving
  imports Driver
begin

text \<open>
  The correctness of the driver for client connections: \<open>running c\<close> says that a connection is in one of the
  states a client goes through, with its buffers and lists as that state needs them. Every turn of the loop keeps it
  and comes closer to stopping, so \<open>drive_machine\<close> returns whatever the peer sends and accepts.
\<close>

section \<open>What the writer leaves alone\<close>

text \<open>\<open>c'\<close> is \<open>c\<close> after some transmission.\<close>

definition transmitted :: "conn \<Rightarrow> conn \<Rightarrow> bool" where
  "transmitted c c' \<longleftrightarrow>
     (\<exists>ml v k st fl. c' = c\<lparr>msglist := ml, iov := v, msgcurr := k, c_state := st, ev_flags := fl\<rparr> \<and>
        length ml = length (msglist c) \<and> length v = length (iov c))"

lemma transmittedI:
  "c' = c\<lparr>msglist := ml, iov := v, msgcurr := k, c_state := st, ev_flags := fl\<rparr> \<Longrightarrow>
   length ml = length (msglist c) \<Longrightarrow> length v = length (iov c) \<Longrightarrow> transmitted c c'"
  unfolding transmitted_def by blast

lemma transmitted_refl [simp]: "transmitted c c"
  by (rule transmittedI [where ml = "msglist c" and v = "iov c" and k = "msgcurr c" and st = "c_state c" and fl = "ev_flags c"])
     simp_all

lemma transmitted_trans: "transmitted c d \<Longrightarrow> transmitted d f \<Longrightarrow> transmitted c f"
  unfolding transmitted_def by (elim exE conjE) (simp, blast)

lemma transmitted_state [simp]:
  "transmitted c (c\<lparr>c_state := st\<rparr>)" "transmitted c (c\<lparr>ev_flags := fl\<rparr>)"
  by (rule transmittedI [where ml = "msglist c" and v = "iov c" and k = "msgcurr c" and st = st and fl = "ev_flags c"], simp_all)
     (rule transmittedI [where ml = "msglist c" and v = "iov c" and k = "msgcurr c" and st = "c_state c" and fl = fl], simp_all)

lemma transmitted_fields:
  assumes "transmitted c c'"
  shows "in_ok c' = in_ok c" "arrays_ok c' = arrays_ok c" "wbuf_ok c' = wbuf_ok c" "items_ok c' = items_ok c"
    "c_type c' = c_type c" "c_sfd c' = c_sfd c" "c_stats c' = c_stats c" "c_thread c' = c_thread c"
    "after_write c' = after_write c" "iovused c' = iovused c" "icurr c' = icurr c" "ileft c' = ileft c" "ilist c' = ilist c"
    "rbytes c' = rbytes c" "unread c' = unread c"
  using assms
  by (auto simp: transmitted_def in_ok_def arrays_ok_def wbuf_ok_def items_ok_def unread_def)

lemma update_event_transmitted: "conn_update_event e c fl = (ok, e', c') \<Longrightarrow> transmitted c c'"
  by (erule conn_update_event_cases) auto

lemma tx_sent_transmitted: "tx_sent c k = Ok c' \<Longrightarrow> transmitted c c'"
proof -
  assume s: "tx_sent c k = Ok c'"
  obtain res i n where t: "tx_consume (iov c) k (msg_iov (msglist c ! msgcurr c)) (msg_iovlen (msglist c ! msgcurr c)) = (res, i, n)"
    by (cases "tx_consume (iov c) k (msg_iov (msglist c ! msgcurr c)) (msg_iovlen (msglist c ! msgcurr c))") auto
  have "c' = c\<lparr>msglist := (msglist c)[msgcurr c := \<lparr>msg_iov = i, msg_iovlen = n\<rparr>], iov := iov c', msgcurr := msgcurr c,
      c_state := c_state c, ev_flags := ev_flags c\<rparr> \<and> length (iov c') = length (iov c)"
    using s t by (auto simp: tx_sent_def Let_def split: if_splits)
  then show "transmitted c c'" by (elim conjE) (rule transmittedI, assumption, simp_all)
qed

text \<open>Whatever it sends or not, the writer uses up answers of the socket and nothing else.\<close>

definition after_send :: "env \<Rightarrow> int \<Rightarrow> write_result \<Rightarrow> env \<Rightarrow> bool" where
  "after_send e fd r e' \<longleftrightarrow>
     alloc_ok e' = alloc_ok e \<and> allocs e' = allocs e \<and> sock_in e' = sock_in e \<and>
     (r = TRANSMIT_INCOMPLETE \<longrightarrow> length (sock_out e' fd) < length (sock_out e fd))"

lemma sys_send_after:
  assumes "sys_send e fd bs = (x, e')"
  shows "alloc_ok e' = alloc_ok e \<and> allocs e' = allocs e \<and> sock_in e' = sock_in e \<and>
    ((\<exists>k. x = Sent k) \<longrightarrow> length (sock_out e' fd) < length (sock_out e fd))"
  using assms by (auto simp: sys_send_def split: list.splits sd.splits)

lemma tx_send_frame:
  assumes "tx_send e c = Ok (r, e', c')"
  shows "transmitted c c' \<and> after_send e (c_sfd c) r e'"
proof (cases "msgcurr c < msgused c")
  case False
  then show ?thesis using assms by (auto simp: tx_send_def after_send_def)
next
  case True
  define m where "m = msglist c ! msgcurr c"
  define vs where "vs = take (msg_iovlen m) (drop (msg_iov m) (iov c))"
  obtain x e1 where x: "sys_send e (c_sfd c) (concat (map iov_data vs)) = (x, e1)" by fastforce
  note a = sys_send_after [OF x]
  have run: "(case (x, e1) of
             (Sent k, e) \<Rightarrow>
               if 0 < k then bindR (tx_sent c k) (\<lambda>c. Ok (TRANSMIT_INCOMPLETE, e, c))
               else bindR (conn_set_state c conn_closing) (\<lambda>c. Ok (TRANSMIT_HARD_ERROR, e, c))
           | (SdAgain, e) \<Rightarrow>
               (case conn_update_event e c EV_WRITE_PERSIST of (ok, e, c) \<Rightarrow>
                  if \<not> ok then bindR (conn_set_state c conn_closing) (\<lambda>c. Ok (TRANSMIT_HARD_ERROR, e, c))
                  else Ok (TRANSMIT_SOFT_ERROR, e, c))
           | (SdErr, e) \<Rightarrow>
               bindR (conn_set_state c conn_closing) (\<lambda>c. Ok (TRANSMIT_HARD_ERROR, e, c))) = Ok (r, e', c')"
    using assms True by (simp add: tx_send_def Let_def m_def [symmetric] vs_def [symmetric] x split: if_splits)
  show ?thesis
  proof (cases x)
    case (Sent k)
    then show ?thesis using run a
      by (cases "0 < k") (auto simp: after_send_def bindR_eq_Ok dest: tx_sent_transmitted)
  next
    case SdAgain
    obtain ok e2 c2 where u: "conn_update_event e1 c EV_WRITE_PERSIST = (ok, e2, c2)"
      by (cases "conn_update_event e1 c EV_WRITE_PERSIST") auto
    have "alloc_ok e2 = alloc_ok e1 \<and> allocs e2 = allocs e1 \<and> sock_in e2 = sock_in e1"
      using u by (auto elim!: conn_update_event_cases)
    then show ?thesis using run a SdAgain u transmitted_trans [OF update_event_transmitted [OF u]]
      by (cases ok) (auto simp: after_send_def)
  next
    case SdErr
    then show ?thesis using run a by (auto simp: after_send_def)
  qed
qed

lemma transmit_frame:
  assumes "transmit e c = Ok (r, e', c')"
  shows "transmitted c c' \<and> after_send e (c_sfd c) r e'"
proof -
  have "transmitted c (tx_skip c)" "c_sfd (tx_skip c) = c_sfd c"
    by (auto simp: tx_skip_def intro!: transmittedI [where ml = "msglist c" and v = "iov c" and k = "msgcurr c + 1" and
        st = "c_state c" and fl = "ev_flags c"])
  then show ?thesis using tx_send_frame [of e "tx_skip c" r e' c'] assms transmitted_trans by (auto simp: transmit_def)
qed

section \<open>Running connections\<close>

text \<open>What holds of a client connection between any two turns.\<close>

definition base :: "conn \<Rightarrow> bool" where
  "base c \<longleftrightarrow>
     in_ok c \<and> arrays_ok c \<and> wbuf_ok c \<and> items_ok c \<and> c_type c = client_conn \<and> c_stats c \<noteq> None"

text \<open>What a state needs of the input and of the output.\<close>

definition state_ok :: "conn \<Rightarrow> bool" where
  "state_ok c \<longleftrightarrow>
     (case c_state c of
        conn_write \<Rightarrow>
          after_write c \<in> {conn_new_cmd, conn_closing} \<and>
          (if iovused c = 0
           then out_rep c [[]] \<and> msgcurr c = 0 \<and> wcurr c = 0 \<and> 0 < wbytes c \<and> nat (wbytes c) \<le> length (wbuf c)
           else \<exists>ms. tx_rep c ms)
      | conn_mwrite \<Rightarrow> (\<exists>ms. tx_rep c ms) \<and> icurr c + ileft c \<le> length (ilist c)
      | conn_parse_cmd \<Rightarrow> 0 < rbytes c
      | st \<Rightarrow> st \<in> {conn_new_cmd, conn_waiting, conn_read, conn_read_value, conn_swallow, conn_closing})"

definition running :: "conn \<Rightarrow> bool" where
  "running c \<longleftrightarrow> base c \<and> state_ok c"

text \<open>How far a connection is from the next command, and how much its peer can still make it do before.\<close>

fun rank :: "conn_states \<Rightarrow> nat" where
  "rank conn_read = 7"
| "rank conn_parse_cmd = 6"
| "rank conn_read_value = 5"
| "rank conn_swallow = 5"
| "rank conn_write = 4"
| "rank conn_mwrite = 4"
| "rank conn_new_cmd = 3"
| "rank conn_waiting = 2"
| "rank conn_closing = 1"
| "rank _ = 0"

definition sock_size :: "env \<Rightarrow> int \<Rightarrow> nat" where
  "sock_size e fd = sum_list (map (\<lambda>x. Suc (length (rd_bytes x))) (sock_in e fd))"

definition work :: "env \<Rightarrow> conn \<Rightarrow> nat" where
  "work e c =
     (if c_state c \<in> {conn_read_value, conn_swallow} then
        if sbytes c = 0 then 0 else Suc (nat (rbytes c) + sock_size e (c_sfd c))
      else if c_state c \<in> {conn_write, conn_mwrite} then length (sock_out e (c_sfd c)) else 0)"

text \<open>One turn on a connection: it keeps running, and unless it stops it has come closer to stopping.\<close>

definition turn :: "env \<Rightarrow> conn \<Rightarrow> bool \<Rightarrow> env \<Rightarrow> conn \<Rightarrow> bool" where
  "turn e c stop e' c' \<longleftrightarrow>
     running c' \<and> mem_ok e' \<and> c_sfd c' = c_sfd c \<and> c_stats c' = c_stats c \<and> c_thread c' = c_thread c \<and>
     (stop \<or> rank (c_state c') < rank (c_state c) \<or> rank (c_state c') = rank (c_state c) \<and> work e' c' < work e c)"

lemma base_update [simp]:
  "base (c\<lparr>c_state := st\<rparr>) = base c" "base (c\<lparr>ev_flags := fl\<rparr>) = base c" "base (c\<lparr>mem_blob := b\<rparr>) = base c"
  "base (c\<lparr>mem_free_delay := d\<rparr>) = base c" "base (c\<lparr>c_cmd := k\<rparr>) = base c" "base (c\<lparr>after_write := st\<rparr>) = base c"
  "base (c\<lparr>sbytes := n\<rparr>) = base c" "base (c\<lparr>icurr := i\<rparr>) = base c" "base (c\<lparr>ileft := i\<rparr>) = base c"
  "base (c\<lparr>c_which := x\<rparr>) = base c"
  by (simp_all add: base_def in_ok_def arrays_ok_def wbuf_ok_def items_ok_def)

lemma base_transmitted: "transmitted c c' \<Longrightarrow> base c' = base c"
  by (simp add: base_def transmitted_fields)

text \<open>A state that needs nothing but the base.\<close>

lemma running_plain:
  "base c \<Longrightarrow> c_state c \<in> {conn_new_cmd, conn_waiting, conn_read, conn_read_value, conn_swallow, conn_closing} \<Longrightarrow> running c"
  by (auto simp: running_def state_ok_def)

lemma out_after_write [simp]:
  "out_rep (c\<lparr>after_write := st\<rparr>) = out_rep c" "tx_rep (c\<lparr>after_write := st\<rparr>) = tx_rep c"
  "out_rep (c\<lparr>c_which := x\<rparr>) = out_rep c" "tx_rep (c\<lparr>c_which := x\<rparr>) = tx_rep c"
  by (simp_all add: out_rep_def tx_rep_def fun_eq_iff)

lemma running_proper: "running c \<Longrightarrow> 0 < rank (c_state c)"
  by (cases "c_state c") (auto simp: running_def state_ok_def)

lemma says_running:
  assumes "says c (str @ CRLF)" and "base c"
  shows "running c"
proof -
  have "length (take (length (str @ CRLF)) (wbuf c)) = length (str @ CRLF)" using assms(1) by (simp only: says_def)
  then have "length (str @ CRLF) \<le> length (wbuf c)" by simp
  then show ?thesis
    using assms out_rep_used [of c "[[]]"] by (auto simp: says_def running_def state_ok_def)
qed

lemma get_reply_state:
  assumes "get_reply it n (c\<lparr>msgcurr := 0\<rparr>) [[]] c'"
  shows "c_state c' = conn_mwrite" "state_ok c'"
proof -
  obtain ms where ms: "out_rep c' ms" "msgcurr c' = 0" using assms by (auto simp: get_reply_def)
  have "length (take n (ilist c')) = length (replicate n (Some it))"
    using assms by (simp add: get_reply_def)
  then have "n \<le> length (ilist c')" by simp
  then show "c_state c' = conn_mwrite" "state_ok c'"
    using assms out_rep_tx [OF ms] by (auto simp: get_reply_def state_ok_def)
qed

text \<open>A command that ran leaves the connection running, in a state closer to the next command.\<close>

lemma executes_running:
  assumes "executes it ws cfg c cfg' c'" and "base c'"
  shows "running c' \<and> rank (c_state c') < rank conn_parse_cmd"
proof (cases "recognised ws \<and> is_get ws \<and> \<not> (\<exists>k \<in> set (tl ws). KEY_MAX_LENGTH < length k)")
  case True
  then have "get_reply it (length (tl ws)) (c\<lparr>msgcurr := 0\<rparr>) [[]] c'"
    using assms(1) unfolding executes_def cmd_post_def by metis
  from get_reply_state [OF this] show ?thesis using assms(2) by (simp add: running_def)
next
  case False
  then consider "says c' bad_line" | "says c' (''ERROR'' @ CRLF)" | "c_state c' = conn_read_value" | "c_state c' = conn_new_cmd"
    using assms(1) unfolding executes_def cmd_post_def by metis
  then show ?thesis
  proof cases
    case 1
    then have "c_state c' = conn_write" by (simp only: says_def)
    then show ?thesis using says_running [OF 1 assms(2)] by simp
  next
    case 2
    then have "c_state c' = conn_write" by (simp only: says_def)
    then show ?thesis using says_running [OF 2 assms(2)] by simp
  qed (use running_plain [OF assms(2)] in simp_all)
qed

section \<open>One turn\<close>

lemma dm_await_turn:
  assumes "base c" and "mem_ok e"
  obtains stop e' c' where "dm_await fl e c = Ok (stop, e', c')" "transmitted c c'" "mem_ok e'"
    "c_state c' = (if stop then c_state c else conn_closing)" "stop \<longrightarrow> c' = c\<lparr>ev_flags := fl\<rparr>"
    "sock_in e' = sock_in e" "sock_out e' = sock_out e"
proof -
  obtain ok e' c1 where u: "conn_update_event e c fl = (ok, e', c1)" by (cases "conn_update_event e c fl") auto
  have e': "mem_ok e'" "sock_in e' = sock_in e" "sock_out e' = sock_out e"
    using u assms(2) by (auto elim!: conn_update_event_cases simp: mem_ok_def)
  have t: "transmitted c c1" by (rule update_event_transmitted [OF u])
  show ?thesis
  proof (cases ok)
    case True
    then have c1: "c1 = c\<lparr>ev_flags := fl\<rparr>" using conn_update_event_ok u by simp
    have "dm_await fl e c = Ok (True, e', c1)" using u True by (simp add: dm_await_def)
    moreover have "c_state c1 = c_state c" by (simp add: c1)
    ultimately show ?thesis using t e' c1 by (intro that [of True e' c1]) simp_all
  next
    case False
    then have "dm_await fl e c = Ok (False, e', c1\<lparr>c_state := conn_closing\<rparr>)" using u by (simp add: dm_await_def)
    then show ?thesis using transmitted_trans [OF t] e' by (intro that [of False e' "c1\<lparr>c_state := conn_closing\<rparr>"]) simp_all
  qed
qed

lemma turn_plain:
  assumes "base c'" "mem_ok e'" "c_sfd c' = c_sfd c" "c_stats c' = c_stats c" "c_thread c' = c_thread c"
    and "c_state c' \<in> {conn_new_cmd, conn_waiting, conn_read, conn_read_value, conn_swallow, conn_closing}"
    and "stop \<or> rank (c_state c') < rank (c_state c) \<or> rank (c_state c') = rank (c_state c) \<and> work e' c' < work e c"
  shows "turn e c stop e' c'"
  using assms running_plain by (simp add: turn_def)

lemma dm_waiting_turn:
  assumes "running c" "mem_ok e" "c_state c = conn_waiting"
  shows "\<exists>stop e' c'. dm_waiting e c = Ok (stop, e', c') \<and> turn e c stop e' c'"
proof -
  have b: "base c" using assms(1) by (simp add: running_def)
  obtain stop e' c' where a: "dm_await EV_READ_PERSIST e c = Ok (stop, e', c')" "transmitted c c'" "mem_ok e'"
    "c_state c' = (if stop then c_state c else conn_closing)" "stop \<longrightarrow> c' = c\<lparr>ev_flags := EV_READ_PERSIST\<rparr>"
    using dm_await_turn [OF b assms(2), of EV_READ_PERSIST] by metis
  note f = transmitted_fields [OF a(2)]
  show ?thesis
  proof (cases stop)
    case True
    then have "dm_waiting e c = Ok (True, e', c'\<lparr>c_state := conn_read\<rparr>)" using a(1) by (simp add: dm_waiting_def)
    moreover have "turn e c True e' (c'\<lparr>c_state := conn_read\<rparr>)"
      using b a(2,3) f by (intro turn_plain) (simp_all add: base_transmitted)
    ultimately show ?thesis by blast
  next
    case False
    then have "dm_waiting e c = Ok (False, e', c')" using a(1) by (simp add: dm_waiting_def)
    moreover have "turn e c False e' c'"
      using b a False assms(3) f by (intro turn_plain) (simp_all add: base_transmitted)
    ultimately show ?thesis by blast
  qed
qed

lemma dm_new_cmd_turn:
  assumes "running c" "mem_ok e" "c_state c = conn_new_cmd"
  shows "\<exists>stop n e' c'. dm_new_cmd nreqs e c = Ok (stop, n, e', c') \<and> n = nreqs - 1 \<and> running c' \<and> mem_ok e' \<and>
    c_sfd c' = c_sfd c \<and> c_stats c' = c_stats c \<and> c_thread c' = c_thread c \<and>
    (stop \<or> 0 \<le> n \<or> rank (c_state c') < rank (c_state c))"
proof -
  define d where "d = (if mem_blob c \<noteq> None \<and> mem_free_delay c = 0 then c\<lparr>mem_blob := None\<rparr>
               else if mem_free_delay c > 0 then c\<lparr>mem_free_delay := mem_free_delay c - 1\<rparr> else c)"
  have d: "base d" "c_sfd d = c_sfd c" "c_stats d = c_stats c" "c_thread d = c_thread c" "rbytes d = rbytes c" "c_state d = conn_new_cmd"
    using assms(1,3) by (simp_all add: d_def running_def)
  define fl where "fl = (if rbytes d > 0 then EV_WRITE_PERSIST else EV_READ_PERSIST)"
  have eq: "dm_new_cmd nreqs e c = (if nreqs - 1 \<ge> 0 then bindR (reset_cmd_handler d) (\<lambda>c. Ok (False, nreqs - 1, e, c))
      else bindR (dm_await fl e d) (\<lambda>(stop, e, c). Ok (stop, nreqs - 1, e, c)))"
    by (simp add: dm_new_cmd_def d_def fl_def Let_def)
  show ?thesis
  proof (cases "nreqs - 1 \<ge> 0")
    case True
    define c' where "c' = d\<lparr>c_cmd := -1, c_state := (if rbytes d > 0 then conn_parse_cmd else conn_waiting)\<rparr>"
    have "dm_new_cmd nreqs e c = Ok (False, nreqs - 1, e, c')"
      using True by (simp add: eq reset_cmd_handler_def conn_shrink_def c'_def)
    moreover have "running c'" using d(1) by (auto simp: c'_def running_def state_ok_def)
    ultimately show ?thesis using True assms(2) d by (auto simp: c'_def)
  next
    case False
    obtain stop e' c' where a: "dm_await fl e d = Ok (stop, e', c')" "transmitted d c'" "mem_ok e'"
      "c_state c' = (if stop then c_state d else conn_closing)"
      using dm_await_turn [OF d(1) assms(2), of fl] by metis
    have "dm_new_cmd nreqs e c = Ok (stop, nreqs - 1, e', c')" using False a(1) by (simp add: eq)
    moreover have "running c'"
      using a(2,4) d(1,6) running_plain [of c'] by (auto simp: base_transmitted)
    ultimately show ?thesis using a(3,4) transmitted_fields [OF a(2)] d(2-4,6) assms(3) by auto
  qed
qed

lemma same_but_in_eq:
  "same_but_in c c' \<Longrightarrow> c' = c\<lparr>rbuf := rbuf c', rcurr := rcurr c', rbytes := rbytes c', rsize := rsize c'\<rparr>"
  by (cases c; cases c'; simp add: same_but_in_def but_in_def)

lemma reads_base:
  assumes "reads e c e' c'" and "base c"
  shows "base c'" "c_sfd c' = c_sfd c" "c_stats c' = c_stats c" "c_thread c' = c_thread c"
proof -
  have eq: "c' = c\<lparr>rbuf := rbuf c', rcurr := rcurr c', rbytes := rbytes c', rsize := rsize c'\<rparr>"
    and ok: "in_ok c'" using assms(1) same_but_in_eq by (auto simp: reads_def)
  show "c_sfd c' = c_sfd c" "c_stats c' = c_stats c" "c_thread c' = c_thread c" by (subst eq, simp)+
  have "arrays_ok c'" "wbuf_ok c'" "items_ok c'" "c_type c' = client_conn" "c_stats c' \<noteq> None"
    using assms(2) by (subst eq, simp add: base_def arrays_ok_def wbuf_ok_def items_ok_def)+
  with ok show "base c'" by (simp add: base_def)
qed

lemma dm_read_turn:
  assumes "running c" "mem_ok e" "c_state c = conn_read"
  shows "\<exists>stop e' c'. dm_read e c = Ok (stop, e', c') \<and> turn e c stop e' c'"
proof -
  have b: "base c" using assms(1) by (simp add: running_def)
  obtain r e1 c1 where r: "read_network e c = Ok (r, e1, c1)" "reads e c e1 c1" "read_post READ_NO_DATA_RECEIVED e c r c1"
    using read_network_ok [of c e] b by (auto simp: base_def)
  note f = reads_base [OF r(2) b]
  have mem: "mem_ok e1" using r(2) assms(2) by (simp add: reads_def)
  show ?thesis
  proof (cases r)
    case READ_DATA_RECEIVED
    have "0 < rbytes c1" using r(3) READ_DATA_RECEIVED b by (auto simp: read_post_def base_def in_ok_def)
    then have "turn e c False e1 (c1\<lparr>c_state := conn_parse_cmd\<rparr>)"
      using f mem assms(3) by (simp add: turn_def running_def state_ok_def)
    then show ?thesis using r(1) READ_DATA_RECEIVED by (auto simp: dm_read_def)
  next
    case READ_NO_DATA_RECEIVED
    have "turn e c False e1 (c1\<lparr>c_state := conn_waiting\<rparr>)" using f mem assms(3) by (intro turn_plain) simp_all
    then show ?thesis using r(1) READ_NO_DATA_RECEIVED by (auto simp: dm_read_def)
  next
    case READ_ERROR
    have "turn e c False e1 (c1\<lparr>c_state := conn_closing\<rparr>)" using f mem assms(3) by (intro turn_plain) simp_all
    then show ?thesis using r(1) READ_ERROR by (auto simp: dm_read_def)
  next
    case READ_MEMORY_ERROR
    let ?d = "c1\<lparr>rbytes := 0\<rparr>" and ?s = "''SERVER_ERROR out of memory reading request''"
    have d: "base ?d" using f(1) by (simp add: base_def in_ok_def arrays_ok_def wbuf_ok_def items_ok_def)
    then obtain c2 where c2: "error_response e1 ?d ?s = Ok (e1, c2)" "says c2 (?s @ CRLF)" "same_resp ?d c2"
      using error_response_says [of ?d ?s e1] by (auto simp: base_def)
    have c2': "base c2" "c_sfd c2 = c_sfd c1" "c_stats c2 = c_stats c1" "c_thread c2 = c_thread c1"
      using d same_resp_fields [OF c2(3)] c2(2) out_rep_arrays by (auto simp: base_def in_ok_def items_ok_def says_def)
    have "running c2" "c_state c2 = conn_write" using says_running [OF c2(2) c2'(1)] c2(2) by (simp_all only: says_def)
    then have "turn e c False e1 (c2\<lparr>after_write := conn_closing\<rparr>)"
      using c2' f mem assms(3) by (simp add: turn_def running_def state_ok_def)
    then show ?thesis using r(1) READ_MEMORY_ERROR c2(1) by (auto simp: dm_read_def simp del: length_append)
  qed
qed

lemma error_response_turn:
  assumes "base c" "mem_ok e" "rank conn_write < rank (c_state c)" "length str \<le> 62"
  shows "\<exists>c'. error_response e c str = Ok (e, c') \<and> turn e c False e c'"
proof -
  obtain c' where c': "error_response e c str = Ok (e, c')" "says c' (str @ CRLF)" "same_resp c c'"
    using error_response_says [OF _ _ assms(4)] assms(1) by (auto simp: base_def)
  note f = same_resp_fields [OF c'(3)]
  have "base c'" using assms(1) f c'(2) out_rep_arrays by (auto simp: base_def in_ok_def items_ok_def says_def)
  then have "running c'" using says_running c'(2) by blast
  moreover have "c_state c' = conn_write" using c'(2) by (simp only: says_def)
  ultimately show ?thesis using c'(1) f assms(2,3) by (intro exI [of _ c']) (simp add: turn_def)
qed

lemma sys_read_size:
  "sys_read e fd n = (Data bs, e') \<Longrightarrow> bs \<noteq> [] \<Longrightarrow> sock_size e' fd < sock_size e fd"
  by (auto simp: sys_read_def sock_size_def split: list.splits rd.splits if_splits)

text \<open>Swallowing from the buffer.\<close>

lemma swallow_buffer:
  assumes b: "base c" and mem: "mem_ok e" and st: "c_state c \<in> {conn_read_value, conn_swallow}"
    and s: "sbytes c \<noteq> 0" "rbytes c > 0"
  shows "dm_swallow e c = Err OutOfBounds \<or> (\<exists>c'. dm_swallow e c = Ok (False, e, c') \<and> turn e c False e c')"
proof -
  define k where "k = (if rbytes c > sbytes c then sbytes c else rbytes c)"
  define c' where "c' = c\<lparr>sbytes := i32 (sbytes c - k), rcurr := rcurr c + k, rbytes := i32 (rbytes c - k)\<rparr>"
  have run: "dm_swallow e c = (if rcurr c' < 0 \<or> int (length (rbuf c')) < rcurr c' then Err OutOfBounds else Ok (False, e, c'))"
    using s by (simp add: dm_swallow_def Let_def k_def c'_def)
  have i: "int (length (rbuf c)) = rsize c" "0 \<le> rcurr c" "rcurr c + rbytes c \<le> rsize c" "rsize c \<le> INT_MAX" "0 < rsize c"
    using b by (simp_all add: base_def in_ok_def)
  show ?thesis
  proof (cases "rcurr c' < 0 \<or> int (length (rbuf c')) < rcurr c'")
    case False
    then have k: "0 \<le> rcurr c + k" "k \<le> rbytes c" "i32 (rbytes c - k) = rbytes c - k"
      using i s by (auto simp: c'_def k_def)
    have in': "in_ok c'" using k i by (simp add: in_ok_def c'_def)
    then have b': "base c'" using b by (simp add: base_def c'_def arrays_ok_def wbuf_ok_def items_ok_def)
    have "work e c' < work e c"
    proof (cases "k = sbytes c")
      case True
      then show ?thesis using st s by (auto simp: work_def c'_def)
    next
      case False
      then have "k = rbytes c" by (simp add: k_def split: if_splits)
      then show ?thesis using st s by (auto simp: work_def c'_def)
    qed
    then have "turn e c False e c'" using b' mem st by (intro turn_plain) (auto simp: c'_def)
    then show ?thesis using run False by simp
  qed (use run in simp)
qed

text \<open>Swallowing from the socket.\<close>

lemma swallow_socket:
  assumes b: "base c" and mem: "mem_ok e" and st: "c_state c \<in> {conn_read_value, conn_swallow}"
    and s: "sbytes c \<noteq> 0" "\<not> rbytes c > 0"
  shows "dm_swallow e c = Err OutOfBounds \<or> (\<exists>stop e' c'. dm_swallow e c = Ok (stop, e', c') \<and> turn e c stop e' c')"
proof -
  define n where "n = (if rsize c > sbytes c then sbytes c else rsize c)"
  obtain x e1 where rd: "sys_read e (c_sfd c) n = (x, e1)" by fastforce
  have mem1: "mem_ok e1" using sys_read_frame [OF rd] mem by (simp add: mem_ok_def)
  have run: "dm_swallow e c = (case (x, e1) of
          (Data bs, e) \<Rightarrow>
            if bs = [] then bindR (conn_set_state c conn_closing) (\<lambda>c. Ok (False, e, c))
            else
              bindR (memwrite (rbuf c) 0 bs) (\<lambda>b.
                Ok (False, e, c\<lparr>rbuf := b, sbytes := i32 (sbytes c - int (length bs))\<rparr>))
        | (RdAgain, e) \<Rightarrow> dm_await EV_READ_PERSIST e c
        | (RdErr, e) \<Rightarrow> bindR (conn_set_state c conn_closing) (\<lambda>c. Ok (False, e, c)))"
    using s unfolding dm_swallow_def n_def [symmetric] rd by simp
  have close: "turn e c False e1 (c\<lparr>c_state := conn_closing\<rparr>)"
    using b mem1 st by (intro turn_plain) auto
  show ?thesis
  proof (cases x)
    case (Data bs)
    show ?thesis
    proof (cases "bs = []")
      case False
      define c' where "c' = c\<lparr>rbuf := blit (rbuf c) 0 bs, sbytes := i32 (sbytes c - int (length bs))\<rparr>"
      show ?thesis
      proof (cases "length bs \<le> length (rbuf c)")
        case True
        then have "base c'" using b by (simp add: c'_def base_def in_ok_def arrays_ok_def wbuf_ok_def items_ok_def)
        moreover have "work e1 c' < work e c"
          using sys_read_size [OF rd [unfolded Data] False] st s by (auto simp: work_def c'_def)
        ultimately have "turn e c False e1 c'" using mem1 st by (intro turn_plain) (auto simp: c'_def)
        moreover have "dm_swallow e c = Ok (False, e1, c')" using run Data False True by (simp add: memwrite_def c'_def)
        ultimately show ?thesis by blast
      qed (use run Data False in \<open>simp add: memwrite_def\<close>)
    qed (use run Data close in auto)
  next
    case RdAgain
    obtain stop e' c' where a: "dm_await EV_READ_PERSIST e1 c = Ok (stop, e', c')" "transmitted c c'" "mem_ok e'"
      "c_state c' = (if stop then c_state c else conn_closing)"
      using dm_await_turn [OF b mem1, of EV_READ_PERSIST] by metis
    have "turn e c stop e' c'"
      using a b st transmitted_fields [OF a(2)] by (intro turn_plain) (auto simp: base_transmitted)
    then show ?thesis using run RdAgain a(1) by auto
  qed (use run close in auto)
qed

lemma dm_swallow_turn:
  assumes "running c" "mem_ok e" "c_state c \<in> {conn_read_value, conn_swallow}" "c_state c = conn_read_value \<longrightarrow> sbytes c \<noteq> 0"
  shows "dm_swallow e c = Err OutOfBounds \<or> (\<exists>stop e' c'. dm_swallow e c = Ok (stop, e', c') \<and> turn e c stop e' c')"
proof (cases "sbytes c = 0")
  case True
  then have "turn e c False e (c\<lparr>c_state := conn_new_cmd\<rparr>)"
    using assms by (intro turn_plain) (auto simp: running_def)
  then show ?thesis using True by (auto simp: dm_swallow_def)
next
  case False
  have b: "base c" using assms(1) by (simp add: running_def)
  show ?thesis
    using swallow_buffer [OF b assms(2,3) False] swallow_socket [OF b assms(2,3) False] by (cases "rbytes c > 0") blast+
qed

lemma dm_read_value_turn:
  assumes "running c" "mem_ok e" "c_state c = conn_read_value"
  shows "dm_read_value e c = Err OutOfBounds \<or> (\<exists>stop e' c'. dm_read_value e c = Ok (stop, e', c') \<and> turn e c stop e' c')"
proof (cases "sbytes c = 0")
  case True
  then show ?thesis
    using error_response_turn [of c e "''STORED''"] assms by (auto simp: dm_read_value_def running_def)
next
  case False
  then show ?thesis using dm_swallow_turn [OF assms(1,2)] assms(3) by (simp add: dm_read_value_def)
qed

lemma release_items_ok:
  "icurr c + n \<le> length (ilist c) \<Longrightarrow>
   release_items n c = Ok (if n = 0 then c else c\<lparr>icurr := icurr c + n, ileft := 0\<rparr>)"
  by (induction n arbitrary: c) auto

lemma tx_step_rank:
  assumes "tx_step e c msgs r e' c' ms" "transmitted c c'" "base c" "mem_ok e'" "rank (c_state c) = 4"
    and "c_state c' = c_state c \<longrightarrow> running c'" and "r \<noteq> TRANSMIT_COMPLETE" and "after_send e (c_sfd c) r e'"
    and "c_state c \<in> {conn_write, conn_mwrite}"
  shows "turn e c (r = TRANSMIT_SOFT_ERROR) e' c'"
proof -
  note f = transmitted_fields [OF assms(2)]
  show ?thesis
  proof (cases r)
    case TRANSMIT_HARD_ERROR
    then have "c_state c' = conn_closing" using assms(1) by (simp add: tx_step_def)
    then show ?thesis using assms f by (intro turn_plain) (simp_all add: base_transmitted)
  next
    case TRANSMIT_INCOMPLETE
    then have "c_state c' = c_state c" "work e' c' < work e c"
      using assms(1,8,9) f(6) by (auto simp: tx_step_def after_send_def work_def)
    then show ?thesis using assms f by (simp add: turn_def)
  next
    case TRANSMIT_SOFT_ERROR
    then have "c_state c' = c_state c" using assms(1) by (simp add: tx_step_def)
    then show ?thesis using assms f TRANSMIT_SOFT_ERROR by (simp add: turn_def)
  qed (use assms(7) in simp)
qed

text \<open>Sending, from either of the two writing states with output under way.\<close>

lemma dm_mwrite_turn:
  assumes b: "base c" and mem: "mem_ok e" and tx: "tx_rep c msgs"
    and st: "c_state c = conn_mwrite \<and> icurr c + ileft c \<le> length (ilist c) \<or>
      c_state c = conn_write \<and> iovused c \<noteq> 0 \<and> after_write c \<in> {conn_new_cmd, conn_closing}"
  shows "dm_mwrite e c = Err OutOfBounds \<and> \<not> out_safe msgs \<or>
    (\<exists>stop e' c'. dm_mwrite e c = Ok (stop, e', c') \<and> turn e c stop e' c')"
proof (cases "transmit e c = Err OutOfBounds")
  case True
  then show ?thesis using transmit_step [OF tx, of e] by (simp add: dm_mwrite_def)
next
  case False
  then obtain r e' c' ms where t: "transmit e c = Ok (r, e', c')" "tx_step e c msgs r e' c' ms"
    using transmit_step [OF tx] by blast
  have fr: "transmitted c c'" "after_send e (c_sfd c) r e'" using transmit_frame [OF t(1)] by simp_all
  note f = transmitted_fields [OF fr(1)]
  have mem': "mem_ok e'" using fr(2) mem by (simp add: after_send_def mem_ok_def)
  have b': "base c'" using b fr(1) by (simp add: base_transmitted)
  have run': "running c'" if "c_state c' = c_state c"
    using t(2) that st b' f by (auto simp: running_def state_ok_def tx_step_def)
  have rk: "rank (c_state c) = 4" "c_state c \<in> {conn_write, conn_mwrite}" using st by auto
  show ?thesis
  proof (cases "r = TRANSMIT_COMPLETE")
    case True
    then have s': "c_state c' = c_state c" using t(2) by (simp add: tx_step_def)
    show ?thesis
    proof (cases "c_state c = conn_mwrite")
      case mw: True
      define d where "d = (if ileft c' = 0 then c' else c'\<lparr>icurr := icurr c' + ileft c', ileft := 0\<rparr>)"
      have rel: "release_items (ileft c') c' = Ok d"
        using release_items_ok [of c' "ileft c'"] st mw f by (simp add: d_def)
      have "turn e c False e' (d\<lparr>c_state := conn_new_cmd\<rparr>)"
        using b' f mem' mw by (intro turn_plain) (simp_all add: d_def)
      moreover have "dm_mwrite e c = Ok (False, e', d\<lparr>c_state := conn_new_cmd\<rparr>)"
        using t(1) True s' mw rel by (simp add: dm_mwrite_def)
      ultimately show ?thesis by blast
    next
      case False
      then have aw: "c_state c = conn_write" "after_write c' \<in> {conn_new_cmd, conn_closing}" using st f by auto
      then have "proper_state (after_write c')" by auto
      then have "dm_mwrite e c = Ok (False, e', c'\<lparr>c_state := after_write c'\<rparr>)"
        using t(1) True s' aw by (simp add: dm_mwrite_def)
      moreover have "turn e c False e' (c'\<lparr>c_state := after_write c'\<rparr>)"
        using b' f mem' aw by (intro turn_plain) auto
      ultimately show ?thesis by blast
    qed
  next
    case False
    have "turn e c (r = TRANSMIT_SOFT_ERROR) e' c'"
      using tx_step_rank [OF t(2) fr(1) b mem' rk(1) _ False fr(2) rk(2)] run' by blast
    moreover have "dm_mwrite e c = Ok (r = TRANSMIT_SOFT_ERROR, e', c')"
      using t(1) False by (cases r) (simp_all add: dm_mwrite_def)
    ultimately show ?thesis by blast
  qed
qed

text \<open>The line in the write buffer becomes a message.\<close>

lemma line_message:
  assumes run: "running c" and mem: "mem_ok e" and st: "c_state c = conn_write" "iovused c = 0"
  obtains e1 c1 ms where "conn_add_iov e c (wbuf c) (wbytes c) = Ok (True, e1, c1)" "tx_rep c1 ms" "out_safe ms"
    "out_data ms = take (nat (wbytes c)) (wbuf c)" "iovused c1 \<noteq> 0" "mem_ok e1" "same_net e e1" "base c1" "c_state c1 = conn_write"
    "after_write c1 = after_write c" "unread c1 = unread c" "c_sfd c1 = c_sfd c" "c_stats c1 = c_stats c" "c_thread c1 = c_thread c"
proof -
  have w: "out_rep c [[]]" "msgcurr c = 0" "0 < wbytes c" "nat (wbytes c) \<le> length (wbuf c)" "base c"
    using run st by (auto simp: running_def state_ok_def)
  obtain e1 c1 ms where a: "conn_add_iov e c (wbuf c) (wbytes c) = Ok (True, e1, c1)" "same_out c c1" "out_rep c1 ms"
    "mem_ok e1" "added [[]] (wbuf c) (nat (wbytes c)) ms"
    using conn_add_iov_rep [OF w(1), of "wbytes c" e "wbuf c"] w(3) mem by auto
  have eq: "c1 = c\<lparr>msglist := msglist c1, msgsize := msgsize c1, msgused := msgused c1, msgbytes := msgbytes c1, iov := iov c1,
      iovsize := iovsize c1, iovused := iovused c1\<rparr>"
    using a(2) by (cases c; cases c1; simp add: same_out_def but_out_def)
  have c1: "in_ok c1" "wbuf_ok c1" "items_ok c1" "c_type c1 = client_conn" "c_state c1 = conn_write" "after_write c1 = after_write c"
    "unread c1 = unread c" "c_sfd c1 = c_sfd c" "c_stats c1 = c_stats c" "c_thread c1 = c_thread c" "msgcurr c1 = 0"
    using w(2,5) st by (subst eq, simp add: base_def in_ok_def wbuf_ok_def items_ok_def unread_def)+
  have b1: "base c1" using c1 w(5) out_rep_arrays [OF a(3)] by (simp add: base_def)
  have "out_len ms \<noteq> 0" using a(5) w(3) by (simp add: added_def out_len_def)
  then have "concat ms \<noteq> []" unfolding out_len_def by force
  then have used: "iovused c1 \<noteq> 0" using out_rep_used(2) [OF a(3)] by (simp del: length_concat)
  have ms: "out_safe ms" "out_data ms = take (nat (wbytes c)) (wbuf c)"
    using a(5) w(4) by (simp_all add: added_def out_safe_def out_data_def)
  show ?thesis
    by (rule that [OF a(1) out_rep_tx [OF a(3) c1(11)] ms used a(4) conn_add_iov_net [OF a(1)] b1 c1(5-10)])
qed

lemma dm_write_turn:
  assumes run: "running c" and mem: "mem_ok e" and st: "c_state c = conn_write"
  shows "dm_write e c = Err OutOfBounds \<and> iovused c \<noteq> 0 \<and> \<not> (\<exists>ms. tx_rep c ms \<and> out_safe ms) \<or>
    (\<exists>stop e' c'. dm_write e c = Ok (stop, e', c') \<and> turn e c stop e' c')"
proof (cases "iovused c = 0")
  case False
  then obtain ms where "tx_rep c ms" using run st by (auto simp: running_def state_ok_def)
  moreover have "dm_mwrite e c = Err OutOfBounds \<and> \<not> out_safe ms \<or>
      (\<exists>stop e' c'. dm_mwrite e c = Ok (stop, e', c') \<and> turn e c stop e' c')" if "tx_rep c ms" for ms
    using dm_mwrite_turn [OF _ mem that] run st False by (auto simp: running_def state_ok_def)
  ultimately show ?thesis using False unfolding dm_write_def by (simp only: simp_thms if_False) (metis old.sum.distinct(1) option.inject)
next
  case True
  then have w: "wcurr c = 0" "after_write c \<in> {conn_new_cmd, conn_closing}" using run st by (auto simp: running_def state_ok_def)
  obtain e1 c1 ms where a: "conn_add_iov e c (wbuf c) (wbytes c) = Ok (True, e1, c1)" "tx_rep c1 ms" "out_safe ms"
    "iovused c1 \<noteq> 0" "mem_ok e1" "same_net e e1" "base c1" "c_state c1 = conn_write" "after_write c1 = after_write c"
    "c_sfd c1 = c_sfd c" "c_stats c1 = c_stats c" "c_thread c1 = c_thread c"
    by (rule line_message [OF run mem st True])
  obtain stop e' c' where t: "dm_mwrite e1 c1 = Ok (stop, e', c')" "turn e1 c1 stop e' c'"
    using dm_mwrite_turn [OF a(7,5,2)] a(3,4,8,9) w(2) by auto
  have "work e1 c1 = work e c" using a(6,8,10) st by (simp add: work_def same_net_def)
  then have "turn e c stop e' c'" using t(2) a(8,10-12) st by (simp add: turn_def)
  then show ?thesis using True a(1) w(1) t(1) by (auto simp: dm_write_def)
qed

section \<open>A turn in the world\<close>

text \<open>The world while connection \<open>a\<close> is served, with memory available.\<close>

definition serving :: "world \<Rightarrow> addr \<Rightarrow> item \<Rightarrow> bool" where
  "serving w a it \<longleftrightarrow>
     world_inv w \<and> mem_ok (w_env w) \<and> fixed_item w = Some it \<and> sized it \<and> in_use w a \<and>
     (\<exists>c. w_conns w a = Some c \<and> running c \<and> (s_alloc (config w) \<longrightarrow> c_thread c \<noteq> None))"

definition others_kept :: "world \<Rightarrow> addr \<Rightarrow> world \<Rightarrow> bool" where
  "others_kept w a w' \<longleftrightarrow> (\<forall>b. b \<noteq> a \<longrightarrow> w_conns w' b = w_conns w b \<and> in_use w' b = in_use w b)"

lemma others_kept_refl [simp]: "others_kept w a w"
  by (simp add: others_kept_def)

lemma others_kept_trans: "others_kept w a w' \<Longrightarrow> others_kept w' a w'' \<Longrightarrow> others_kept w a w''"
  by (simp add: others_kept_def)

lemma others_kept_put [simp]: "others_kept w a (put_conn a c (w\<lparr>w_env := e, config := cfg\<rparr>))"
  "others_kept w a (put_conn a c (w\<lparr>w_env := e\<rparr>))" "others_kept w a (put_conn a c w)"
  by (auto simp: others_kept_def put_conn_def in_use_def)

lemma base_conn_ok: "base c \<Longrightarrow> conn_ok c"
  by (simp add: base_def conn_ok_def in_ok_def)

lemma counted_world:
  assumes "world_inv w" and "counted_cfg (config w) c cfg"
  shows "world_inv (w\<lparr>config := cfg\<rparr>) \<and> s_alloc cfg = s_alloc (config w)"
proof -
  obtain a n where n: "st_heap (w_stats w) a = Some n"
    "cfg = (config w)\<lparr>s_stats := (w_stats w)\<lparr>st_heap := (st_heap (w_stats w))(a \<mapsto> n\<lparr>requests := i32 (requests n + 1)\<rparr>)\<rparr>\<rparr>"
    using assms(2) by (auto simp: counted_cfg_def)
  have "stats_inv (s_stats cfg)" using stats_inv_touch [OF n(1)] assms(1) by (simp add: n(2) world_inv_def)
  moreover have "refs_inv (w_conns w) (st_heap (s_stats cfg))"
    using assms(1) n by (auto simp: world_inv_def refs_inv_def)
  ultimately show ?thesis using assms(1) by (simp add: world_inv_def n(2))
qed

lemma serving_put:
  assumes s: "serving w a it" and c: "w_conns w a = Some c"
    and c': "running c'" "c_stats c' = c_stats c" "c_thread c' = c_thread c" "mem_ok e"
    and cfg: "world_inv (w\<lparr>config := cfg\<rparr>)" "s_alloc cfg = s_alloc (config w)"
  shows "serving (put_conn a c' (w\<lparr>w_env := e, config := cfg\<rparr>)) a it"
proof -
  have ok: "conn_ok c'" using c'(1) base_conn_ok by (simp add: running_def)
  have "world_inv (put_conn a c' (w\<lparr>w_env := e, config := cfg\<rparr>))"
    by (rule world_inv_put [OF _ _ c'(2) ok]) (use cfg(1) c in \<open>simp_all add: world_inv_def\<close>)
  moreover have "in_use (put_conn a c' (w\<lparr>w_env := e, config := cfg\<rparr>)) a"
    using s by (simp add: serving_def in_use_def put_conn_def)
  ultimately show ?thesis using s c c' cfg(2) by (simp add: serving_def put_conn_def)
qed

lemma serving_turn:
  assumes s: "serving w a it" and c: "w_conns w a = Some c" and t: "turn (w_env w) c stop e c'"
  shows "serving (put_conn a c' (w\<lparr>w_env := e\<rparr>)) a it"
proof -
  have "serving (put_conn a c' (w\<lparr>w_env := e, config := config w\<rparr>)) a it"
    by (rule serving_put [OF s c]) (use t s in \<open>simp_all add: turn_def serving_def\<close>)
  then show ?thesis by simp
qed

lemma serving_ready:
  assumes "serving w a it" and "w_conns w a = Some c"
  shows "client_ready w c it" "running c" "base c"
proof -
  have r: "running c" "world_inv w" "s_alloc (config w) \<longrightarrow> c_thread c \<noteq> None" "mem_ok (w_env w)" "fixed_item w = Some it"
    "sized it"
    using assms by (auto simp: serving_def)
  then obtain cs where cs: "c_stats c = Some cs" by (auto simp: running_def base_def)
  have "a \<in> refs (w_conns w) cs" using assms(2) cs by (simp add: refs_def)
  then have "st_heap (w_stats w) cs \<noteq> None" using r(2) by (auto simp: world_inv_def refs_inv_def)
  then have "live_stats (config w) c" using cs by (auto simp: live_stats_def)
  then show "client_ready w c it"
    using r by (simp add: client_ready_def running_def base_def)
  show "running c" "base c" using r(1) by (simp_all add: running_def)
qed

text \<open>How much is left to do: requests of this event, the way to the next command, the peer's part.\<close>

definition left :: "int \<Rightarrow> world \<Rightarrow> addr \<Rightarrow> nat \<times> nat \<times> nat" where
  "left nreqs w a =
     (nat (nreqs + 1), rank (c_state (the (w_conns w a))), work (w_env w) (the (w_conns w a)))"

definition left_order :: "((nat \<times> nat \<times> nat) \<times> (nat \<times> nat \<times> nat)) set" where
  "left_order = less_than <*lex*> less_than <*lex*> less_than"

lemma wf_left_order: "wf left_order"
  by (simp add: left_order_def wf_lex_prod)

text \<open>What one turn of the loop may do.\<close>

definition good_step :: "int \<Rightarrow> accept_result list \<Rightarrow> world \<Rightarrow> addr \<Rightarrow> item \<Rightarrow> bool" where
  "good_step nreqs acs w a it \<longleftrightarrow>
     drive_step nreqs acs w a = Err OutOfBounds \<or>
     (\<exists>stop n w'. drive_step nreqs acs w a = Ok (stop, n, acs, w') \<and> others_kept w a w' \<and>
        (if stop then serving w' a it \<or> world_inv w' \<and> \<not> in_use w' a
         else serving w' a it \<and> (left n w' a, left nreqs w a) \<in> left_order))"

lemma turn_left:
  assumes "turn (w_env w) c False e c'" and "w_conns w a = Some c"
  shows "(left nreqs (put_conn a c' (w\<lparr>w_env := e\<rparr>)) a, left nreqs w a) \<in> left_order"
  using assms by (auto simp: turn_def left_def left_order_def put_conn_def)

lemma good_step_turn:
  assumes s: "serving w a it" and c: "w_conns w a = Some c"
    and step: "drive_step nreqs acs w a = bindR (on_conn f w a) (\<lambda>(stop, w). Ok (stop, nreqs, acs, w))"
    and f: "f (w_env w) c = Err OutOfBounds \<or> (\<exists>stop e c'. f (w_env w) c = Ok (stop, e, c') \<and> turn (w_env w) c stop e c')"
  shows "good_step nreqs acs w a it"
  using f
proof
  assume "f (w_env w) c = Err OutOfBounds"
  then show ?thesis using step c by (simp add: good_step_def on_conn_def)
next
  assume "\<exists>stop e c'. f (w_env w) c = Ok (stop, e, c') \<and> turn (w_env w) c stop e c'"
  then obtain stop e c' where t: "f (w_env w) c = Ok (stop, e, c')" "turn (w_env w) c stop e c'" by blast
  let ?w = "put_conn a c' (w\<lparr>w_env := e\<rparr>)"
  have "drive_step nreqs acs w a = Ok (stop, nreqs, acs, ?w)" using step t(1) c by (simp add: on_conn_def)
  moreover have "\<not> stop \<longrightarrow> (left nreqs ?w a, left nreqs w a) \<in> left_order" using turn_left [OF _ c] t(2) by (cases stop) simp_all
  ultimately show ?thesis
    unfolding good_step_def using serving_turn [OF s c t(2)]
    by (intro disjI2 exI [of _ stop] exI [of _ nreqs] exI [of _ ?w]) simp
qed

text \<open>The states that are not only about the connection.\<close>

lemma parse_line_step:
  assumes s: "serving w a it" and c: "w_conns w a = Some c" and st: "c_state c = conn_parse_cmd"
    and u: "unread c = l @ LF # rest" "LF \<notin> set l"
  shows "good_step nreqs acs w a it"
proof -
  note r = serving_ready [OF s c]
  have ok: "in_ok c" using r(3) by (simp add: base_def)
  obtain e cfg c' where p: "read_command w a = Ok (True, put_conn a c' (w\<lparr>w_env := e, config := cfg\<rparr>))" "mem_ok e"
    "in_ok c'" "arrays_ok c'" "wbuf_ok c'" "items_ok c'" "c_type c' = c_type c" "c_sfd c' = c_sfd c"
    "c_stats c' = c_stats c" "c_thread c' = c_thread c" "executes it (words (cstr (chomp l))) (config w) c cfg c'"
    using read_command_line [OF c ok r(1) u] by (elim exE conjE) (rule that)
  have "base c'" using p(3-9) r(3) by (simp add: base_def)
  then have ex: "running c'" "rank (c_state c') < rank conn_parse_cmd" using executes_running [OF p(11)] by simp_all
  have cfg: "world_inv (w\<lparr>config := cfg\<rparr>)" "s_alloc cfg = s_alloc (config w)"
    using p(11) counted_world [of w c cfg] s by (auto simp: executes_def serving_def split: if_splits)
  let ?w = "put_conn a c' (w\<lparr>w_env := e, config := cfg\<rparr>)"
  have "drive_step nreqs acs w a = Ok (False, nreqs, acs, ?w)"
    using c st p(1) by (simp add: drive_step_def dm_parse_cmd_def)
  moreover have "serving ?w a it" using serving_put [OF s c ex(1) p(9,10,2) cfg] .
  moreover have "(left nreqs ?w a, left nreqs w a) \<in> left_order"
    using ex(2) c st by (simp add: left_def left_order_def put_conn_def)
  ultimately show ?thesis unfolding good_step_def
    by (intro disjI2 exI [of _ False] exI [of _ nreqs] exI [of _ ?w]) simp
qed

lemma parse_partial_step:
  assumes s: "serving w a it" and c: "w_conns w a = Some c" and st: "c_state c = conn_parse_cmd"
    and u: "LF \<notin> set (unread c)"
  shows "good_step nreqs acs w a it"
proof -
  note r = serving_ready [OF s c]
  have ok: "in_ok c" "0 < rbytes c" using r(2) st by (simp_all add: running_def base_def state_ok_def)
  have env: "mem_ok (w_env w)" using s by (simp add: serving_def)
  have good: "good_step nreqs acs w a it"
    if c': "drive_step nreqs acs w a = Ok (False, nreqs, acs, put_conn a c' w)" "c' = c\<lparr>c_state := q\<rparr>" "q \<in> {conn_waiting, conn_closing}" for c' q
  proof -
    have t: "turn (w_env w) c False (w_env w) c'" using c'(2,3) r(3) env st by (intro turn_plain) auto
    have "good_step nreqs acs w a it"
      unfolding good_step_def using c'(1) serving_turn [OF s c t] turn_left [OF t c, of nreqs]
      by (intro disjI2 exI [of _ False] exI [of _ nreqs] exI [of _ "put_conn a c' w"]) simp
    then show ?thesis .
  qed
  have rc: "read_command w a = bindR (rc_no_line c) (\<lambda>(r, c). Ok (r, put_conn a c w))"
    by (rule read_command_partial [OF c ok u])
  have put: "put_conn a d (put_conn a c w) = put_conn a d w" for d by (simp add: put_conn_def)
  consider "rc_no_line c = Ok (False, c)" | "rc_no_line c = Ok (True, c\<lparr>c_state := conn_closing\<rparr>)" | "rc_no_line c = Err OutOfBounds"
    using rc_no_line_cases [of c] by blast
  then show ?thesis
  proof cases
    case 1
    have "w_conns (put_conn a c w) a = Some c" by (simp add: put_conn_def)
    then show ?thesis
      using c st rc 1 by (intro good [of "c\<lparr>c_state := conn_waiting\<rparr>" conn_waiting]) (simp_all add: drive_step_def dm_parse_cmd_def put)
  next
    case 2
    then show ?thesis using c st rc by (intro good [of "c\<lparr>c_state := conn_closing\<rparr>" conn_closing]) (simp_all add: drive_step_def dm_parse_cmd_def)
  next
    case 3
    then show ?thesis using c st rc by (simp add: good_step_def drive_step_def dm_parse_cmd_def)
  qed
qed

lemma new_cmd_step:
  assumes s: "serving w a it" and c: "w_conns w a = Some c" and st: "c_state c = conn_new_cmd"
  shows "good_step nreqs acs w a it"
proof -
  note r = serving_ready [OF s c]
  have env: "mem_ok (w_env w)" "world_inv w" using s by (simp_all add: serving_def)
  obtain stop n e c' where t: "dm_new_cmd nreqs (w_env w) c = Ok (stop, n, e, c')" "n = nreqs - 1" "running c'" "mem_ok e"
    "c_sfd c' = c_sfd c" "c_stats c' = c_stats c" "c_thread c' = c_thread c" "stop \<or> 0 \<le> n \<or> rank (c_state c') < rank (c_state c)"
    using dm_new_cmd_turn [OF r(2) env(1) st, of nreqs] by (elim exE conjE) (rule that)
  let ?w = "put_conn a c' (w\<lparr>w_env := e\<rparr>)"
  have "drive_step nreqs acs w a = Ok (stop, n, acs, ?w)" using c st t(1) by (simp add: drive_step_def)
  moreover have "serving ?w a it"
    using serving_put [OF s c t(3,6,7,4), of "config w"] env(2) by simp
  moreover have "\<not> stop \<longrightarrow> (left n ?w a, left nreqs w a) \<in> left_order"
    using t(2,8) c by (auto simp: left_def left_order_def put_conn_def)
  ultimately show ?thesis unfolding good_step_def
    by (intro disjI2 exI [of _ stop] exI [of _ n] exI [of _ ?w]) simp
qed

lemma closing_step:
  assumes s: "serving w a it" and c: "w_conns w a = Some c" and st: "c_state c = conn_closing"
  shows "good_step nreqs acs w a it"
proof -
  have i: "world_inv w" "a \<notin> set (free_content (w_free w))" using s by (simp_all add: serving_def in_use_def)
  obtain cs where cs: "c_stats c = Some cs" using serving_ready(3) [OF s c] by (auto simp: base_def)
  obtain w' where w': "conn_close a w = Ok w'" "world_inv w'" "\<not> in_use w' a"
    "\<forall>b. b \<noteq> a \<longrightarrow> w_conns w' b = w_conns w b \<and> in_use w' b = in_use w b"
    using conn_close_ok [OF i(1) c i(2) cs] by blast
  have "drive_step nreqs acs w a = Ok (True, nreqs, acs, w')" using c st w'(1) by (simp add: drive_step_def)
  then show ?thesis unfolding good_step_def using w'(2-4)
    by (intro disjI2 exI [of _ True] exI [of _ nreqs] exI [of _ w']) (simp add: others_kept_def)
qed

lemma serving_step:
  assumes s: "serving w a it"
  shows "good_step nreqs acs w a it"
proof -
  obtain c where c: "w_conns w a = Some c" using s by (auto simp: serving_def)
  note r = serving_ready(2) [OF s c] and b = serving_ready(3) [OF s c]
  have mem: "mem_ok (w_env w)" using s by (simp add: serving_def)
  show ?thesis
  proof (cases "c_state c")
    case conn_new_cmd
    then show ?thesis using new_cmd_step [OF s c] by simp
  next
    case conn_waiting
    show ?thesis by (rule good_step_turn [OF s c, where f = dm_waiting])
      (use c conn_waiting dm_waiting_turn [OF r mem conn_waiting] in \<open>simp_all add: drive_step_def\<close>)
  next
    case conn_read
    show ?thesis by (rule good_step_turn [OF s c, where f = dm_read])
      (use c conn_read dm_read_turn [OF r mem conn_read] in \<open>simp_all add: drive_step_def\<close>)
  next
    case conn_parse_cmd
    show ?thesis
    proof (cases "LF \<in> set (unread c)")
      case True
      then obtain l rest where "unread c = l @ LF # rest" "LF \<notin> set l" by (meson split_list_first)
      then show ?thesis using parse_line_step [OF s c conn_parse_cmd] by blast
    qed (use parse_partial_step [OF s c conn_parse_cmd] in blast)
  next
    case conn_read_value
    show ?thesis by (rule good_step_turn [OF s c, where f = dm_read_value])
      (use c conn_read_value dm_read_value_turn [OF r mem conn_read_value] in \<open>simp_all add: drive_step_def\<close>)
  next
    case conn_swallow
    show ?thesis by (rule good_step_turn [OF s c, where f = dm_swallow])
      (use c conn_swallow dm_swallow_turn [OF r mem] in \<open>simp_all add: drive_step_def\<close>)
  next
    case conn_write
    show ?thesis by (rule good_step_turn [OF s c, where f = dm_write])
      (use c conn_write dm_write_turn [OF r mem conn_write] in \<open>auto simp: drive_step_def\<close>)
  next
    case conn_mwrite
    then obtain ms where "tx_rep c ms" "icurr c + ileft c \<le> length (ilist c)"
      using r by (auto simp: running_def state_ok_def)
    then have "dm_mwrite (w_env w) c = Err OutOfBounds \<or> (\<exists>stop e' c'. dm_mwrite (w_env w) c = Ok (stop, e', c') \<and> turn (w_env w) c stop e' c')"
      using dm_mwrite_turn [OF b mem] conn_mwrite by blast
    then show ?thesis using c conn_mwrite
      by (intro good_step_turn [OF s c, where f = dm_mwrite]) (simp_all add: drive_step_def)
  next
    case conn_closing
    then show ?thesis using closing_step [OF s c] by simp
  qed (use r in \<open>simp_all add: running_def state_ok_def\<close>)
qed

text \<open>The loop ends, because every turn leaves less to do.\<close>

lemma drive_loop_returns:
  assumes "serving w a it"
  shows "drive_loop nreqs acs w a = Err OutOfBounds \<or>
    (\<exists>w'. drive_loop nreqs acs w a = Ok (acs, w') \<and> others_kept w a w' \<and> (serving w' a it \<or> world_inv w' \<and> \<not> in_use w' a))"
  using assms
proof (induction "left nreqs w a" arbitrary: nreqs w rule: wf_induct_rule [OF wf_left_order])
  case (1 nreqs w)
  consider (err) "drive_step nreqs acs w a = Err OutOfBounds"
    | (stop) n w' where "drive_step nreqs acs w a = Ok (True, n, acs, w')" "others_kept w a w'"
        "serving w' a it \<or> world_inv w' \<and> \<not> in_use w' a"
    | (more) n w' where "drive_step nreqs acs w a = Ok (False, n, acs, w')" "others_kept w a w'" "serving w' a it"
        "(left n w' a, left nreqs w a) \<in> left_order"
    using serving_step [OF "1.prems", of nreqs acs] unfolding good_step_def by (auto split: if_splits)
  then show ?case
  proof cases
    case err
    then show ?thesis by (subst (1) drive_loop.simps) simp
  next
    case stop
    have "drive_loop nreqs acs w a = Ok (acs, w')" using stop(1) by (subst drive_loop.simps) simp
    then show ?thesis using stop(2,3) by blast
  next
    case more
    have "drive_loop nreqs acs w a = drive_loop n acs w' a" using more(1) by (subst drive_loop.simps) simp
    then show ?thesis using "1.hyps" [OF more(4,3)] others_kept_trans [OF more(2)] by metis
  qed
qed

text \<open>An event: its flags are stored, and the loop runs.\<close>

lemma event_handler_serving:
  assumes s: "serving w a it" and c: "w_conns w a = Some c"
  shows "serving (put_conn a (c\<lparr>c_which := which\<rparr>) w) a it"
    "event_handler acs w a (c_sfd c) which = drive_loop REQ_PER_EVENT acs (put_conn a (c\<lparr>c_which := which\<rparr>) w) a"
proof -
  let ?c = "c\<lparr>c_which := which\<rparr>"
  have r: "running c" "mem_ok (w_env w)" "world_inv w" using serving_ready(2) [OF s c] s by (simp_all add: serving_def)
  have "state_ok ?c = state_ok c" by (cases "c_state c") (simp_all add: state_ok_def)
  then have "running ?c" using r(1) by (simp add: running_def)
  then have "serving (put_conn a ?c (w\<lparr>w_env := w_env w, config := config w\<rparr>)) a it"
    using r by (intro serving_put [OF s c]) simp_all
  then show "serving (put_conn a ?c w) a it" by simp
  show "event_handler acs w a (c_sfd c) which = drive_loop REQ_PER_EVENT acs (put_conn a ?c w) a"
    using c by (simp add: event_handler_def drive_machine_def)
qed

section \<open>Properties\<close>

text \<open>
  C3. An event on a client connection is always handled to its end, whatever the peer has sent, in whatever chunks,
  and however much of the answers its socket accepts: with memory available, \<open>event_handler\<close>
  returns, and afterwards the connection is either closed, or in one of the nine states of a client with
  buffers and output lists as that state needs them. No assertion fails, no null pointer is followed and no other
  connection is touched; the pool, the statistics and the reference counts keep their invariant. The only other
  outcome is an access outside of a buffer, which three inputs provoke: spaces that fill the buffer, a length that
  makes the number of bytes to swallow negative, and a get while the item is shorter than its header says.
\<close>

theorem event_handler_returns:
  assumes "serving w a it" and "w_conns w a = Some c"
  shows "event_handler acs w a (c_sfd c) which = Err OutOfBounds \<or>
    (\<exists>w'. event_handler acs w a (c_sfd c) which = Ok (acs, w') \<and> world_inv w' \<and>
       (\<forall>b. b \<noteq> a \<longrightarrow> w_conns w' b = w_conns w b \<and> in_use w' b = in_use w b) \<and>
       (in_use w' a \<longrightarrow> (\<exists>c'. w_conns w' a = Some c' \<and> running c')))"
proof -
  let ?w = "put_conn a (c\<lparr>c_which := which\<rparr>) w"
  have s: "serving ?w a it" and run: "event_handler acs w a (c_sfd c) which = drive_loop REQ_PER_EVENT acs ?w a"
    using event_handler_serving [OF assms] by simp_all
  have o: "others_kept w a ?w" by simp
  from drive_loop_returns [OF s, of REQ_PER_EVENT acs] show ?thesis
  proof
    assume "\<exists>w'. drive_loop REQ_PER_EVENT acs ?w a = Ok (acs, w') \<and> others_kept ?w a w' \<and>
      (serving w' a it \<or> world_inv w' \<and> \<not> in_use w' a)"
    then obtain w' where w': "drive_loop REQ_PER_EVENT acs ?w a = Ok (acs, w')" "others_kept ?w a w'"
      "serving w' a it \<or> world_inv w' \<and> \<not> in_use w' a" by blast
    have "world_inv w'" "in_use w' a \<longrightarrow> (\<exists>c'. w_conns w' a = Some c' \<and> running c')"
      using w'(3) unfolding serving_def by blast+
    then show ?thesis
      using others_kept_trans [OF o w'(2)] run w'(1)
      by (intro disjI2 exI [of _ w']) (simp only: others_kept_def simp_thms)
  qed (simp only: run simp_thms)
qed

text \<open>A fresh client connection that has just been handed a line, in a world that serves it.\<close>

definition served_conn :: "string \<Rightarrow> conn" where
  "served_conn b = line_conn b\<lparr>c_state := conn_parse_cmd\<rparr>"

definition served_world :: "string \<Rightarrow> world" where
  "served_world b = (line_world b)\<lparr>w_conns := [1 \<mapsto> served_conn b]\<rparr>"

lemma one_client_inv: "stats_inv (s_stats one_client_settings)"
proof -
  let ?s = "s_stats one_client_settings"
  have "bucket_ok ?s k (if k = 5 then [1] else [])" for k
    by (simp add: bucket_ok_def one_client_settings_def plain_settings_def one_client_def id_at_def hash_key_def
        new_stats_def STATS_HASH_MAP_SIZE_def)
  then show ?thesis
    by (auto simp: stats_inv_def one_client_settings_def plain_settings_def new_stats_def STATS_HASH_MAP_SIZE_def)
qed

lemma served_world_ok:
  assumes "b \<noteq> []" and "length b \<le> 1000"
  shows "serving (served_world b) 1 whole_item" "w_conns (served_world b) 1 = Some (served_conn b)"
proof -
  show c: "w_conns (served_world b) 1 = Some (served_conn b)" by (simp add: served_world_def)
  have b: "base (served_conn b)"
    using line_world_ok(2) [OF assms] ready_conn_ok [of b]
    by (simp add: base_def served_conn_def line_conn_def in_ok_def arrays_ok_def wbuf_ok_def items_ok_def
        ready_conn_def zero_conn_def)
  moreover have "0 < rbytes (served_conn b)" using assms by (simp add: served_conn_def line_conn_def ready_conn_def)
  ultimately have run: "running (served_conn b)" by (simp add: running_def state_ok_def served_conn_def)
  have r: "refs (w_conns (served_world b)) k = (if k = 1 then {1} else {})" for k
    by (auto simp: refs_def served_world_def served_conn_def line_conn_def)
  have "refs_inv (w_conns (served_world b)) (st_heap (s_stats one_client_settings))"
    unfolding refs_inv_def r
    by (simp add: served_world_def one_client_settings_def plain_settings_def one_client_def)
  moreover have "conns_inv (w_conns (served_world b)) (w_fresh (served_world b)) (w_free (served_world b))"
    using world0_inv(1) base_conn_ok [OF b]
    by (auto simp: world_inv_def conns_inv_def served_world_def line_world_def world0_def conn_init_def alloc_def free_content_def)
  moreover have "config (served_world b) = one_client_settings" by (simp add: served_world_def line_world_def)
  ultimately have "world_inv (served_world b)" using one_client_inv by (simp add: world_inv_def)
  moreover have "in_use (served_world b) 1"
    by (simp add: in_use_def served_world_def line_world_def world0_def conn_init_def alloc_def free_content_def)
  ultimately show "serving (served_world b) 1 whole_item"
    using run c
    by (simp add: serving_def served_world_def line_world_def world0_def one_client_settings_def plain_settings_def
        whole_item_complete)
qed

theorem event_handler_returns_witness:
  "\<exists>w c. w_conns w 1 = Some c \<and> serving w 1 whole_item \<and>
     (event_handler [] w 1 (c_sfd c) 2 = Err OutOfBounds \<or> (\<exists>w'. event_handler [] w 1 (c_sfd c) 2 = Ok ([], w') \<and> world_inv w'))"
proof -
  have "''get k'' @ CRLF \<noteq> []" "length (''get k'' @ CRLF) \<le> 1000" by simp_all
  note s = served_world_ok [OF this]
  from event_handler_returns [OF s, of "[]" 2] s show ?thesis by blast
qed

text \<open>
  C40. An update command with one of the two largest lengths leaves a negative number of bytes to swallow. With input in
  the buffer, \<open>drive_machine\<close> then moves \<open>rcurr\<close> in front of the buffer; with an empty buffer it passes the negative number
  to \<open>read\<close>, which fails, so that the connection is closed instead of the value being read.
\<close>

theorem dm_read_value_overflows:
  assumes "in_ok c" and "INT_MAX - 2 < v" and "v \<le> INT_MAX" and "sbytes c = i32 (v + 2)"
  shows "dm_read_value e c = (if 0 < rbytes c then Err OutOfBounds else Ok (False, e, c\<lparr>c_state := conn_closing\<rparr>))"
proof -
  have s: "sbytes c = v + 2 - 4294967296" using i32_wrap [of "v + 2"] assms(2-4) by simp
  have i: "rcurr c + rbytes c \<le> INT_MAX" "0 \<le> rbytes c" "0 < rsize c" using assms(1) by (auto simp: in_ok_def)
  have neg: "sbytes c < 0" "sbytes c \<noteq> 0" using s assms(3) by simp_all
  show ?thesis
  proof (cases "0 < rbytes c")
    case True
    then show ?thesis using neg i s assms(3) by (simp add: dm_read_value_def dm_swallow_def Let_def)
  next
    case False
    then show ?thesis using neg i(3) by (simp add: dm_read_value_def dm_swallow_def sys_read_def)
  qed
qed

theorem dm_read_value_overflows_witness:
  "dm_read_value calm_env (ready_conn ''data''\<lparr>sbytes := i32 (2147483647 + 2)\<rparr>) = Err OutOfBounds \<and>
   (\<exists>c. dm_read_value calm_env (ready_conn ''data''\<lparr>sbytes := i32 (2147483647 + 2), rbytes := 0\<rparr>) = Ok (False, calm_env, c) \<and>
     c_state c = conn_closing)"
proof -
  have "in_ok (ready_conn ''data''\<lparr>sbytes := i32 (2147483647 + 2)\<rparr>)" "0 < rbytes (ready_conn ''data'')"
    "in_ok (ready_conn ''data''\<lparr>sbytes := i32 (2147483647 + 2), rbytes := 0\<rparr>)"
    by (simp_all add: in_ok_def ready_conn_def zero_conn_def)
  then show ?thesis
    using dm_read_value_overflows [of "ready_conn ''data''\<lparr>sbytes := i32 (2147483647 + 2)\<rparr>" 2147483647 calm_env]
      dm_read_value_overflows [of "ready_conn ''data''\<lparr>sbytes := i32 (2147483647 + 2), rbytes := 0\<rparr>" 2147483647 calm_env]
    by simp
qed

end
