(* ===== verification/Session.thy ===== *)
theory Session
  imports Serving "HOL-Library.Sublist"
begin

text \<open>
  What a client sees. \<open>serve\<close> is a reference server: a function from the whole input of a client to the whole
  answer, without buffers, chunks, states or events. \<open>promise\<close> relates a connection of the state machine to the
  answer it owes in the end; every turn of the driver keeps it, so what is on the wire is
  always the beginning of what the reference server answers.
\<close>

section \<open>The reference server\<close>

text \<open>It waits for a command, or for the rest of a value.\<close>

datatype phase = Command | Value nat

text \<open>The malformed update commands.\<close>

definition rejected :: "string list \<Rightarrow> bool" where
  "rejected ws \<longleftrightarrow>
     KEY_MAX_LENGTH < length (ws ! 1) \<or> \<not> fst (safe_strtol (ws ! 4)) \<or> snd (safe_strtol (ws ! 4)) < 0"

text \<open>The answer to a line with the words \<open>ws\<close>, and what to expect next.\<close>

definition answer :: "item \<Rightarrow> string list \<Rightarrow> string" where
  "answer it ws =
     (if is_get ws then
        if \<exists>k \<in> set (tl ws). KEY_MAX_LENGTH < length k then bad_line
        else concat (map (\<lambda>_. item_response it) (tl ws)) @ ''END'' @ CRLF
      else if is_update ws then if rejected ws then bad_line else []
      else if is_stats ws then []
      else ''ERROR'' @ CRLF)"

definition next_phase :: "string list \<Rightarrow> phase" where
  "next_phase ws =
     (if \<not> is_get ws \<and> is_update ws \<and> \<not> rejected ws then Value (nat (snd (safe_strtol (ws ! 4)) + 2)) else Command)"

text \<open>The answer to a whole input. A line shortens the input, and a value is followed by a command.\<close>

definition pending_value :: "phase \<Rightarrow> nat" where
  "pending_value p = (if p = Command then 0 else 1)"

function serve :: "item \<Rightarrow> phase \<Rightarrow> string \<Rightarrow> string" where
  "serve it Command s =
     (if LF \<in> set s then
        let l = takeWhile (\<lambda>x. x \<noteq> LF) s; ws = words (cstr (chomp l)) in
        answer it ws @ serve it (next_phase ws) (drop (Suc (length l)) s)
      else [])"
| "serve it (Value n) s =
     (if n \<le> length s then ''STORED'' @ CRLF @ serve it Command (drop n s) else [])"
  by pat_completeness auto

termination
  by (relation "measures [\<lambda>(it, p, s). length s, \<lambda>(it, p, s). pending_value p]")
     (auto simp: pending_value_def intro: diff_less dest: length_pos_if_in_set)

declare serve.simps [simp del]

lemma serve_line:
  "LF \<notin> set l \<Longrightarrow> ws = words (cstr (chomp l)) \<Longrightarrow>
   serve it Command (l @ LF # s) = answer it ws @ serve it (next_phase ws) s"
  using takeWhile_LF [of l s] by (simp add: serve.simps(1) Let_def)

lemma serve_partial: "LF \<notin> set s \<Longrightarrow> serve it Command s = []"
  by (simp add: serve.simps(1))

lemma serve_stored: "serve it (Value 0) s = ''STORED'' @ CRLF @ serve it Command s"
  by (simp add: serve.simps(2))

lemma serve_skip: "length bs \<le> n \<Longrightarrow> serve it (Value n) (bs @ s) = serve it (Value (n - length bs)) s"
  by (auto simp: serve.simps(2))

text \<open>Answers do not depend on later input.\<close>

lemma serve_mono: "prefix (serve it p s) (serve it p (s @ t))"
proof (induction it p s arbitrary: t rule: serve.induct)
  case (1 it s)
  show ?case
  proof (cases "LF \<in> set s")
    case True
    then obtain l r where s: "s = l @ LF # r" "LF \<notin> set l" by (meson split_list_first)
    have "prefix (serve it (next_phase (words (cstr (chomp l)))) r) (serve it (next_phase (words (cstr (chomp l)))) (r @ t))"
      using "1.IH" [OF True refl refl] takeWhile_LF [OF s(2), of r] s by simp
    then show ?thesis using serve_line [OF s(2) refl] by (simp add: s(1))
  qed (simp add: serve_partial)
next
  case (2 it n s)
  then show ?case by (simp add: serve.simps(2))
qed

text \<open>
  Input that the server can take: no piece of it is an update command with one of the two lengths whose count of bytes
  overflows, or a get when the item is shorter than its header says, and there are no 1025 spaces in a row.
\<close>

definition huge :: "string list \<Rightarrow> bool" where
  "huge ws \<longleftrightarrow> is_update ws \<and> INT_MAX - 2 < snd (safe_strtol (ws ! 4))"

definition harmless :: "item \<Rightarrow> string list \<Rightarrow> bool" where
  "harmless it ws \<longleftrightarrow> \<not> huge ws \<and> (is_get ws \<longrightarrow> item_complete it)"

definition tame :: "item \<Rightarrow> string \<Rightarrow> bool" where
  "tame it s \<longleftrightarrow>
     (\<forall>u \<in> set (suffixes s). LF \<in> set u \<longrightarrow> harmless it (words (cstr (chomp (takeWhile (\<lambda>x. x \<noteq> LF) u))))) \<and>
     \<not> sublist (replicate 1025 SP) s"

lemma tame_suffix: "tame it s \<Longrightarrow> suffix u s \<Longrightarrow> tame it u"
  unfolding tame_def by (auto intro: suffix_order.trans sublist_order.order.trans suffix_imp_sublist)

lemma tame_line: "tame it (l @ LF # s) \<Longrightarrow> LF \<notin> set l \<Longrightarrow> harmless it (words (cstr (chomp l)))"
  using takeWhile_LF [of l s] by (auto simp: tame_def dest!: bspec [of _ _ "l @ LF # s"])

section \<open>What a connection owes\<close>

text \<open>
  The bytes still to swallow. The code keeps them in an \<open>int\<close>, where the two largest counts are negative;
  as an unsigned number they are right.
\<close>

definition count :: "int \<Rightarrow> nat" where
  "count n = nat (n mod 4294967296)"

definition count_ok :: "int \<Rightarrow> bool" where
  "count_ok n \<longleftrightarrow> 0 \<le> n \<and> n \<le> INT_MAX \<or> n = INT_MIN \<or> n = INT_MIN + 1"

lemma count_nonneg: "0 \<le> n \<Longrightarrow> n \<le> INT_MAX \<Longrightarrow> count n = nat n"
  by (simp add: count_def)

lemma i32_mod: "i32 x mod 4294967296 = x mod 4294967296"
  unfolding i32_def by (simp add: mod_diff_left_eq)

lemma count_value: "0 \<le> v \<Longrightarrow> v \<le> INT_MAX \<Longrightarrow> count (i32 (v + 2)) = nat (v + 2) \<and> count_ok (i32 (v + 2))"
proof -
  assume v: "0 \<le> v" "v \<le> INT_MAX"
  have "count_ok (i32 (v + 2))"
  proof (cases "v + 2 \<le> INT_MAX")
    case False
    then show ?thesis using v i32_wrap [of "v + 2"] by (simp add: count_ok_def) linarith
  qed (use v in \<open>simp add: count_ok_def\<close>)
  then show ?thesis using v by (simp add: count_def i32_mod)
qed

lemma count_skip:
  assumes "count_ok n" and "0 < k" and "k \<le> count n" and "int k \<le> INT_MAX"
  shows "count_ok (i32 (n - int k))" "count (i32 (n - int k)) = count n - k"
proof -
  have "n = INT_MIN \<Longrightarrow> count n = 2147483648" "n = INT_MIN + 1 \<Longrightarrow> count n = 2147483649" by (simp_all add: count_def)
  then consider "0 \<le> n" "n \<le> INT_MAX" "int k \<le> n" | "n = INT_MIN + 1" "k = 1" | "n < 0" "n - int k < INT_MIN" "INT_MIN \<le> n"
    using assms count_nonneg [of n] unfolding count_ok_def by linarith
  then have "count_ok (i32 (n - int k)) \<and> (n - int k) mod 4294967296 = n mod 4294967296 - int k"
  proof cases
    case 3
    define m where "m = n - int k + 4294967296"
    have m: "0 \<le> m" "m \<le> INT_MAX" using 3 assms(4) by (simp_all add: m_def)
    have "m + 2147483648 = n - int k + 2147483648 + 4294967296" by (simp add: m_def)
    then have "i32 (n - int k) = i32 m" unfolding i32_def by (simp only: mod_add_self2)
    moreover have "(n - int k) mod 4294967296 = m mod 4294967296" by (simp add: m_def)
    moreover have "m mod 4294967296 = m" using m by (intro mod_pos_pos_trivial) simp_all
    moreover have "n mod 4294967296 = (n + 4294967296) mod 4294967296" by simp
    moreover have "(n + 4294967296) mod 4294967296 = n + 4294967296" using 3 by (intro mod_pos_pos_trivial) simp_all
    moreover have "count_ok (i32 m)" using m by (simp add: count_ok_def)
    ultimately show ?thesis by (simp only: m_def simp_thms diff_add_eq)
  qed (simp_all add: count_ok_def)
  then show "count_ok (i32 (n - int k))" "count (i32 (n - int k)) = count n - k"
    by (simp_all add: count_def i32_mod nat_diff_distrib)
qed

text \<open>The answer that a connection has built and not sent yet, and the phase it is in for its client.\<close>

definition idle :: "conn_states set" where
  "idle = {conn_new_cmd, conn_waiting, conn_read, conn_parse_cmd}"

definition owes :: "conn \<Rightarrow> string \<Rightarrow> phase \<Rightarrow> bool" where
  "owes c s p \<longleftrightarrow>
     (if c_state c \<in> idle then s = [] \<and> p = Command
      else if c_state c = conn_read_value then s = [] \<and> p = Value (count (sbytes c)) \<and> count_ok (sbytes c)
      else if c_state c = conn_write \<and> iovused c = 0 then
        s = take (nat (wbytes c)) (wbuf c) \<and> p = Command \<and> after_write c = conn_new_cmd
      else
        (c_state c = conn_mwrite \<or> c_state c = conn_write \<and> after_write c = conn_new_cmd) \<and>
        p = Command \<and> (\<exists>ms. tx_rep c ms \<and> s = out_data ms))"

text \<open>
  \<open>t\<close> is the whole answer to the client: what was sent, what is pending, and what the rest of the input will get.
  A connection that is closing leaves it unfinished.
\<close>

definition promise :: "item \<Rightarrow> env \<Rightarrow> conn \<Rightarrow> string \<Rightarrow> bool" where
  "promise it e c t \<longleftrightarrow>
     (if c_state c = conn_closing then prefix (wire e (c_sfd c)) t
      else \<exists>s p. owes c s p \<and> t = wire e (c_sfd c) @ s @ serve it p (stream e c))"

lemma promise_prefix: "promise it e c t \<Longrightarrow> prefix (wire e (c_sfd c)) t"
  by (auto simp: promise_def split: if_splits)

lemma promise_idle:
  "c_state c \<in> idle \<Longrightarrow> promise it e c t \<longleftrightarrow> t = wire e (c_sfd c) @ serve it Command (stream e c)"
  by (auto simp: promise_def owes_def idle_def)

lemma promise_read_value:
  "c_state c = conn_read_value \<Longrightarrow>
   promise it e c t \<longleftrightarrow> count_ok (sbytes c) \<and> t = wire e (c_sfd c) @ serve it (Value (count (sbytes c))) (stream e c)"
  by (auto simp: promise_def owes_def idle_def)

lemma promise_says:
  assumes "says c line" "base c" "line \<noteq> []"
  shows "promise it e c t \<longleftrightarrow> t = wire e (c_sfd c) @ line @ serve it Command (stream e c)"
proof -
  have "iovused c = 0" using assms(1) out_rep_used [of c "[[]]"] by (auto simp: says_def)
  moreover have "c_state c = conn_write" "after_write c = conn_new_cmd" "take (nat (wbytes c)) (wbuf c) = line"
    using assms(1) by (simp_all add: says_def)
  ultimately show ?thesis by (auto simp: promise_def owes_def idle_def)
qed

lemma promise_sending:
  assumes "c_state c = conn_mwrite \<or> c_state c = conn_write \<and> after_write c = conn_new_cmd \<and> iovused c \<noteq> 0"
    and "tx_rep c ms"
  shows "promise it e c (wire e (c_sfd c) @ out_data ms @ serve it Command (stream e c))"
  using assms by (auto simp: promise_def owes_def idle_def)

text \<open>The count of bytes to swallow did not overflow, and the output under way lies inside its objects.\<close>

definition sendable :: "conn \<Rightarrow> bool" where
  "sendable c \<longleftrightarrow> (\<exists>ms. tx_rep c ms \<and> out_safe ms)"

definition sane :: "conn \<Rightarrow> bool" where
  "sane c \<longleftrightarrow>
     (c_state c = conn_read_value \<longrightarrow> 0 \<le> sbytes c) \<and>
     (c_state c = conn_mwrite \<or> c_state c = conn_write \<and> iovused c \<noteq> 0 \<longrightarrow> sendable c)"

lemma sane_update [simp]: "sane (c\<lparr>ev_flags := fl\<rparr>) = sane c" "sane (c\<lparr>c_which := x\<rparr>) = sane c"
  by (simp_all add: sane_def sendable_def)

lemma sane_idle: "c_state c \<in> idle \<Longrightarrow> sane c"
  by (auto simp: sane_def idle_def)

lemma sane_says: "says c line \<Longrightarrow> sane c"
  using out_rep_used [of c "[[]]"] by (auto simp: says_def sane_def)

lemma transmit_sendable:
  assumes "transmit e c = Ok (r, e', c')" and "sendable c"
  shows "sendable c'"
proof -
  obtain msgs where "tx_rep c msgs" "out_safe msgs" using assms(2) by (auto simp: sendable_def)
  then show ?thesis using transmit_safe [of c msgs e] assms(1) by (auto simp: tx_step_def sendable_def)
qed

text \<open>One step keeps the promises, takes input from the front, and overflows no count.\<close>

definition keeps :: "item \<Rightarrow> env \<Rightarrow> conn \<Rightarrow> env \<Rightarrow> conn \<Rightarrow> bool" where
  "keeps it e c e' c' \<longleftrightarrow>
     (\<forall>t. promise it e c t \<longrightarrow>
        promise it e' c' t \<and> c_sfd c' = c_sfd c \<and> suffix (stream e' c') (stream e c) \<and>
        (tame it (stream e c) \<longrightarrow> sane c \<longrightarrow> sane c'))"

lemma keeps_trans: "keeps it e c e' c' \<Longrightarrow> keeps it e' c' e'' c'' \<Longrightarrow> keeps it e c e'' c''"
  unfolding keeps_def by (metis suffix_order.trans tame_suffix)

lemma keeps_closing:
  assumes "c_state c' = conn_closing" "c_sfd c' = c_sfd c" "wire e' (c_sfd c) = wire e (c_sfd c)"
    "suffix (stream e' c') (stream e c)"
  shows "keeps it e c e' c'"
  using assms promise_prefix [of it e c] by (simp add: keeps_def promise_def [of it e' c'] sane_def)

lemma keeps_idle:
  assumes "c_state c \<in> idle" "c_state c' \<in> idle" "c_sfd c' = c_sfd c" "wire e' (c_sfd c) = wire e (c_sfd c)"
    "stream e' c' = stream e c"
  shows "keeps it e c e' c'"
  using assms sane_idle by (auto simp: keeps_def promise_idle)

section \<open>The states\<close>

lemma dm_await_keeps:
  assumes "dm_await fl e c = Ok (stop, e', c')"
  shows "wire e' = wire e \<and> sock_in e' = sock_in e \<and>
    (if stop then c' = c\<lparr>ev_flags := fl\<rparr>
     else c_state c' = conn_closing \<and> c_sfd c' = c_sfd c \<and> unread c' = unread c)"
proof -
  obtain ok e1 c1 where u: "conn_update_event e c fl = (ok, e1, c1)" by (cases "conn_update_event e c fl") auto
  have e1: "wire e1 = wire e" "sock_in e1 = sock_in e" using u by (auto elim!: conn_update_event_cases)
  note f = transmitted_fields [OF update_event_transmitted [OF u]]
  show ?thesis
  proof (cases ok)
    case True
    then show ?thesis using assms u e1 conn_update_event_ok by (simp add: dm_await_def)
  next
    case False
    then show ?thesis using assms u e1 f by (auto simp: dm_await_def unread_def)
  qed
qed

lemma stream_update [simp]:
  "stream e (c\<lparr>c_state := st\<rparr>) = stream e c" "stream e (c\<lparr>ev_flags := fl\<rparr>) = stream e c"
  "stream e (c\<lparr>mem_blob := b\<rparr>) = stream e c" "stream e (c\<lparr>mem_free_delay := d\<rparr>) = stream e c"
  "stream e (c\<lparr>c_cmd := k\<rparr>) = stream e c" "stream e (c\<lparr>icurr := i\<rparr>) = stream e c" "stream e (c\<lparr>ileft := i\<rparr>) = stream e c"
  "stream e (c\<lparr>c_which := x\<rparr>) = stream e c" "stream e (c\<lparr>sbytes := k\<rparr>) = stream e c"
  by (simp_all add: stream_def unread_def)

lemma stream_cong: "sock_in e' = sock_in e \<Longrightarrow> c_sfd c' = c_sfd c \<Longrightarrow> unread c' = unread c \<Longrightarrow> stream e' c' = stream e c"
  by (simp add: stream_def incoming_def)

text \<open>Waiting for an event from a state, or closing.\<close>

lemma dm_await_idle:
  assumes "dm_await fl e c = Ok (stop, e', c')" "c_state c \<in> idle"
  shows "keeps it e c e' c'"
proof (cases stop)
  case True
  then have "c' = c\<lparr>ev_flags := fl\<rparr>" "wire e' = wire e" "sock_in e' = sock_in e" using dm_await_keeps [OF assms(1)] by simp_all
  then show ?thesis using assms(2) stream_cong [of e' e c' c] by (intro keeps_idle) (simp_all add: unread_def)
next
  case False
  then have a: "c_state c' = conn_closing" "c_sfd c' = c_sfd c" "wire e' = wire e" "sock_in e' = sock_in e" "unread c' = unread c"
    using dm_await_keeps [OF assms(1)] by simp_all
  then show ?thesis using stream_cong [OF a(4,2,5)] by (intro keeps_closing) simp_all
qed

lemma dm_new_cmd_keeps:
  assumes "dm_new_cmd nreqs e c = Ok (stop, n, e', c')" "c_state c = conn_new_cmd"
  shows "keeps it e c e' c'"
proof -
  define d where "d = (if mem_blob c \<noteq> None \<and> mem_free_delay c = 0 then c\<lparr>mem_blob := None\<rparr>
               else if mem_free_delay c > 0 then c\<lparr>mem_free_delay := mem_free_delay c - 1\<rparr> else c)"
  have d: "c_sfd d = c_sfd c" "stream e d = stream e c" "c_state d = conn_new_cmd" using assms(2) by (simp_all add: d_def)
  then have kd: "keeps it e c e d" using assms(2) by (intro keeps_idle) (simp_all add: idle_def)
  define fl where "fl = (if rbytes d > 0 then EV_WRITE_PERSIST else EV_READ_PERSIST)"
  have eq: "dm_new_cmd nreqs e c = (if nreqs - 1 \<ge> 0 then bindR (reset_cmd_handler d) (\<lambda>c. Ok (False, nreqs - 1, e, c))
      else bindR (dm_await fl e d) (\<lambda>(stop, e, c). Ok (stop, nreqs - 1, e, c)))"
    by (simp add: dm_new_cmd_def d_def fl_def Let_def)
  show ?thesis
  proof (cases "nreqs - 1 \<ge> 0")
    case True
    then have "e' = e" "c' = d\<lparr>c_cmd := -1, c_state := (if rbytes d > 0 then conn_parse_cmd else conn_waiting)\<rparr>"
      using assms(1) by (simp_all add: eq reset_cmd_handler_def conn_shrink_def)
    then show ?thesis using assms(2) d by (intro keeps_idle) (simp_all add: idle_def)
  next
    case False
    then have "dm_await fl e d = Ok (stop, e', c')" using assms(1) by (auto simp: eq bindR_eq_Ok)
    then have "keeps it e d e' c'" using d(3) by (intro dm_await_idle) (simp_all add: idle_def)
    then show ?thesis using kd keeps_trans by blast
  qed
qed

lemma dm_waiting_keeps:
  assumes "dm_waiting e c = Ok (stop, e', c')" "c_state c = conn_waiting"
  shows "keeps it e c e' c'"
proof -
  obtain s e1 c1 where a: "dm_await EV_READ_PERSIST e c = Ok (s, e1, c1)"
    using assms(1) by (auto simp: dm_waiting_def bindR_eq_Ok)
  have k: "keeps it e c e1 c1" using assms(2) by (intro dm_await_idle [OF a]) (simp add: idle_def)
  show ?thesis
  proof (cases s)
    case True
    then have "c1 = c\<lparr>ev_flags := EV_READ_PERSIST\<rparr>" "wire e1 = wire e" "sock_in e1 = sock_in e"
      using dm_await_keeps [OF a] by simp_all
    moreover have "e' = e1" "c' = c1\<lparr>c_state := conn_read\<rparr>" using assms(1) a True by (simp_all add: dm_waiting_def)
    ultimately show ?thesis using assms(2) stream_cong [of e' e c' c]
      by (intro keeps_idle) (simp_all add: idle_def unread_def)
  next
    case False
    then show ?thesis using assms(1) a k by (simp add: dm_waiting_def)
  qed
qed

text \<open>With less than a gigabyte of input the read buffer can always grow.\<close>

definition short :: "env \<Rightarrow> conn \<Rightarrow> bool" where
  "short e c \<longleftrightarrow> 2 * int (length (stream e c)) \<le> INT_MAX"

lemma dm_read_keeps:
  assumes "dm_read e c = Ok (stop, e', c')" "c_state c = conn_read" "base c" "mem_ok e" "short e c"
  shows "keeps it e c e' c'"
proof -
  obtain r e1 c1 where r: "read_network e c = Ok (r, e1, c1)" "reads e c e1 c1" "read_post READ_NO_DATA_RECEIVED e c r c1"
    using read_network_ok [of c e] assms(3) by (auto simp: base_def)
  have k: "stream e1 c1 = stream e c" "wire e1 = wire e" "in_ok c1" using r(2) by (simp_all add: reads_def)
  have fd: "c_sfd c1 = c_sfd c" using reads_base [OF r(2) assms(3)] by simp
  have "rbytes c1 \<le> int (length (stream e c))" using unread_length [OF k(3)] arg_cong [OF k(1), of length] k(3) by (simp add: stream_def in_ok_def)
  then have mem: "r \<noteq> READ_MEMORY_ERROR" using r(3) assms(4,5) by (auto simp: read_post_def short_def)
  show ?thesis
  proof (cases r)
    case READ_ERROR
    then show ?thesis using assms(1) r(1) k fd by (intro keeps_closing) (auto simp: dm_read_def)
  qed (use assms(1,2) r(1) k fd mem in \<open>auto simp: dm_read_def idle_def intro!: keeps_idle\<close>)
qed

text \<open>A line: the reference server and the code agree on the answer and on what comes next.\<close>

lemma safe_strtol_range: "snd (safe_strtol s) \<le> INT_MAX"
  using i32_range by (simp add: safe_strtol_def Let_def)

lemma get_reply_promise:
  assumes "get_reply it (length ks) (c\<lparr>msgcurr := 0\<rparr>) [[]] c'"
  shows "item_complete it \<longrightarrow> sane c'"
    "promise it e c' (wire e (c_sfd c') @ (concat (map (\<lambda>_. item_response it) ks) @ ''END'' @ CRLF) @ serve it Command (stream e c'))"
proof -
  obtain ms where ms: "out_rep c' ms" "answers (replicate (length ks) it) [[]] ms" "msgcurr c' = 0" "c_state c' = conn_mwrite"
    using assms by (auto simp: get_reply_def)
  note tx = out_rep_tx [OF ms(1,3)]
  have "out_safe [[]]" "item_complete it \<longrightarrow> list_all item_complete (replicate (length ks) it)"
    by (simp_all add: out_safe_def list_all_iff)
  then have "item_complete it \<longrightarrow> out_safe ms" using ms(2) by (simp add: answers_def)
  then show "item_complete it \<longrightarrow> sane c'" using tx ms(4) by (auto simp: sane_def sendable_def)
  have "map item_response (replicate (length ks) it) = map (\<lambda>_. item_response it) ks" by (simp add: map_replicate_const)
  then have "out_data ms = concat (map (\<lambda>_. item_response it) ks) @ ''END'' @ CRLF"
    using ms(2) unfolding answers_def by (simp only: out_data_def concat.simps list.map append_Nil)
  then show "promise it e c' (wire e (c_sfd c') @ (concat (map (\<lambda>_. item_response it) ks) @ ''END'' @ CRLF) @ serve it Command (stream e c'))"
    using promise_sending [OF _ tx, of it e] ms(4) by simp
qed

lemma executes_promise:
  assumes ex: "executes it ws cfg c cfg' c'" and b: "base c'"
  shows "promise it e c' (wire e (c_sfd c') @ answer it ws @ serve it (next_phase ws) (stream e c'))"
proof -
  have says: "promise it e c' (wire e (c_sfd c') @ line @ serve it Command (stream e c'))" if "says c' line" "line \<noteq> []" for line
    using promise_says [OF that(1) b that(2)] by simp
  consider "\<not> recognised ws" | "is_get ws" "\<exists>k \<in> set (tl ws). KEY_MAX_LENGTH < length k"
    | "is_get ws" "\<not> (\<exists>k \<in> set (tl ws). KEY_MAX_LENGTH < length k)" | "\<not> is_get ws" "is_update ws" "rejected ws"
    | "\<not> is_get ws" "is_update ws" "\<not> rejected ws" | "\<not> is_get ws" "\<not> is_update ws" "is_stats ws"
    by (auto simp: recognised_def)
  then show ?thesis
  proof cases
    case 1
    then have "says c' (''ERROR'' @ CRLF)" using ex by (simp only: executes_def if_False)
    then show ?thesis using says [of "''ERROR'' @ CRLF"] 1 by (simp add: answer_def next_phase_def recognised_def)
  next
    case 2
    then have "says c' bad_line" using ex unfolding executes_def cmd_post_def recognised_def by (simp only: simp_thms if_True)
    then show ?thesis using says [of bad_line] 2 by (simp add: answer_def next_phase_def)
  next
    case 3
    then have "get_reply it (length (tl ws)) (c\<lparr>msgcurr := 0\<rparr>) [[]] c'"
      using ex unfolding executes_def cmd_post_def recognised_def by (simp only: simp_thms if_True if_False)
    from get_reply_promise(2) [OF this, of e] show ?thesis using 3 by (simp add: answer_def next_phase_def)
  next
    case 4
    then have "says c' bad_line"
      using ex unfolding executes_def cmd_post_def recognised_def rejected_def by (simp only: simp_thms if_True if_False)
    then show ?thesis using says [of bad_line] 4 by (simp add: answer_def next_phase_def)
  next
    case 5
    then have r: "c_state c' = conn_read_value" "sbytes c' = i32 (snd (safe_strtol (ws ! 4)) + 2)"
      using ex unfolding executes_def cmd_post_def recognised_def rejected_def by (simp_all only: simp_thms if_True if_False)
    have "count (sbytes c') = nat (snd (safe_strtol (ws ! 4)) + 2)" "count_ok (sbytes c')"
      using count_value [of "snd (safe_strtol (ws ! 4))"] safe_strtol_range 5(3) r(2) by (simp_all add: rejected_def)
    then show ?thesis using 5 r(1) by (simp add: answer_def next_phase_def promise_read_value)
  next
    case 6
    then have "c_state c' = conn_new_cmd"
      using ex unfolding executes_def cmd_post_def recognised_def by (simp only: simp_thms if_True if_False)
    then show ?thesis using 6 by (simp add: answer_def next_phase_def promise_idle idle_def)
  qed
qed

lemma executes_sane:
  assumes ex: "executes it ws cfg c cfg' c'" and h: "harmless it ws"
  shows "sane c'"
proof (cases "recognised ws \<and> is_get ws \<and> \<not> (\<exists>k \<in> set (tl ws). KEY_MAX_LENGTH < length k)")
  case True
  then have "get_reply it (length (tl ws)) (c\<lparr>msgcurr := 0\<rparr>) [[]] c'"
    using ex unfolding executes_def cmd_post_def by (simp only: simp_thms if_True if_False)
  from get_reply_promise(1) [OF this] show ?thesis using True h by (simp add: harmless_def)
next
  case False
  then consider "says c' bad_line" | "says c' (''ERROR'' @ CRLF)" | "c_state c' = conn_new_cmd"
    | "c_state c' = conn_read_value" "is_update ws" "\<not> rejected ws" "sbytes c' = i32 (snd (safe_strtol (ws ! 4)) + 2)"
    using ex unfolding executes_def cmd_post_def rejected_def by metis
  then show ?thesis
  proof cases
    case 4
    then have "0 \<le> snd (safe_strtol (ws ! 4))" "snd (safe_strtol (ws ! 4)) + 2 \<le> INT_MAX"
      using h by (auto simp: rejected_def harmless_def huge_def)
    then show ?thesis using 4 by (simp add: sane_def)
  qed (auto intro: sane_says sane_idle simp: idle_def)
qed

lemma executes_keeps:
  assumes "executes it ws cfg c cfg' c'" "base c'" "ws = words (cstr (chomp l))"
    and "c_state c = conn_parse_cmd" "unread c = l @ LF # rest" "LF \<notin> set l" "unread c' = rest" "c_sfd c' = c_sfd c" "same_net e e'"
  shows "keeps it e c e' c'"
proof -
  have e': "wire e' = wire e" "incoming e' = incoming e" using assms(9) by (simp_all add: same_net_def incoming_def fun_eq_iff)
  have s: "stream e c = l @ LF # stream e' c'" using assms(5,7,8) e' by (simp add: stream_def)
  have "promise it e c t \<longleftrightarrow> t = wire e' (c_sfd c') @ answer it ws @ serve it (next_phase ws) (stream e' c')" for t
    using assms(4,8) e' by (simp add: promise_idle idle_def s serve_line [OF assms(6,3)])
  moreover have "tame it (stream e c) \<longrightarrow> sane c'"
    using executes_sane [OF assms(1)] tame_line assms(3,6) s by auto
  moreover have "suffix (stream e' c') (stream e c)" by (simp add: s suffix_def)
  ultimately show ?thesis using executes_promise [OF assms(1,2), of e'] assms(8) by (simp add: keeps_def)
qed

text \<open>A value: swallowing bytes from the buffer or from the socket is all the same to the client.\<close>

lemma swallow_keeps:
  assumes "c_state c = conn_read_value" "c_state c' = conn_read_value" "c_sfd c' = c_sfd c" "wire e' = wire e"
    and "stream e c = bs @ stream e' c'" "bs \<noteq> []" "int (length bs) \<le> INT_MAX" "sbytes c' = i32 (sbytes c - int (length bs))"
    and "count_ok (sbytes c) \<Longrightarrow> length bs \<le> count (sbytes c)"
  shows "keeps it e c e' c'"
proof -
  have "promise it e' c' t" if "promise it e c t" for t
  proof -
    have ok: "count_ok (sbytes c)" and t: "t = wire e (c_sfd c) @ serve it (Value (count (sbytes c))) (bs @ stream e' c')"
      using that assms(1,5) by (simp_all add: promise_read_value)
    have "0 < length bs" using assms(6) by simp
    note k = count_skip [OF ok this assms(9) [OF ok] assms(7), folded assms(8)]
    show ?thesis using k t assms(2-4) serve_skip [OF assms(9) [OF ok], of it "stream e' c'"] by (simp add: promise_read_value)
  qed
  moreover have "0 \<le> sbytes c'" if "count_ok (sbytes c)" "0 \<le> sbytes c"
    using assms(8) assms(9) [OF that(1)] that count_nonneg [of "sbytes c"] by (auto simp: count_ok_def)
  moreover have "suffix (stream e' c') (stream e c)" by (simp add: assms(5) suffix_def)
  ultimately show ?thesis using assms(1-3) by (simp add: keeps_def sane_def promise_read_value)
qed

lemma swallow_buffer_keeps:
  assumes run: "dm_swallow e c = Ok (stop, e', c')" and st: "c_state c = conn_read_value" and b: "base c"
    and n: "count_ok (sbytes c)" "sbytes c \<noteq> 0" "rbytes c > 0"
  shows "keeps it e c e' c'"
proof -
  define k where "k = (if rbytes c > sbytes c then sbytes c else rbytes c)"
  have i: "int (length (rbuf c)) = rsize c" "0 \<le> rcurr c" "rcurr c + rbytes c \<le> rsize c" "rsize c \<le> INT_MAX"
    using b by (simp_all add: base_def in_ok_def)
  have r: "e' = e" "c' = c\<lparr>sbytes := i32 (sbytes c - k), rcurr := rcurr c + k, rbytes := i32 (rbytes c - k)\<rparr>" "0 \<le> rcurr c + k"
    using run n(2,3) by (auto simp: dm_swallow_def Let_def k_def split: if_splits)
  have "0 < sbytes c"
  proof (rule ccontr)
    assume "\<not> 0 < sbytes c"
    then have "sbytes c \<le> INT_MIN + 1" "k = sbytes c" using n by (auto simp: count_ok_def k_def)
    then show False using r(3) i n(3) by linarith
  qed
  then have k: "0 < k" "k \<le> rbytes c" "k \<le> sbytes c" "sbytes c \<le> INT_MAX" using n by (auto simp: k_def count_ok_def)
  define bs where "bs = take (nat k) (unread c)"
  have len: "length bs = nat k" using k unread_length [of c] b by (simp add: bs_def base_def)
  have u: "unread c' = drop (nat k) (unread c)"
    using k i by (simp add: r(2) unread_def drop_take nat_add_distrib nat_diff_distrib add.commute)
  show ?thesis
  proof (rule swallow_keeps [where bs = bs])
    show "stream e c = bs @ stream e' c'" using u by (simp add: stream_def bs_def r(1,2))
    show "length bs \<le> count (sbytes c)" using len k count_nonneg [of "sbytes c"] by simp
    show "sbytes c' = i32 (sbytes c - int (length bs))" using len k by (simp add: r(2))
    show "bs \<noteq> []" "int (length bs) \<le> INT_MAX" using len k by auto
  qed (simp_all add: r st)
qed

lemma swallow_socket_keeps:
  assumes run: "dm_swallow e c = Ok (stop, e', c')" and st: "c_state c = conn_read_value" and b: "base c"
    and n: "count_ok (sbytes c)" "sbytes c \<noteq> 0" "\<not> rbytes c > 0"
  shows "keeps it e c e' c'"
proof -
  define m where "m = (if rsize c > sbytes c then sbytes c else rsize c)"
  obtain x e1 where rd: "sys_read e (c_sfd c) m = (x, e1)" by fastforce
  have u: "rbytes c = 0" "unread c = []" using n(3) b by (simp_all add: base_def in_ok_def unread_def)
  have rs: "0 < rsize c" "rsize c \<le> INT_MAX" using b by (simp_all add: base_def in_ok_def)
  have w: "wire e1 = wire e" using sys_read_frame [OF rd] by simp
  have s: "stream e c = rd_bytes x @ stream e1 c" using sys_read_stream [OF rd] u(2) by (simp add: stream_def)
  have eq: "dm_swallow e c = (case (x, e1) of
          (Data bs, e) \<Rightarrow>
            if bs = [] then bindR (conn_set_state c conn_closing) (\<lambda>c. Ok (False, e, c))
            else
              bindR (memwrite (rbuf c) 0 bs) (\<lambda>b.
                Ok (False, e, c\<lparr>rbuf := b, sbytes := i32 (sbytes c - int (length bs))\<rparr>))
        | (RdAgain, e) \<Rightarrow> dm_await EV_READ_PERSIST e c
        | (RdErr, e) \<Rightarrow> bindR (conn_set_state c conn_closing) (\<lambda>c. Ok (False, e, c)))"
    using n(2,3) unfolding dm_swallow_def m_def [symmetric] rd by simp
  have close: "keeps it e c e1 (c\<lparr>c_state := conn_closing\<rparr>)" using w s by (intro keeps_closing) (simp_all add: suffix_def)
  show ?thesis
  proof (cases x)
    case (Data bs)
    show ?thesis
    proof (cases "bs = []")
      case False
      then obtain buf where c': "e' = e1" "c' = c\<lparr>rbuf := buf, sbytes := i32 (sbytes c - int (length bs))\<rparr>"
        using run eq Data by (auto simp: bindR_eq_Ok)
      have "int (length bs) \<le> m" using sys_read_length [OF rd [unfolded Data]] .
      moreover from this have "m \<le> int (count (sbytes c))" "m \<le> INT_MAX"
        using n(1) rs count_nonneg [of "sbytes c"] by (auto simp: m_def count_ok_def count_def split: if_splits)
      ultimately have "length bs \<le> count (sbytes c)" "int (length bs) \<le> INT_MAX" by linarith+
      moreover have "stream e' c' = stream e1 c" using u by (simp add: c' stream_def unread_def)
      ultimately show ?thesis using s Data False w st by (intro swallow_keeps [where bs = bs]) (simp_all add: c')
    qed (use run eq Data close in auto)
  next
    case RdAgain
    then have a: "dm_await EV_READ_PERSIST e1 c = Ok (stop, e', c')" using run eq by simp
    note k = dm_await_keeps [OF a]
    have s1: "stream e1 c = stream e c" using s RdAgain by simp
    show ?thesis
    proof (cases stop)
      case True
      then have c': "c' = c\<lparr>ev_flags := EV_READ_PERSIST\<rparr>" using k by simp
      have "stream e' c' = stream e c" using k s1 stream_cong [of e' e1 c' c] by (simp add: c' unread_def)
      then show ?thesis using k w st by (simp add: keeps_def promise_read_value c')
    next
      case False
      then have "stream e' c' = stream e c" using k s1 stream_cong [of e' e1 c' c] by simp
      then show ?thesis using k w False by (intro keeps_closing) simp_all
    qed
  qed (use run eq close in auto)
qed

lemma dm_read_value_keeps:
  assumes run: "dm_read_value e c = Ok (stop, e', c')" and st: "c_state c = conn_read_value" and b: "base c"
    and n: "count_ok (sbytes c)"
  shows "keeps it e c e' c'"
proof (cases "sbytes c = 0")
  case True
  obtain d where d: "error_response e c ''STORED'' = Ok (e, d)" "says d (''STORED'' @ CRLF)" "same_resp c d"
    using error_response_says [of c "''STORED''" e] b by (auto simp: base_def)
  note f = same_resp_fields [OF d(3)]
  have bd: "base d" using b f d(2) out_rep_arrays by (auto simp: base_def in_ok_def items_ok_def says_def)
  have c': "e' = e" "c' = d" using run d(1) True by (simp_all add: dm_read_value_def)
  have "stream e d = stream e c" using f by (intro stream_cong) (simp_all add: unread_def)
  moreover have "count (sbytes c) = 0" using True by (simp add: count_def)
  moreover have "sane d" using sane_says [OF d(2)] .
  ultimately show ?thesis
    using st f(2) promise_says [OF d(2) bd] unfolding c' keeps_def by (simp add: promise_read_value serve_stored)
next
  case False
  then have "dm_swallow e c = Ok (stop, e', c')" using run by (simp add: dm_read_value_def)
  then show ?thesis
    using swallow_buffer_keeps swallow_socket_keeps st b n False by (cases "rbytes c > 0") blast+
qed

text \<open>Sending: bytes move from the pending answer to the wire.\<close>

definition sending :: "conn \<Rightarrow> bool" where
  "sending c \<longleftrightarrow>
     c_state c = conn_mwrite \<and> icurr c + ileft c \<le> length (ilist c) \<or>
     c_state c = conn_write \<and> after_write c = conn_new_cmd \<and> iovused c \<noteq> 0"

lemma dm_mwrite_promise:
  assumes run: "dm_mwrite e c = Ok (stop, e', c')" and sd: "sending c" and tx: "tx_rep c msgs"
  shows "c_sfd c' = c_sfd c \<and> stream e' c' = stream e c \<and> (sendable c \<longrightarrow> sane c') \<and>
    promise it e' c' (wire e (c_sfd c) @ out_data msgs @ serve it Command (stream e c))"
proof -
  obtain r e1 c1 ms where t: "transmit e c = Ok (r, e1, c1)" "tx_step e c msgs r e1 c1 ms"
    using transmit_step [OF tx, of e] run by (auto simp: dm_mwrite_def)
  have fr: "transmitted c c1" "after_send e (c_sfd c) r e1" using transmit_frame [OF t(1)] by simp_all
  note f = transmitted_fields [OF fr(1)]
  have st: "stream e1 c1 = stream e c" using f fr(2) by (intro stream_cong) (simp_all add: after_send_def)
  have law: "wire e1 (c_sfd c) @ out_data ms = wire e (c_sfd c) @ out_data msgs" "tx_rep c1 ms"
    using t(2) by (simp_all add: tx_step_def)
  have sd1: "sending c1" if "c_state c1 = c_state c" using sd that f by (simp add: sending_def)
  show ?thesis
  proof (cases "r = TRANSMIT_COMPLETE")
    case True
    then have s1: "c_state c1 = c_state c" "out_data msgs = []" "e1 = e" using t(2) by (simp_all add: tx_step_def)
    define d where "d = (if c_state c = conn_mwrite \<and> ileft c1 \<noteq> 0 then c1\<lparr>icurr := icurr c1 + ileft c1, ileft := 0\<rparr> else c1)"
    have "release_items (ileft c1) c1 = Ok d" if "c_state c = conn_mwrite"
      using release_items_ok [of c1 "ileft c1"] sd that f by (simp add: d_def sending_def)
    then have "e' = e \<and> c' = d\<lparr>c_state := conn_new_cmd\<rparr>"
      using run t(1) True s1 sd f(9) by (auto simp: dm_mwrite_def sending_def d_def)
    moreover have "c_sfd d = c_sfd c" "stream e d = stream e c" using f(6) st s1(3) by (simp_all add: d_def)
    ultimately show ?thesis using s1 by (simp add: promise_idle idle_def sane_def)
  next
    case False
    then have c': "e' = e1" "c' = c1" using run t(1) by (cases r; simp add: dm_mwrite_def)+
    show ?thesis
    proof (cases "r = TRANSMIT_HARD_ERROR")
      case True
      then have "c_state c1 = conn_closing" using t(2) by (simp add: tx_step_def)
      moreover have "prefix (wire e1 (c_sfd c)) (wire e (c_sfd c) @ out_data msgs @ serve it Command (stream e c))"
        using law(1) by (metis append.assoc prefixI)
      ultimately show ?thesis using st f(6) by (simp add: c' promise_def sane_def)
    next
      case hard: False
      then have "c_state c1 = c_state c" using t(2) False by (cases r) (simp_all add: tx_step_def)
      from sd1 [OF this] have "sendable c \<longrightarrow> sane c1" "promise it e1 c1 (wire e1 (c_sfd c1) @ out_data ms @ serve it Command (stream e1 c1))"
        using transmit_sendable [OF t(1)] by (auto simp: sane_def sending_def intro!: promise_sending law)
      then show ?thesis using law(1) st f(6) by (metis append.assoc c')
    qed
  qed
qed

lemma dm_mwrite_keeps:
  assumes run: "dm_mwrite e c = Ok (stop, e', c')" and r: "running c"
    and st: "c_state c = conn_mwrite \<or> c_state c = conn_write \<and> iovused c \<noteq> 0"
  shows "keeps it e c e' c'"
  unfolding keeps_def
proof (intro allI impI)
  fix t
  assume p: "promise it e c t"
  then have "after_write c = conn_new_cmd" if "c_state c = conn_write"
    using that by (auto simp: promise_def owes_def idle_def split: if_splits)
  then have sd: "sending c" using st r by (auto simp: sending_def running_def state_ok_def)
  have "sane c \<longrightarrow> sendable c" using st by (auto simp: sane_def)
  moreover have "\<exists>ms. tx_rep c ms \<and> t = wire e (c_sfd c) @ out_data ms @ serve it Command (stream e c)"
    using p st by (auto simp: promise_def owes_def idle_def split: if_splits)
  ultimately show "promise it e' c' t \<and> c_sfd c' = c_sfd c \<and> suffix (stream e' c') (stream e c) \<and> (tame it (stream e c) \<longrightarrow> sane c \<longrightarrow> sane c')"
    using dm_mwrite_promise [OF run sd, of _ it] by auto
qed

text \<open>A line in the write buffer becomes a message first.\<close>

lemma dm_write_keeps:
  assumes run: "dm_write e c = Ok (stop, e', c')" and r: "running c" and mem: "mem_ok e" and st: "c_state c = conn_write"
  shows "keeps it e c e' c'"
proof (cases "iovused c = 0")
  case False
  then show ?thesis using run dm_mwrite_keeps [OF _ r] st by (simp add: dm_write_def)
next
  case True
  obtain e1 c1 ms where a: "conn_add_iov e c (wbuf c) (wbytes c) = Ok (True, e1, c1)" "tx_rep c1 ms" "out_safe ms"
    "out_data ms = take (nat (wbytes c)) (wbuf c)" "iovused c1 \<noteq> 0" "same_net e e1" "c_state c1 = conn_write"
    "after_write c1 = after_write c" "unread c1 = unread c" "c_sfd c1 = c_sfd c"
    by (rule line_message [OF r mem st True])
  have net: "wire e1 = wire e" "sock_in e1 = sock_in e" using a(6) by (simp_all add: same_net_def)
  have s1: "stream e1 c1 = stream e c" using stream_cong [OF net(2) a(10,9)] .
  have run1: "dm_mwrite e1 c1 = Ok (stop, e', c')" using run True r st a(1) by (simp add: dm_write_def running_def state_ok_def)
  show ?thesis unfolding keeps_def
  proof (intro allI impI)
    fix t
    assume "promise it e c t"
    then have t: "t = wire e (c_sfd c) @ out_data ms @ serve it Command (stream e c)" "after_write c = conn_new_cmd"
      using st True a(4) by (auto simp: promise_def owes_def idle_def split: if_splits)
    have "sending c1" using a(5,7,8) t(2) by (simp add: sending_def)
    moreover have "sendable c1" using a(2,3) by (auto simp: sendable_def)
    ultimately show "promise it e' c' t \<and> c_sfd c' = c_sfd c \<and> suffix (stream e' c') (stream e c) \<and> (tame it (stream e c) \<longrightarrow> sane c \<longrightarrow> sane c')"
      using dm_mwrite_promise [OF run1 _ a(2), of it] t(1) a(10) s1 net(1) by simp
  qed
qed

section \<open>The driver\<close>

text \<open>
  The state of affairs for the client on descriptor \<open>fd\<close>, served by connection \<open>a\<close>: what it received is the
  beginning of \<open>t\<close>, and while the connection is in use \<open>t\<close> is what it promises. With \<open>b\<close>, its input is tame.
\<close>

definition faithful :: "item \<Rightarrow> int \<Rightarrow> string \<Rightarrow> bool \<Rightarrow> world \<Rightarrow> addr \<Rightarrow> bool" where
  "faithful it fd t b w a \<longleftrightarrow>
     prefix (wire (w_env w) fd) t \<and>
     (in_use w a \<longrightarrow> (\<exists>c. w_conns w a = Some c \<and> c_sfd c = fd \<and> promise it (w_env w) c t \<and> short (w_env w) c \<and>
        (b \<longrightarrow> tame it (stream (w_env w) c) \<and> sane c)))"

lemma keeps_faithful:
  assumes "faithful it fd t b w a" "w_conns w a = Some c" "in_use w a" "keeps it (w_env w) c e c'"
  shows "faithful it fd t b (put_conn a c' (w\<lparr>w_env := e, config := cfg\<rparr>)) a"
proof -
  have c: "c_sfd c = fd" "promise it (w_env w) c t" "short (w_env w) c" "b \<longrightarrow> tame it (stream (w_env w) c) \<and> sane c"
    using assms(1-3) by (simp_all add: faithful_def)
  have p: "promise it e c' t" "c_sfd c' = c_sfd c" "suffix (stream e c') (stream (w_env w) c)"
    "tame it (stream (w_env w) c) \<longrightarrow> sane c \<longrightarrow> sane c'"
    using assms(4) c(2) unfolding keeps_def by blast+
  have "short e c'" using suffix_length_le [OF p(3)] c(3) by (simp add: short_def)
  moreover have "b \<longrightarrow> tame it (stream e c') \<and> sane c'" using c(4) p(3,4) tame_suffix by blast
  ultimately show ?thesis using p(1,2) promise_prefix [OF p(1)] c(1) by (simp add: faithful_def put_conn_def)
qed

lemma on_conn_faithful:
  assumes "faithful it fd t b w a" "w_conns w a = Some c" "in_use w a"
    and "bindR (on_conn f w a) (\<lambda>(stop, w). Ok (stop, nreqs, acs, w)) = Ok (stop, n, acs', w')"
    and "\<And>e c'. f (w_env w) c = Ok (stop, e, c') \<Longrightarrow> keeps it (w_env w) c e c'"
  shows "faithful it fd t b w' a"
proof -
  obtain e c' where f: "f (w_env w) c = Ok (stop, e, c')" "w' = put_conn a c' (w\<lparr>w_env := e\<rparr>)"
    using assms(2,4) by (auto simp: on_conn_def bindR_eq_Ok)
  then show ?thesis using keeps_faithful [OF assms(1-3) assms(5) [OF f(1)], of "config w"] by simp
qed

lemma conn_release_wire: "conn_release a w = Ok w' \<Longrightarrow> wire (w_env w') = wire (w_env w)"
  by (auto simp: conn_release_def conn_add_to_freelist_def conn_free_def alloc_def bindR_eq_Ok Let_def split: if_splits option.splits prod.splits)

lemma conn_close_wire:
  assumes "conn_close a w = Ok w'"
  shows "wire (w_env w') = wire (w_env w)"
  using assms by (auto simp: conn_close_def event_call_def bindR_eq_Ok put_conn_def set_stats_def close_fd_def Let_def
      dest!: conn_release_wire split: option.splits)

lemma parse_cmd_faithful:
  assumes fa: "faithful it fd t b w a" and s: "serving w a it" and c: "w_conns w a = Some c" and st: "c_state c = conn_parse_cmd"
    and run: "dm_parse_cmd w a = Ok w'"
  shows "faithful it fd t b w' a"
proof -
  note r = serving_ready [OF s c]
  have ok: "in_ok c" "0 < rbytes c" "in_use w a"
    using r(2) st s by (simp_all add: running_def base_def state_ok_def serving_def)
  show ?thesis
  proof (cases "LF \<in> set (unread c)")
    case True
    then obtain l rest where u: "unread c = l @ LF # rest" "LF \<notin> set l" by (meson split_list_first)
    obtain e cfg c' where p: "read_command w a = Ok (True, put_conn a c' (w\<lparr>w_env := e, config := cfg\<rparr>))" "same_net (w_env w) e"
      "in_ok c'" "unread c' = rest" "arrays_ok c'" "wbuf_ok c'" "items_ok c'" "c_type c' = c_type c" "c_sfd c' = c_sfd c"
      "c_stats c' = c_stats c" "executes it (words (cstr (chomp l))) (config w) c cfg c'"
      using read_command_line [OF c ok(1) r(1) u] by (elim exE conjE) (rule that)
    have "base c'" using p(3,5-8,10) r(3) by (simp add: base_def)
    from executes_keeps [OF p(11) this refl st u p(4,9,2)] show ?thesis
      using keeps_faithful [OF fa c ok(3), of e c' cfg] run p(1) by (simp add: dm_parse_cmd_def)
  next
    case False
    have "\<exists>q \<in> {conn_waiting, conn_closing}. w' = put_conn a (c\<lparr>c_state := q\<rparr>) w"
      using rc_no_line_cases [of c] run read_command_partial [OF c ok(1,2) False]
      by (elim disjE) (simp_all add: dm_parse_cmd_def put_conn_def)
    then obtain q where q: "q \<in> {conn_waiting, conn_closing}" "w' = put_conn a (c\<lparr>c_state := q\<rparr>) w" by blast
    have "keeps it (w_env w) c (w_env w) (c\<lparr>c_state := q\<rparr>)"
      using q(1) st by (auto simp: idle_def intro: keeps_idle keeps_closing)
    then show ?thesis using keeps_faithful [OF fa c ok(3), of "w_env w" _ "config w"] q(2) by simp
  qed
qed

text \<open>No turn breaks a promise.\<close>

lemma drive_step_faithful:
  assumes fa: "faithful it fd t b w a" and s: "serving w a it" and run: "drive_step nreqs acs w a = Ok (stop, n, acs', w')"
  shows "faithful it fd t b w' a"
proof -
  obtain c where c: "w_conns w a = Some c" and u: "in_use w a" using s by (auto simp: serving_def)
  note r = serving_ready(2) [OF s c] and bs = serving_ready(3) [OF s c]
  have mem: "mem_ok (w_env w)" using s by (simp add: serving_def)
  have p: "promise it (w_env w) c t" "short (w_env w) c" using fa c u by (auto simp: faithful_def)
  note on = on_conn_faithful [OF fa c u, of _ nreqs acs stop n acs' w']
  show ?thesis
  proof (cases "c_state c")
    case conn_new_cmd
    then obtain e c' where d: "dm_new_cmd nreqs (w_env w) c = Ok (stop, n, e, c')" "w' = put_conn a c' (w\<lparr>w_env := e\<rparr>)"
      using run c by (auto simp: drive_step_def bindR_eq_Ok)
    then show ?thesis using keeps_faithful [OF fa c u dm_new_cmd_keeps [OF d(1) conn_new_cmd], of "config w"] by simp
  next
    case conn_waiting
    then show ?thesis using run c by (intro on [of dm_waiting] dm_waiting_keeps) (simp_all add: drive_step_def)
  next
    case conn_read
    then show ?thesis using run c bs mem p(2) by (intro on [of dm_read] dm_read_keeps) (simp_all add: drive_step_def)
  next
    case conn_parse_cmd
    then have "dm_parse_cmd w a = Ok w'" using run c by (auto simp: drive_step_def bindR_eq_Ok)
    then show ?thesis using parse_cmd_faithful [OF fa s c conn_parse_cmd] by simp
  next
    case conn_read_value
    then have "count_ok (sbytes c)" using p(1) by (simp add: promise_read_value)
    then show ?thesis using run c bs conn_read_value
      by (intro on [of dm_read_value] dm_read_value_keeps) (simp_all add: drive_step_def)
  next
    case conn_write
    then show ?thesis using run c r mem by (intro on [of dm_write] dm_write_keeps) (simp_all add: drive_step_def)
  next
    case conn_mwrite
    then show ?thesis using run c r by (intro on [of dm_mwrite] dm_mwrite_keeps) (simp_all add: drive_step_def)
  next
    case conn_closing
    then have cl: "conn_close a w = Ok w'" using run c by (auto simp: drive_step_def bindR_eq_Ok)
    obtain cs where "c_stats c = Some cs" using bs by (auto simp: base_def)
    then have "\<not> in_use w' a" using conn_close_ok [of w a c cs] s c u cl by (auto simp: serving_def in_use_def)
    then show ?thesis using conn_close_wire [OF cl] fa by (simp add: faithful_def)
  qed (use p(1) r in \<open>auto simp: promise_def owes_def idle_def running_def state_ok_def\<close>)
qed

section \<open>No access outside a buffer\<close>

lemma has_prefix_ok: "length lit \<le> length buf \<Longrightarrow> \<exists>b. has_prefix buf lit = Ok b"
  by (induction buf lit rule: has_prefix.induct) auto

lemma rc_no_line_ok:
  assumes "in_ok c" and "\<not> sublist (replicate 1025 SP) (unread c)"
  shows "rc_no_line c \<noteq> Err OutOfBounds"
proof (cases "rbytes c > 1024")
  case True
  define r where "r = drop (nat (rcurr c)) (rbuf c)"
  define k where "k = length (takeWhile (\<lambda>x. x = SP) r)"
  have len: "nat (rbytes c) \<le> length r" "1025 \<le> nat (rbytes c)" using assms(1) True by (auto simp: in_ok_def r_def)
  have "k \<noteq> length r"
  proof
    assume "k = length r"
    then have "takeWhile (\<lambda>x. x = SP) r = r" unfolding k_def by (metis append_take_drop_id takeWhile_eq_take take_all order_refl)
    then have "\<forall>x \<in> set r. x = SP" by (simp only: takeWhile_eq_all_conv)
    then have "unread c = replicate (nat (rbytes c)) SP"
      using len(1) by (intro replicate_eqI) (auto simp: unread_def r_def [symmetric] dest: in_set_takeD)
    moreover have "replicate (nat (rbytes c)) SP = replicate 1025 SP @ replicate (nat (rbytes c) - 1025) SP"
      using len(2) by (metis le_add_diff_inverse replicate_add)
    ultimately show False using assms(2) by (metis prefixI prefix_imp_sublist)
  qed
  moreover have "\<exists>b. has_prefix (drop k r) ''get '' = Ok b" "\<exists>b. has_prefix (drop k r) ''gets '' = Ok b" if "k \<le> 100"
    using that len by (auto intro!: has_prefix_ok)
  moreover define g h where "g = has_prefix (drop k r) ''get ''" and "h = has_prefix (drop k r) ''gets ''"
  ultimately have gh: "k \<noteq> length r" "k \<le> 100 \<Longrightarrow> \<exists>b. g = Ok b" "k \<le> 100 \<Longrightarrow> \<exists>b. h = Ok b" by simp_all
  have "rc_no_line c =
        (if k = length r then Err OutOfBounds
        else if k > 100 then Ok (True, c\<lparr>c_state := conn_closing\<rparr>)
        else bindR g (\<lambda>get. if get then Ok (False, c)
            else bindR h (\<lambda>gets. if gets then Ok (False, c) else Ok (True, c\<lparr>c_state := conn_closing\<rparr>))))"
    using True unfolding rc_no_line_def Let_def r_def k_def g_def h_def
    by (simp only: conn_set_state_proper proper_state_simps bindR_simps if_True)
  then show ?thesis using gh by (cases "k > 100") (auto split: if_splits)
qed (simp add: rc_no_line_def)

lemma dm_swallow_ok:
  assumes b: "base c" and n: "0 \<le> sbytes c"
  shows "dm_swallow e c \<noteq> Err OutOfBounds"
proof -
  have i: "int (length (rbuf c)) = rsize c" "0 \<le> rcurr c" "0 \<le> rbytes c" "rcurr c + rbytes c \<le> rsize c" "rsize c \<le> INT_MAX" "0 < rsize c"
    using b by (simp_all add: base_def in_ok_def)
  consider "sbytes c = 0" | "sbytes c \<noteq> 0" "rbytes c > 0" | "sbytes c \<noteq> 0" "\<not> rbytes c > 0" by blast
  then show ?thesis
  proof cases
    case 2
    then show ?thesis using i n by (auto simp: dm_swallow_def Let_def)
  next
    case 3
    define m where "m = (if rsize c > sbytes c then sbytes c else rsize c)"
    obtain x e1 where rd: "sys_read e (c_sfd c) m = (x, e1)" by fastforce
    have m: "0 \<le> m" "m \<le> rsize c" using n i by (simp_all add: m_def)
    have "length bs \<le> length (rbuf c)" if "x = Data bs" for bs
      using sys_read_length [OF rd [unfolded that]] m i(1) by linarith
    moreover have "dm_await EV_READ_PERSIST e1 c \<noteq> Err OutOfBounds"
      by (cases "conn_update_event e1 c EV_READ_PERSIST") (simp add: dm_await_def)
    ultimately show ?thesis
      using 3 m(1) rd unfolding dm_swallow_def Let_def m_def [symmetric] by (cases x) (auto simp: memwrite_def)
  qed (simp add: dm_swallow_def)
qed

lemma parse_cmd_ok:
  assumes s: "serving w a it" and c: "w_conns w a = Some c" and st: "c_state c = conn_parse_cmd" and t: "tame it (stream (w_env w) c)"
  shows "dm_parse_cmd w a \<noteq> Err OutOfBounds"
proof -
  note r = serving_ready [OF s c]
  have ok: "in_ok c" "0 < rbytes c" using r(2) st by (simp_all add: running_def base_def state_ok_def)
  show ?thesis
  proof (cases "LF \<in> set (unread c)")
    case True
    then obtain l rest where "unread c = l @ LF # rest" "LF \<notin> set l" by (meson split_list_first)
    then obtain w' where "read_command w a = Ok (True, w')" using read_command_line [OF c ok(1) r(1)] by blast
    then show ?thesis by (simp add: dm_parse_cmd_def)
  next
    case False
    have "sublist (unread c) (stream (w_env w) c)" by (simp add: stream_def prefix_imp_sublist)
    then have "\<not> sublist (replicate 1025 SP) (unread c)" using t unfolding tame_def by (metis sublist_order.order.trans)
    then have "rc_no_line c = Ok (False, c) \<or> rc_no_line c = Ok (True, c\<lparr>c_state := conn_closing\<rparr>)"
      using rc_no_line_ok [OF ok(1)] rc_no_line_cases [of c] by blast
    then show ?thesis
      using read_command_partial [OF c ok False] by (elim disjE) (simp_all add: dm_parse_cmd_def put_conn_def)
  qed
qed

lemma on_conn_ok:
  assumes "w_conns w a = Some c" "f (w_env w) c \<noteq> Err OutOfBounds"
  shows "bindR (on_conn f w a) (\<lambda>(stop, w). Ok (stop, nreqs, acs, w)) \<noteq> Err OutOfBounds"
proof -
  consider "f (w_env w) c = None" | y where "f (w_env w) c = Some (Inl y)" | y where "f (w_env w) c = Some (Inr y)"
    by (metis option.exhaust sum.exhaust)
  then show ?thesis using assms by cases (auto simp: on_conn_def bindR_def split: prod.splits)
qed

lemma drive_step_ok:
  assumes s: "serving w a it" and c: "w_conns w a = Some c" and p: "promise it (w_env w) c t"
    and tm: "tame it (stream (w_env w) c)" "sane c"
  shows "drive_step nreqs acs w a \<noteq> Err OutOfBounds"
proof -
  note r = serving_ready(2) [OF s c] and b = serving_ready(3) [OF s c]
  have mem: "mem_ok (w_env w)" using s by (simp add: serving_def)
  note on = on_conn_ok [where w = w and a = a, OF c]
  show ?thesis
  proof (cases "c_state c")
    case conn_new_cmd
    from dm_new_cmd_turn [OF r mem this, of nreqs] show ?thesis using c conn_new_cmd by (auto simp: drive_step_def)
  next
    case conn_waiting
    have "dm_waiting (w_env w) c \<noteq> Err OutOfBounds" using dm_waiting_turn [OF r mem conn_waiting] by auto
    then show ?thesis using on [of dm_waiting nreqs acs] c conn_waiting by (simp add: drive_step_def)
  next
    case conn_read
    have "dm_read (w_env w) c \<noteq> Err OutOfBounds" using dm_read_turn [OF r mem conn_read] by auto
    then show ?thesis using on [of dm_read nreqs acs] c conn_read by (simp add: drive_step_def)
  next
    case conn_parse_cmd
    have "dm_parse_cmd w a \<noteq> Err OutOfBounds" using parse_cmd_ok [OF s c conn_parse_cmd tm(1)] .
    then show ?thesis using c conn_parse_cmd by (auto simp: drive_step_def bindR_def split: option.splits sum.splits)
  next
    case conn_read_value
    have "dm_read_value (w_env w) c \<noteq> Err OutOfBounds"
    proof (cases "sbytes c = 0")
      case True
      then show ?thesis using error_response_turn [OF b mem, of "''STORED''"] conn_read_value by (auto simp: dm_read_value_def)
    next
      case False
      then show ?thesis using dm_swallow_ok [OF b] tm(2) conn_read_value by (simp add: dm_read_value_def sane_def)
    qed
    then show ?thesis using on [of dm_read_value nreqs acs] c conn_read_value by (simp add: drive_step_def)
  next
    case conn_write
    have "dm_write (w_env w) c \<noteq> Err OutOfBounds"
      using dm_write_turn [OF r mem conn_write] tm(2) conn_write by (auto simp: sane_def sendable_def)
    then show ?thesis using on [of dm_write nreqs acs] c conn_write by (simp add: drive_step_def)
  next
    case conn_mwrite
    then obtain ms where "tx_rep c ms" "out_safe ms" "icurr c + ileft c \<le> length (ilist c)"
      using r tm(2) by (auto simp: running_def state_ok_def sane_def sendable_def)
    then have "dm_mwrite (w_env w) c \<noteq> Err OutOfBounds" using dm_mwrite_turn [OF b mem] conn_mwrite by fastforce
    then show ?thesis using on [of dm_mwrite nreqs acs] c conn_mwrite by (simp add: drive_step_def)
  next
    case conn_closing
    obtain cs where "c_stats c = Some cs" using b by (auto simp: base_def)
    then obtain w' where "conn_close a w = Ok w'" using conn_close_ok [of w a c cs] s c by (auto simp: serving_def in_use_def)
    then show ?thesis using c conn_closing by (simp add: drive_step_def)
  qed (use p r in \<open>auto simp: promise_def owes_def idle_def running_def state_ok_def\<close>)
qed

lemma faithful_step_ok:
  assumes "faithful it fd t True w a" and "serving w a it"
  shows "drive_step nreqs acs w a \<noteq> Err OutOfBounds"
proof -
  have "in_use w a" using assms(2) by (simp add: serving_def)
  then obtain c where "w_conns w a = Some c" "promise it (w_env w) c t" "tame it (stream (w_env w) c)" "sane c"
    using assms(1) by (auto simp: faithful_def)
  then show ?thesis by (rule drive_step_ok [OF assms(2)])
qed

lemma drive_loop_ok:
  assumes "serving w a it" and "faithful it fd t True w a"
  shows "drive_loop nreqs acs w a \<noteq> Err OutOfBounds"
  using assms
proof (induction "left nreqs w a" arbitrary: nreqs w rule: wf_induct_rule [OF wf_left_order])
  case (1 nreqs w)
  have "drive_step nreqs acs w a \<noteq> Err OutOfBounds" using faithful_step_ok [OF "1.prems"(2,1)] .
  then obtain stop n w1 where st: "drive_step nreqs acs w a = Ok (stop, n, acs, w1)"
    and good: "\<not> stop \<longrightarrow> serving w1 a it \<and> (left n w1 a, left nreqs w a) \<in> left_order"
    using serving_step [OF "1.prems"(1), of nreqs acs] by (auto simp: good_step_def)
  have fa: "faithful it fd t True w1 a" using drive_step_faithful [OF "1.prems"(2,1) st] .
  show ?case
  proof (cases stop)
    case True
    then show ?thesis using st by (subst drive_loop.simps) simp
  next
    case False
    then show ?thesis using "1.hyps" [of n w1] good st fa by (subst drive_loop.simps) simp
  qed
qed

lemma drive_loop_faithful:
  assumes "drive_loop nreqs acs w a = Ok (acs', w')" and "serving w a it" and "faithful it fd t b w a"
  shows "faithful it fd t b w' a"
  using assms
proof (induction "left nreqs w a" arbitrary: nreqs w rule: wf_induct_rule [OF wf_left_order])
  case (1 nreqs w)
  obtain stop n acs1 w1 where st: "drive_step nreqs acs w a = Ok (stop, n, acs1, w1)"
    using "1.prems"(1) by (subst (asm) drive_loop.simps) (auto split: option.splits sum.splits)
  have fa: "faithful it fd t b w1 a" using drive_step_faithful [OF "1.prems"(3,2) st] .
  have good: "acs1 = acs" "\<not> stop \<longrightarrow> serving w1 a it \<and> (left n w1 a, left nreqs w a) \<in> left_order"
    using serving_step [OF "1.prems"(2), of nreqs acs] st by (auto simp: good_step_def)
  have loop: "(if stop then Ok (acs1, w1) else drive_loop n acs1 w1 a) = Ok (acs', w')"
    using "1.prems"(1) st by (subst (asm) drive_loop.simps) simp
  show ?case
  proof (cases stop)
    case True
    then show ?thesis using loop fa by simp
  next
    case False
    then show ?thesis using "1.hyps" [of n w1] good loop fa by simp
  qed
qed

section \<open>One event\<close>

text \<open>The connection of an event, with the flags of the event stored, promises what it did before.\<close>

lemma promise_which [simp]: "promise it e (c\<lparr>c_which := x\<rparr>) = promise it e c"
  by (simp add: promise_def owes_def fun_eq_iff)

lemma event_faithful:
  assumes "faithful it fd t b w a" and "serving w a it" and c: "w_conns w a = Some c"
  shows "faithful it fd t b (put_conn a (c\<lparr>c_which := which\<rparr>) w) a"
proof -
  have "in_use w a" "keeps it (w_env w) c (w_env w) (c\<lparr>c_which := which\<rparr>)" using assms(2) by (simp_all add: keeps_def serving_def)
  from keeps_faithful [OF assms(1) c this, of "config w"] show ?thesis by simp
qed

lemma event_handler_faithful:
  assumes run: "event_handler acs w a (c_sfd c) which = Ok (acs', w')" and s: "serving w a it" and c: "w_conns w a = Some c"
    and fa: "faithful it fd t b w a"
  shows "faithful it fd t b w' a \<and> (in_use w' a \<longrightarrow> serving w' a it)"
proof -
  let ?w = "put_conn a (c\<lparr>c_which := which\<rparr>) w"
  have s1: "serving ?w a it" and loop: "drive_loop REQ_PER_EVENT acs ?w a = Ok (acs', w')"
    using event_handler_serving [OF s c] run by simp_all
  from drive_loop_returns [OF s1, of REQ_PER_EVENT acs] loop have "in_use w' a \<longrightarrow> serving w' a it" by auto
  then show ?thesis using drive_loop_faithful [OF loop s1 event_faithful [OF fa s c]] by simp
qed

lemma event_handler_ok:
  assumes s: "serving w a it" and c: "w_conns w a = Some c" and fa: "faithful it fd t True w a"
  shows "\<exists>w'. event_handler acs w a (c_sfd c) which = Ok (acs, w') \<and> world_inv w'"
proof -
  let ?w = "put_conn a (c\<lparr>c_which := which\<rparr>) w"
  have s1: "serving ?w a it" and run: "event_handler acs w a (c_sfd c) which = drive_loop REQ_PER_EVENT acs ?w a"
    using event_handler_serving [OF s c] by simp_all
  have "drive_loop REQ_PER_EVENT acs ?w a \<noteq> Err OutOfBounds" by (rule drive_loop_ok [OF s1 event_faithful [OF fa s c]])
  with drive_loop_returns [OF s1, of REQ_PER_EVENT acs] run show ?thesis unfolding serving_def by auto
qed

text \<open>A connection between two commands starts a session faithfully.\<close>

lemma session_start:
  assumes "w_conns w a = Some c" "c_state c \<in> idle" "short (w_env w) c" "b \<longrightarrow> tame it (stream (w_env w) c)"
  shows "faithful it (c_sfd c) (wire (w_env w) (c_sfd c) @ serve it Command (stream (w_env w) c)) b w a"
  using assms sane_idle by (auto simp: faithful_def promise_idle)

end
