(* ===== verification/Clients.thy ===== *)
theory Clients
  imports Session
begin

text \<open>
  All clients together. What the events of one client do is invisible to the others: \<open>elsewhere\<close> is the view
  of the rest, which every operation of the driver respects. So the refinement of the reference server holds
  for every client of the server at once, however their events are interleaved.
\<close>

section \<open>What the other descriptors see\<close>

definition elsewhere :: "int \<Rightarrow> env \<Rightarrow> env \<Rightarrow> bool" where
  "elsewhere fd e e' \<longleftrightarrow> (\<forall>x. x \<noteq> fd \<longrightarrow> wire e' x = wire e x \<and> sock_in e' x = sock_in e x)"

lemma elsewhere_refl [simp]: "elsewhere fd e e"
  by (simp add: elsewhere_def)

lemma elsewhere_trans [trans]: "elsewhere fd e e' \<Longrightarrow> elsewhere fd e' e'' \<Longrightarrow> elsewhere fd e e''"
  by (simp add: elsewhere_def)

lemma same_net_elsewhere: "same_net e e' \<Longrightarrow> elsewhere fd e e'"
  by (simp add: same_net_def elsewhere_def)

lemma dm_await_elsewhere: "dm_await fl e c = Ok (stop, e', c') \<Longrightarrow> elsewhere fd e e'"
  using dm_await_keeps [of fl e c stop e' c'] by (simp add: elsewhere_def)

lemma dm_new_cmd_elsewhere: "dm_new_cmd nreqs e c = Ok (stop, n, e', c') \<Longrightarrow> elsewhere fd e e'"
  by (auto simp: dm_new_cmd_def Let_def bindR_eq_Ok dest: dm_await_elsewhere split: if_splits)

lemma dm_waiting_elsewhere: "dm_waiting e c = Ok (stop, e', c') \<Longrightarrow> elsewhere fd e e'"
  by (auto simp: dm_waiting_def bindR_eq_Ok dest: dm_await_elsewhere split: if_splits)

lemma sys_read_elsewhere: "sys_read e fd n = (x, e') \<Longrightarrow> elsewhere fd e e'"
  using sys_read_frame [of e fd n x e'] sys_read_other [of e fd n x e'] by (simp add: elsewhere_def)

lemma dm_read_elsewhere:
  assumes "dm_read e c = Ok (stop, e', c')" and "base c"
  shows "elsewhere (c_sfd c) e e'"
proof -
  obtain r e1 c1 where r: "read_network e c = Ok (r, e1, c1)" "reads e c e1 c1"
    using read_network_ok [of c e] assms(2) by (auto simp: base_def)
  have "elsewhere (c_sfd c) e e1" using r(2) by (simp add: reads_def elsewhere_def)
  moreover have "e' = e1 \<or> (\<exists>str d. error_response e1 (c1\<lparr>rbytes := 0\<rparr>) str = Ok (e', d))"
    using assms(1) r(1) by (cases r) (auto simp: dm_read_def bindR_eq_Ok)
  ultimately show ?thesis by (auto dest!: error_response_net same_net_elsewhere intro: elsewhere_trans)
qed

lemma dm_swallow_elsewhere:
  assumes "dm_swallow e c = Ok (stop, e', c')"
  shows "elsewhere (c_sfd c) e e'"
proof -
  define m where "m = (if rsize c > sbytes c then sbytes c else rsize c)"
  obtain x e1 where rd: "sys_read e (c_sfd c) m = (x, e1)" by fastforce
  consider "e' = e" | "e' = e1" | "dm_await EV_READ_PERSIST e1 c = Ok (stop, e', c')"
    using assms unfolding dm_swallow_def Let_def m_def [symmetric] rd by (cases x) (auto simp: bindR_eq_Ok split: if_splits)
  then show ?thesis using sys_read_elsewhere [OF rd] by cases (auto dest: dm_await_elsewhere intro: elsewhere_trans)
qed

lemma dm_read_value_elsewhere: "dm_read_value e c = Ok (stop, e', c') \<Longrightarrow> elsewhere (c_sfd c) e e'"
  by (auto simp: dm_read_value_def bindR_eq_Ok dest: dm_swallow_elsewhere dest!: error_response_net same_net_elsewhere split: if_splits)

lemma dm_mwrite_elsewhere:
  assumes "dm_mwrite e c = Ok (stop, e', c')" and "tx_rep c ms"
  shows "elsewhere (c_sfd c) e e'"
proof -
  obtain r e1 c1 ms' where t: "transmit e c = Ok (r, e1, c1)" "tx_step e c ms r e1 c1 ms'"
    using transmit_step [OF assms(2), of e] assms(1) by (auto simp: dm_mwrite_def)
  have "e' = e1" using assms(1) t(1) by (cases r) (auto simp: dm_mwrite_def bindR_eq_Ok split: if_splits)
  then show ?thesis using t(2) transmit_frame [OF t(1)] by (simp add: tx_step_def after_send_def elsewhere_def)
qed

lemma dm_write_elsewhere:
  assumes run: "dm_write e c = Ok (stop, e', c')" and r: "running c" and mem: "mem_ok e" and st: "c_state c = conn_write"
  shows "elsewhere (c_sfd c) e e'"
proof (cases "iovused c = 0")
  case False
  then show ?thesis using run r st dm_mwrite_elsewhere by (auto simp: dm_write_def running_def state_ok_def)
next
  case True
  obtain e1 c1 ms where a: "conn_add_iov e c (wbuf c) (wbytes c) = Ok (True, e1, c1)" "tx_rep c1 ms" "same_net e e1"
    "c_sfd c1 = c_sfd c"
    by (rule line_message [OF r mem st True])
  have "dm_mwrite e1 c1 = Ok (stop, e', c')" using run r st True a(1) by (simp add: dm_write_def running_def state_ok_def)
  then show ?thesis
    using dm_mwrite_elsewhere [OF _ a(2)] a(4) elsewhere_trans [OF same_net_elsewhere [OF a(3)]] by simp
qed

section \<open>What the other clients see\<close>

definition aside :: "int \<Rightarrow> world \<Rightarrow> world \<Rightarrow> bool" where
  "aside fd w w' \<longleftrightarrow>
     elsewhere fd (w_env w) (w_env w') \<and> mem_ok (w_env w') \<and> fixed_item w' = fixed_item w \<and> s_alloc (config w') = s_alloc (config w)"

lemma aside_trans: "aside fd w w' \<Longrightarrow> aside fd w' w'' \<Longrightarrow> aside fd w w''"
  unfolding aside_def by (metis elsewhere_trans)

lemma conn_close_aside:
  assumes "conn_close a w = Ok w'" and "mem_ok (w_env w)"
  shows "elsewhere fd (w_env w) (w_env w') \<and> mem_ok (w_env w')"
proof -
  have rel: "wire (w_env v') = wire (w_env v) \<and> sock_in (w_env v') = sock_in (w_env v) \<and> (mem_ok (w_env v) \<longrightarrow> mem_ok (w_env v'))"
    if "conn_release a v = Ok v'" for v v'
    using that by (auto simp: conn_release_def conn_add_to_freelist_def conn_free_def alloc_def bindR_eq_Ok Let_def
        split: if_splits option.splits prod.splits)
  have ev: "mem_ok (w_env w\<lparr>events := n\<rparr>)" for n using assms(2) by (simp add: mem_ok_def)
  show ?thesis using assms(1) ev
    by (auto simp: conn_close_def event_call_def bindR_eq_Ok put_conn_def set_stats_def close_fd_def Let_def elsewhere_def
        dest!: rel split: option.splits)
qed

lemma on_conn_aside:
  assumes "bindR (on_conn f w a) (\<lambda>(stop, w). Ok (stop, nreqs, acs, w)) = Ok (stop, n, acs', w')" "w_conns w a = Some c"
    and "f (w_env w) c = Err OutOfBounds \<or> (\<exists>stop e c'. f (w_env w) c = Ok (stop, e, c') \<and> turn (w_env w) c stop e c')"
    and "\<And>e c'. f (w_env w) c = Ok (stop, e, c') \<Longrightarrow> elsewhere (c_sfd c) (w_env w) e"
  shows "aside (c_sfd c) w w' \<and> (\<exists>c'. w_conns w' a = Some c' \<and> c_sfd c' = c_sfd c)"
proof -
  obtain e c' where f: "f (w_env w) c = Ok (stop, e, c')" "w' = put_conn a c' (w\<lparr>w_env := e\<rparr>)"
    using assms(1,2) by (auto simp: on_conn_def bindR_eq_Ok)
  then have "turn (w_env w) c stop e c'" using assms(3) by auto
  then show ?thesis using f(2) assms(4) [OF f(1)] by (simp add: aside_def put_conn_def turn_def)
qed

lemma parse_cmd_aside:
  assumes s: "serving w a it" and c: "w_conns w a = Some c" and st: "c_state c = conn_parse_cmd" and run: "dm_parse_cmd w a = Ok w'"
  shows "aside (c_sfd c) w w' \<and> (\<exists>c'. w_conns w' a = Some c' \<and> c_sfd c' = c_sfd c)"
proof -
  note r = serving_ready [OF s c]
  have ok: "in_ok c" "0 < rbytes c" "mem_ok (w_env w)" "world_inv w"
    using r(2) st s by (simp_all add: running_def base_def state_ok_def serving_def)
  show ?thesis
  proof (cases "LF \<in> set (unread c)")
    case True
    then obtain l rest where u: "unread c = l @ LF # rest" "LF \<notin> set l" by (meson split_list_first)
    obtain e cfg c' where p: "read_command w a = Ok (True, put_conn a c' (w\<lparr>w_env := e, config := cfg\<rparr>))" "mem_ok e" "same_net (w_env w) e"
      "c_sfd c' = c_sfd c" "executes it (words (cstr (chomp l))) (config w) c cfg c'"
      using read_command_line [OF c ok(1) r(1) u] by (elim exE conjE) (rule that)
    have "s_alloc cfg = s_alloc (config w)"
      using p(5) counted_world [OF ok(4), of c cfg] by (auto simp: executes_def split: if_splits)
    moreover have "w' = put_conn a c' (w\<lparr>w_env := e, config := cfg\<rparr>)" using run p(1) by (simp add: dm_parse_cmd_def)
    ultimately show ?thesis using p(2,4) same_net_elsewhere [OF p(3)] by (simp add: aside_def put_conn_def)
  next
    case False
    have "\<exists>q. w' = put_conn a (c\<lparr>c_state := q\<rparr>) w"
      using rc_no_line_cases [of c] run read_command_partial [OF c ok(1,2) False]
      by (elim disjE) (auto simp: dm_parse_cmd_def put_conn_def)
    then show ?thesis using ok(3) by (auto simp: aside_def put_conn_def)
  qed
qed

lemma drive_step_aside:
  assumes s: "serving w a it" and c: "w_conns w a = Some c" and run: "drive_step nreqs acs w a = Ok (stop, n, acs', w')"
  shows "aside (c_sfd c) w w' \<and> (\<exists>c'. w_conns w' a = Some c' \<and> c_sfd c' = c_sfd c) \<or>
    aside (c_sfd c) w w' \<and> stop"
proof -
  note r = serving_ready(2) [OF s c] and b = serving_ready(3) [OF s c]
  have mem: "mem_ok (w_env w)" using s by (simp add: serving_def)
  have on: "aside (c_sfd c) w w' \<and> (\<exists>c'. w_conns w' a = Some c' \<and> c_sfd c' = c_sfd c)"
    if "drive_step nreqs acs w a = bindR (on_conn f w a) (\<lambda>(stop, w). Ok (stop, nreqs, acs, w))"
      "f (w_env w) c = Err OutOfBounds \<or> (\<exists>stop e c'. f (w_env w) c = Ok (stop, e, c') \<and> turn (w_env w) c stop e c')"
      "\<And>e c'. f (w_env w) c = Ok (stop, e, c') \<Longrightarrow> elsewhere (c_sfd c) (w_env w) e" for f
    using on_conn_aside [of f w a nreqs acs stop n acs' w' c] c that run by simp
  show ?thesis
  proof (cases "c_state c")
    case conn_new_cmd
    then obtain e c' where d: "dm_new_cmd nreqs (w_env w) c = Ok (stop, n, e, c')" "w' = put_conn a c' (w\<lparr>w_env := e\<rparr>)"
      using run c by (auto simp: drive_step_def bindR_eq_Ok)
    have "mem_ok e" "c_sfd c' = c_sfd c" using dm_new_cmd_turn [OF r mem conn_new_cmd, of nreqs] d(1) by auto
    then show ?thesis using dm_new_cmd_elsewhere [OF d(1)] d(2) by (simp add: aside_def put_conn_def)
  next
    case conn_waiting
    show ?thesis by (rule disjI1, rule on [of dm_waiting])
      (use c conn_waiting dm_waiting_turn [OF r mem conn_waiting] dm_waiting_elsewhere in \<open>auto simp: drive_step_def\<close>)
  next
    case conn_read
    show ?thesis by (rule disjI1, rule on [of dm_read])
      (use c conn_read dm_read_turn [OF r mem conn_read] dm_read_elsewhere [OF _ b] in \<open>auto simp: drive_step_def\<close>)
  next
    case conn_parse_cmd
    then have "dm_parse_cmd w a = Ok w'" using run c by (auto simp: drive_step_def bindR_eq_Ok)
    then show ?thesis using parse_cmd_aside [OF s c conn_parse_cmd] by simp
  next
    case conn_read_value
    show ?thesis by (rule disjI1, rule on [of dm_read_value])
      (use c conn_read_value dm_read_value_turn [OF r mem conn_read_value] dm_read_value_elsewhere in \<open>auto simp: drive_step_def\<close>)
  next
    case conn_swallow
    show ?thesis by (rule disjI1, rule on [of dm_swallow])
      (use c conn_swallow dm_swallow_turn [OF r mem] dm_swallow_elsewhere in \<open>auto simp: drive_step_def\<close>)
  next
    case conn_write
    show ?thesis by (rule disjI1, rule on [of dm_write])
      (use c conn_write dm_write_turn [OF r mem conn_write] dm_write_elsewhere [OF _ r mem] in \<open>auto simp: drive_step_def\<close>)
  next
    case conn_mwrite
    then obtain ms where ms: "tx_rep c ms" "icurr c + ileft c \<le> length (ilist c)"
      using r by (auto simp: running_def state_ok_def)
    then have "dm_mwrite (w_env w) c = Err OutOfBounds \<or>
        (\<exists>stop e' c'. dm_mwrite (w_env w) c = Ok (stop, e', c') \<and> turn (w_env w) c stop e' c')"
      using dm_mwrite_turn [OF b mem] conn_mwrite by blast
    then show ?thesis by - (rule disjI1, rule on [of dm_mwrite],
      use c conn_mwrite dm_mwrite_elsewhere [OF _ ms(1)] in \<open>auto simp: drive_step_def\<close>)
  next
    case conn_closing
    then have cl: "conn_close a w = Ok w'" "stop" using run c by (auto simp: drive_step_def bindR_eq_Ok)
    obtain cs where "c_stats c = Some cs" using b by (auto simp: base_def)
    then have "same_rest w w'" using conn_close_ok [of w a c cs] s c cl by (auto simp: serving_def in_use_def)
    then show ?thesis using same_rest_config conn_close_aside [OF cl(1) mem] cl(2) by (simp add: aside_def)
  qed (use r in \<open>auto simp: running_def state_ok_def\<close>)
qed

lemma drive_loop_aside:
  assumes "drive_loop nreqs acs w a = Ok (acs', w')" and "serving w a it" and "w_conns w a = Some c"
  shows "aside (c_sfd c) w w'"
  using assms
proof (induction "left nreqs w a" arbitrary: nreqs w c rule: wf_induct_rule [OF wf_left_order])
  case (1 nreqs w)
  obtain stop n acs1 w1 where st: "drive_step nreqs acs w a = Ok (stop, n, acs1, w1)"
    using "1.prems"(1) by (subst (asm) drive_loop.simps) (auto split: option.splits sum.splits)
  note as = drive_step_aside [OF "1.prems"(2,3) st]
  have good: "acs1 = acs" "\<not> stop \<longrightarrow> serving w1 a it \<and> (left n w1 a, left nreqs w a) \<in> left_order"
    using serving_step [OF "1.prems"(2), of nreqs acs] st by (auto simp: good_step_def)
  have loop: "(if stop then Ok (acs1, w1) else drive_loop n acs1 w1 a) = Ok (acs', w')"
    using "1.prems"(1) st by (subst (asm) drive_loop.simps) simp
  show ?case
  proof (cases stop)
    case True
    then show ?thesis using loop as by auto
  next
    case False
    then obtain c1 where c1: "w_conns w1 a = Some c1" "c_sfd c1 = c_sfd c" "aside (c_sfd c) w w1" using as by blast
    have "aside (c_sfd c1) w1 w'" using "1.hyps" [of n w1 c1] good loop False c1(1) by simp
    then show ?thesis using aside_trans c1(2,3) by simp
  qed
qed

text \<open>All that an event on one connection is for the rest of the world.\<close>

lemma event_handler_aside:
  assumes run: "event_handler acs w a (c_sfd c) which = Ok (acs', w')" and s: "serving w a it" and c: "w_conns w a = Some c"
  shows "aside (c_sfd c) w w' \<and> others_kept w a w' \<and> world_inv w'"
proof -
  let ?w = "put_conn a (c\<lparr>c_which := which\<rparr>) w"
  have w1: "serving ?w a it" "event_handler acs w a (c_sfd c) which = drive_loop REQ_PER_EVENT acs ?w a"
    using event_handler_serving [OF s c] by simp_all
  have loop: "drive_loop REQ_PER_EVENT acs ?w a = Ok (acs', w')" using run w1(2) by simp
  have "aside (c_sfd c) ?w w'" using drive_loop_aside [OF loop w1(1), of "c\<lparr>c_which := which\<rparr>"] by (simp add: put_conn_def)
  then have "aside (c_sfd c) w w'" by (simp add: aside_def put_conn_def)
  moreover have "others_kept ?w a w'" "world_inv w'"
    using drive_loop_returns [OF w1(1), of REQ_PER_EVENT acs] loop unfolding serving_def by auto
  moreover have "others_kept w a ?w" by simp
  ultimately show ?thesis using others_kept_trans by blast
qed

lemma aside_serving:
  assumes "serving w a it" "aside fd w w'" "others_kept w b w'" "world_inv w'" "a \<noteq> b"
  shows "serving w' a it"
  using assms by (auto simp: serving_def aside_def others_kept_def)

lemma aside_faithful:
  assumes "faithful it fd t x w a" "aside fd' w w'" "others_kept w b w'" "a \<noteq> b" "fd \<noteq> fd'"
  shows "faithful it fd t x w' a"
proof -
  have e: "wire (w_env w') fd = wire (w_env w) fd" "sock_in (w_env w') fd = sock_in (w_env w) fd"
    using assms(2,5) by (simp_all add: aside_def elsewhere_def)
  have eq: "stream (w_env w') c = stream (w_env w) c" "promise it (w_env w') c t = promise it (w_env w) c t"
    "short (w_env w') c = short (w_env w) c" if "c_sfd c = fd" for c
    using e that by (simp_all add: promise_def short_def stream_def incoming_def)
  have "w_conns w' a = w_conns w a" "in_use w' a = in_use w a" using assms(3,4) by (simp_all add: others_kept_def)
  then show ?thesis using assms(1) e(1) eq unfolding faithful_def by metis
qed

section \<open>Sessions\<close>

text \<open>
  \<open>attended B w w'\<close>: from \<open>w\<close> to \<open>w'\<close>, events on the connections in \<open>B\<close> were handled, in any number and any order.
\<close>

inductive attended :: "addr set \<Rightarrow> world \<Rightarrow> world \<Rightarrow> bool" for B w where
  no_event: "attended B w w"
| one_event: "attended B w w1 \<Longrightarrow> b \<in> B \<Longrightarrow> in_use w1 b \<Longrightarrow> w_conns w1 b = Some c \<Longrightarrow>
    event_handler acs w1 b (c_sfd c) which = Ok (acs', w2) \<Longrightarrow> attended B w w2"

text \<open>The sessions of the clients in \<open>B\<close>: each has its own descriptor and is owed its own answer.\<close>

definition sessions :: "item \<Rightarrow> (addr \<Rightarrow> int) \<Rightarrow> (addr \<Rightarrow> string) \<Rightarrow> (addr \<Rightarrow> bool) \<Rightarrow> addr set \<Rightarrow> world \<Rightarrow> bool" where
  "sessions it fd t x B w \<longleftrightarrow>
     inj_on fd B \<and> (\<forall>b \<in> B. faithful it (fd b) (t b) (x b) w b \<and> (in_use w b \<longrightarrow> serving w b it))"

lemma attended_sessions:
  assumes "attended B w w'" and "sessions it fd t x B w"
  shows "sessions it fd t x B w'"
  using assms
proof (induction rule: attended.induct)
  case (one_event w1 b c acs which acs' w2)
  have s: "sessions it fd t x B w1" using one_event.IH one_event.prems .
  then have b: "serving w1 b it" "faithful it (fd b) (t b) (x b) w1 b" using one_event.hyps by (simp_all add: sessions_def)
  have fd: "c_sfd c = fd b" using b(2) one_event.hyps(3,4) by (auto simp: faithful_def)
  note own = event_handler_faithful [OF one_event.hyps(5) b(1) one_event.hyps(4) b(2)]
  note ev = event_handler_aside [OF one_event.hyps(5) b(1) one_event.hyps(4)]
  have "faithful it (fd a) (t a) (x a) w2 a \<and> (in_use w2 a \<longrightarrow> serving w2 a it)" if "a \<in> B" for a
  proof (cases "a = b")
    case True
    then show ?thesis using own by blast
  next
    case False
    have "fd a \<noteq> fd b" using s that one_event.hyps(2) False by (auto simp: sessions_def inj_on_def)
    moreover have "in_use w2 a = in_use w1 a" using ev False by (simp add: others_kept_def)
    moreover have "faithful it (fd a) (t a) (x a) w1 a" "in_use w1 a \<longrightarrow> serving w1 a it" using s that by (simp_all add: sessions_def)
    ultimately show ?thesis using aside_faithful aside_serving ev fd False by metis
  qed
  then show ?case using s by (simp add: sessions_def)
qed simp

text \<open>The clients in \<open>B\<close> are served, between two commands, on descriptors of their own, with less than a gigabyte to come.\<close>

definition ready_clients :: "item \<Rightarrow> addr set \<Rightarrow> world \<Rightarrow> bool" where
  "ready_clients it B w \<longleftrightarrow>
     inj_on (\<lambda>b. c_sfd (the (w_conns w b))) B \<and>
     (\<forall>b \<in> B. serving w b it \<and>
        (\<exists>c. w_conns w b = Some c \<and> c_state c \<in> idle \<and> 2 * int (length (stream (w_env w) c)) \<le> INT_MAX))"

text \<open>What the reference server answers a client, with what it was sent before.\<close>

definition transcript :: "item \<Rightarrow> world \<Rightarrow> addr \<Rightarrow> string" where
  "transcript it w b =
     (let c = the (w_conns w b) in wire (w_env w) (c_sfd c) @ serve it Command (stream (w_env w) c))"

lemma ready_sessions:
  assumes "ready_clients it B w"
  shows "sessions it (\<lambda>b. c_sfd (the (w_conns w b))) (transcript it w) (\<lambda>b. tame it (stream (w_env w) (the (w_conns w b)))) B w"
proof -
  have "faithful it (c_sfd (the (w_conns w b))) (transcript it w b) (tame it (stream (w_env w) (the (w_conns w b)))) w b \<and> serving w b it"
    if "b \<in> B" for b
  proof -
    obtain c where c: "serving w b it" "w_conns w b = Some c" "c_state c \<in> idle" "short (w_env w) c"
      using assms \<open>b \<in> B\<close> by (auto simp: ready_clients_def short_def)
    then show ?thesis using session_start [OF c(2-4), of "tame it (stream (w_env w) c)" it] by (simp add: transcript_def)
  qed
  then show ?thesis using assms by (simp add: sessions_def ready_clients_def)
qed

section \<open>Properties\<close>

text \<open>
  C1. The server is correct on the wire. Let any number of client connections stand between two commands, and let events
  be handled on them, in any number and any order, with any script of what each socket delivers and accepts
  (chunks of any size, \<open>EAGAIN\<close>, errors, end of stream). Then the bytes each client has received are a
  beginning of what the reference server \<open>serve\<close> answers to this client's input alone: to every line the answer of the
  protocol to its words, in order, and \<open>STORED\<close> after the value of an update command. When a connection is between
  two commands again and the rest of its input has no complete line, its client has received the answer as a whole.
\<close>

theorem attended_answers:
  assumes "ready_clients it B w" and "attended B w w'" and "b \<in> B" and "w_conns w b = Some c"
  shows "prefix (wire (w_env w') (c_sfd c)) (wire (w_env w) (c_sfd c) @ serve it Command (stream (w_env w) c)) \<and>
    (\<forall>c'. in_use w' b \<longrightarrow> w_conns w' b = Some c' \<longrightarrow> c_state c' \<in> idle \<longrightarrow> LF \<notin> set (stream (w_env w') c') \<longrightarrow>
       wire (w_env w') (c_sfd c) = wire (w_env w) (c_sfd c) @ serve it Command (stream (w_env w) c))"
proof -
  have t: "transcript it w b = wire (w_env w) (c_sfd c) @ serve it Command (stream (w_env w) c)"
    using assms(4) by (simp add: transcript_def)
  have fa: "faithful it (c_sfd c) (transcript it w b) (tame it (stream (w_env w) c)) w' b"
    using attended_sessions [OF assms(2) ready_sessions [OF assms(1)]] assms(3,4) by (auto simp: sessions_def)
  have "wire (w_env w') (c_sfd c) = transcript it w b"
    if c': "in_use w' b" "w_conns w' b = Some c'" "c_state c' \<in> idle" "LF \<notin> set (stream (w_env w') c')" for c'
  proof -
    have "promise it (w_env w') c' (transcript it w b)" "c_sfd c' = c_sfd c" using fa c'(1,2) by (auto simp: faithful_def)
    then show ?thesis using c'(3,4) by (simp add: promise_idle serve_partial)
  qed
  then show ?thesis using fa unfolding faithful_def t by blast
qed

text \<open>
  C4. The server fails on no input but three kinds. After any number of events of any clients, the next event of a client
  is handled to its end, without an access outside a buffer, a null pointer or a failed assertion, when this client's own
  input has no 1025 spaces in a row, no update command of one of the two largest lengths and, if the item is
  shorter than its header says, as the one that \<open>item_init_system\<close> builds, no get; what the other clients send does
  not matter.
\<close>

theorem attended_never_fails:
  assumes "ready_clients it B w" and "attended B w w1" and "b \<in> B" and "w_conns w b = Some c" and "tame it (stream (w_env w) c)"
    and "in_use w1 b" and "w_conns w1 b = Some c1"
  shows "\<exists>w2. event_handler acs w1 b (c_sfd c1) which = Ok (acs, w2) \<and> world_inv w2"
proof -
  have "faithful it (c_sfd c) (transcript it w b) True w1 b" "serving w1 b it"
    using attended_sessions [OF assms(2) ready_sessions [OF assms(1)]] assms(3-6) by (auto simp: sessions_def)
  then show ?thesis using event_handler_ok assms(7) by blast
qed

text \<open>A session with one get command.\<close>

lemma served_session:
  defines "b \<equiv> ''get k'' @ CRLF"
  shows "serving (served_world b) 1 whole_item" "w_conns (served_world b) 1 = Some (served_conn b)"
    "c_state (served_conn b) \<in> idle" "stream (w_env (served_world b)) (served_conn b) = b" "in_use (served_world b) 1"
    "tame whole_item b" "c_sfd (served_conn b) = 7" "wire (w_env (served_world b)) 7 = []"
proof -
  have b: "b \<noteq> []" "length b \<le> 1000" by (simp_all add: b_def)
  show s: "serving (served_world b) 1 whole_item" "w_conns (served_world b) 1 = Some (served_conn b)"
    using served_world_ok [OF b] .
  show "c_state (served_conn b) \<in> idle" by (simp add: served_conn_def idle_def)
  show "in_use (served_world b) 1" using s(1) by (simp add: serving_def)
  show "c_sfd (served_conn b) = 7" by (simp add: served_conn_def line_conn_def ready_conn_def)
  show "wire (w_env (served_world b)) 7 = []" by (simp add: served_world_def line_world_def world0_def calm_env_def)
  show "stream (w_env (served_world b)) (served_conn b) = b"
    using b by (simp add: stream_def unread_def incoming_def served_conn_def line_conn_def ready_conn_def zero_conn_def
        served_world_def line_world_def world0_def calm_env_def)
  have "\<not> sublist (replicate 1025 SP) b" using b(2) sublist_length_le [of "replicate 1025 SP" b] by auto
  moreover have "harmless whole_item (words (cstr (chomp (takeWhile (\<lambda>x. x \<noteq> LF) u))))" if "u \<in> set (suffixes b)" "LF \<in> set u" for u
    using that whole_item_complete by (auto simp: b_def chomp_def harmless_def huge_def is_update_def words_def)
  ultimately show "tame whole_item b" by (simp add: tame_def)
qed

lemma served_ready:
  "ready_clients whole_item {1} (served_world (''get k'' @ CRLF))"
proof -
  have "2 * int (length (stream (w_env (served_world (''get k'' @ CRLF))) (served_conn (''get k'' @ CRLF)))) \<le> INT_MAX"
    using served_session(4) by simp
  then show ?thesis using served_session(1-3) unfolding ready_clients_def by blast
qed

theorem attended_answers_witness:
  "\<exists>w'. attended {1} (served_world (''get k'' @ CRLF)) w' \<and>
     event_handler [] (served_world (''get k'' @ CRLF)) 1 7 2 = Ok ([], w') \<and>
     prefix (wire (w_env w') 7) (item_response whole_item @ ''END'' @ CRLF)"
proof -
  let ?w = "served_world (''get k'' @ CRLF)" and ?c = "served_conn (''get k'' @ CRLF)"
  note s = served_session
  have "short (w_env ?w) ?c" "tame whole_item (stream (w_env ?w) ?c)" using s(4,6) by (simp_all add: short_def)
  then have "faithful whole_item (c_sfd ?c) (wire (w_env ?w) (c_sfd ?c) @ serve whole_item Command (stream (w_env ?w) ?c)) True ?w 1"
    by (intro session_start [OF s(2,3)] impI)
  then obtain w' where run: "event_handler [] ?w 1 (c_sfd ?c) 2 = Ok ([], w')"
    using event_handler_ok [OF s(1,2)] by blast
  have at: "attended {1} ?w w'" by (rule one_event [OF no_event insertI1 s(5,2) run])
  have "serve whole_item Command (''get k'' @ CRLF) = item_response whole_item @ ''END'' @ CRLF"
    by (simp add: serve.simps chomp_def words_def answer_def next_phase_def is_get_def KEY_MAX_LENGTH_def)
  then have "prefix (wire (w_env w') 7) (item_response whole_item @ ''END'' @ CRLF)"
    using attended_answers [OF served_ready at insertI1 s(2)] s(4,7,8) by (simp only: append_Nil)
  then show ?thesis using at run s(7) by auto
qed

theorem attended_never_fails_witness:
  "\<exists>w2. event_handler [] (served_world (''get k'' @ CRLF)) 1 7 2 = Ok ([], w2) \<and> world_inv w2"
proof -
  note s = served_session
  have "tame whole_item (stream (w_env (served_world (''get k'' @ CRLF))) (served_conn (''get k'' @ CRLF)))" using s(4,6) by simp
  from attended_never_fails [OF served_ready no_event insertI1 s(2) this s(5,2), of "[]" 2] show ?thesis using s(7) by simp
qed

end
