(* ===== verification/Server.thy ===== *)
theory Server
  imports Serving
begin

text \<open>
  The start of the program in \<open>server.c\<close>: \<open>new_socket\<close>, \<open>server_socket\<close> and \<open>main\<close> up to the event loop. The
  system calls on sockets are parameters: for every address that \<open>getaddrinfo\<close> returns, a \<open>socket_result\<close> says how far
  the calls get.
\<close>

section \<open>The operations\<close>

datatype socket_result =
    SocketFails bool      \<comment> \<open>\<open>socket\<close> fails, with EMFILE or not\<close>
  | FcntlFails int bool   \<comment> \<open>\<open>fcntl\<close> fails on this descriptor; whether \<open>errno\<close> is EMFILE then\<close>
  | BindFails int bool    \<comment> \<open>\<open>bind\<close> fails, with EADDRINUSE or not\<close>
  | ListenFails int
  | Listens int

text \<open>Create a new socket set in non-blocking mode: the descriptor or -1, and whether \<open>errno\<close> is EMFILE.\<close>

definition new_socket :: "socket_result \<Rightarrow> world \<Rightarrow> int \<times> bool \<times> world" where
  "new_socket r w =
     (case r of
        SocketFails emfile \<Rightarrow> (-1, emfile, w)
      | FcntlFails sfd emfile \<Rightarrow> (-1, emfile, close_fd sfd w)
      | BindFails sfd _ \<Rightarrow> (sfd, False, w)
      | ListenFails sfd \<Rightarrow> (sfd, False, w)
      | Listens sfd \<Rightarrow> (sfd, False, w))"

definition EX_OSERR :: int where "EX_OSERR = 71"

text \<open>The loop of \<open>server_socket\<close> over the addresses.\<close>

fun listen_all :: "socket_result list \<Rightarrow> nat \<Rightarrow> world \<Rightarrow> (int \<times> world) res" where
  "listen_all [] success w = Ok (if success = 0 then 1 else 0, w)"
| "listen_all (r # rs) success w =
     (case new_socket r w of (sfd, emfile, w) \<Rightarrow>
      if sfd = -1 then (if emfile then Err (Exit EX_OSERR) else listen_all rs success w)
      else
        (case r of
           BindFails _ in_use_err \<Rightarrow>
             if \<not> in_use_err then Ok (1, close_fd sfd w) else listen_all rs success (close_fd sfd w)
         | ListenFails _ \<Rightarrow> Ok (1, close_fd sfd w)
         | _ \<Rightarrow>
             bindR (conn_new w client_conn 0 sfd conn_listening EV_READ_PERSIST 1) (\<lambda>(p, w).
               case p of
                 None \<Rightarrow> Err (Exit 1)
               | Some a \<Rightarrow>
                   with_conn w a (\<lambda>c.
                     listen_all rs (success + 1)
                       (put_conn a (c\<lparr>c_next := listen_conn w\<rparr>) w\<lparr>listen_conn := Some a\<rparr>)))))"

text \<open>Create the listening sockets for a port: zero on success.\<close>

definition server_socket :: "(int \<Rightarrow> socket_result list option) \<Rightarrow> int \<Rightarrow> world \<Rightarrow> (int \<times> world) res" where
  "server_socket lookup_addr port w =
     (case lookup_addr (if port = -1 then 0 else port) of
        None \<Rightarrow> Ok (1, w)
      | Some rs \<Rightarrow> listen_all rs 0 w)"

text \<open>
  Launch the server, up to the event loop: \<open>Inl\<close> is an early return of \<open>main\<close> with that value, \<open>Inr\<close> the state in
  which the event loop starts. The handle that \<open>event_init\<close> returns is not checked.
\<close>

definition main ::
  "bool \<Rightarrow> (string \<Rightarrow> real) \<Rightarrow> (char \<times> string) list \<Rightarrow> (string \<Rightarrow> string \<Rightarrow> net_result) \<Rightarrow>
   (nat \<Rightarrow> (int \<times> int \<times> bool list) option) \<Rightarrow> (int \<Rightarrow> bool) \<Rightarrow> (nat \<Rightarrow> bool \<times> bool) \<Rightarrow> (int \<Rightarrow> socket_result list option) \<Rightarrow> env \<Rightarrow>
   (int + world) res"
where
  "main sigignore_ok atof opts net pipe m create lookup_addr e =
     (if \<not> sigignore_ok then Err (Exit EX_OSERR)
      else
        bindR (settings_init e) (\<lambda>(s, e).
        bindR (settings_parse atof e opts s) (\<lambda>(ok, e, s).
        if \<not> ok then Ok (Inl 1)
        else
          case alloc e of (_, e) \<Rightarrow>
          case conn_init e of (f, e) \<Rightarrow>
          bindR (item_init_system e) (\<lambda>(it, e).
          let w = \<lparr>w_env = e, config = s, fixed_item = Some it, w_conns = (\<lambda>_. None), w_fresh = 1, w_free = f,
                   listen_conn = None, w_closed = [], w_threads = [], last_thread = -1, w_qheap = (\<lambda>_. None), w_qfresh = 1,
                   init_count = 0, current_cpu = -1\<rparr> in
          bindR (thread_init net pipe m create (threads (config w)) w) (\<lambda>w.
          bindR (if users (config w) > 0 then
                   bindR (stat_test_data (nat (users (config w))) (w_env w) (w_stats w)) (\<lambda>(e, st).
                     Ok (set_stats st (w\<lparr>w_env := e\<rparr>)))
                 else Ok w) (\<lambda>w.
          bindR (server_socket lookup_addr (tcpport (config w)) w) (\<lambda>(r, w).
            if r \<noteq> 0 then Err (Exit EX_OSERR) else Ok (Inr w))))))))"

section \<open>Room in the reference counts\<close>

text \<open>Every reference count can go up by \<open>k\<close>.\<close>

definition room :: "nat \<Rightarrow> statistics \<Rightarrow> bool" where
  "room k s \<longleftrightarrow> (\<forall>a n. st_heap s a = Some n \<longrightarrow> unat (cs_refcnt n) + k < 65536)"

lemma roomD: "room (Suc k) s \<Longrightarrow> \<forall>a n. st_heap s a = Some n \<longrightarrow> unat (cs_refcnt n) < 65535"
  by (fastforce simp: room_def)

lemma room_mono: "room k s \<Longrightarrow> j \<le> k \<Longrightarrow> room j s"
  by (fastforce simp: room_def)

lemma get_client_stats_room:
  assumes "get_client_stats e s i = Ok (a, e', s')" and "room (Suc k) s" and "k < 65530"
  shows "room k s'"
proof -
  have "\<exists>n'. st_heap s' = (st_heap s)(a \<mapsto> n') \<and> (cs_refcnt n' = 2 \<or> (\<exists>n. st_heap s a = Some n \<and> cs_refcnt n' = refcount_incr (cs_refcnt n)))"
  proof -
    obtain p where p: "find_cs (st_heap s) (st_map s (hash_key s i)) i = Ok p" "in_map s i"
      using assms(1) by (auto simp: get_client_stats_def split: if_splits)
    then show ?thesis
      using assms(1) by (cases p) (auto simp: get_client_stats_def alloc_def Let_def split: if_splits option.splits)
  qed
  then obtain n' where n': "st_heap s' = (st_heap s)(a \<mapsto> n')"
    "cs_refcnt n' = 2 \<or> (\<exists>n. st_heap s a = Some n \<and> cs_refcnt n' = refcount_incr (cs_refcnt n))" by blast
  have "unat (cs_refcnt n') + k < 65536"
  proof (cases "cs_refcnt n' = 2")
    case True
    then show ?thesis using assms(3) by simp
  next
    case False
    then obtain n where n: "st_heap s a = Some n" "cs_refcnt n' = refcount_incr (cs_refcnt n)" using n'(2) by blast
    then have "unat (cs_refcnt n) + Suc k < 65536" using assms(2) by (simp add: room_def)
    then show ?thesis using n(2) unat_incr [of "cs_refcnt n"] by simp
  qed
  then show ?thesis using assms(2) n'(1) by (fastforce simp: room_def)
qed

text \<open>What libevent and \<open>rand\<close> answer is fixed in advance.\<close>

definition same_oracle :: "env \<Rightarrow> env \<Rightarrow> bool" where
  "same_oracle e e' \<longleftrightarrow> event_ok e' = event_ok e \<and> rands e' = rands e"

lemma get_client_stats_oracle: "get_client_stats e s i = Ok (a, e', s') \<Longrightarrow> same_oracle e e'"
proof -
  assume g: "get_client_stats e s i = Ok (a, e', s')"
  obtain p where p: "find_cs (st_heap s) (st_map s (hash_key s i)) i = Ok p" "in_map s i"
    using g by (auto simp: get_client_stats_def split: if_splits)
  then show "same_oracle e e'"
    using g by (cases p) (auto simp: same_oracle_def get_client_stats_def alloc_def Let_def split: if_splits option.splits)
qed

lemma conn_add_to_freelist_oracle: "conn_add_to_freelist e f a = Ok (ok, e', f') \<Longrightarrow> same_oracle e e'"
  by (auto simp: same_oracle_def conn_add_to_freelist_def alloc_def split: if_splits)

lemma conn_new_room:
  assumes "conn_new w ty i fd st fl rb = Ok (p, w')" and "room (Suc k) (w_stats w)" and "k < 65530"
  shows "room k (w_stats w')" "same_oracle (w_env w) (w_env w')"
proof -
  obtain q f where q: "conn_from_freelist (w_free w) = Ok (q, f)"
    using assms(1) by (auto simp: conn_new_def)
  obtain r w1 where r: "(case q of None \<Rightarrow> conn_alloc (w\<lparr>w_free := f\<rparr>) rb | Some a \<Rightarrow> (Some a, w\<lparr>w_free := f\<rparr>)) = (r, w1)"
    by fastforce
  then have w1: "w_stats w1 = w_stats w" "same_oracle (w_env w) (w_env w1)"
    by (auto simp: same_oracle_def conn_alloc_def alloc_def Let_def conn_free_def put_conn_def split: option.splits if_splits)
  have "room k (w_stats w') \<and> same_oracle (w_env w) (w_env w')"
  proof (cases r)
    case None
    then show ?thesis using assms q r w1 room_mono [OF assms(2), of k] by (simp add: conn_new_def)
  next
    case (Some a)
    obtain c cs e s s' where g: "w_conns w1 a = Some c" "get_client_stats (w_env w1) (w_stats w1) i = Ok (cs, e, s)"
      "count_connection cs s = Ok s'"
      using assms(1) q r Some by (auto simp: conn_new_def bindR_eq_Ok split: option.splits)
    have "room k s" using get_client_stats_room [OF g(2)] w1 assms(2,3) by simp
    moreover obtain n n' where "st_heap s cs = Some n" "st_heap s' = (st_heap s)(cs \<mapsto> n')" "cs_refcnt n' = cs_refcnt n"
      using g(3) by (auto simp: count_connection_def split: option.splits)
    ultimately have "room k s'" by (auto simp: room_def)
    moreover have "w_stats w' = s' \<and> same_oracle e (w_env w')"
    proof -
      define w2 where "w2 = put_conn a ((conn_reset ty i fd st c)\<lparr>c_stats := Some cs, ev_flags := fl\<rparr>)
          (set_stats s' (w1\<lparr>w_env := snd (event_call e)\<rparr>))"
      have eq: "conn_new w ty i fd st fl rb = (if event_ok e (events e) then Ok (Some a, w2)
          else bindR (conn_release a w2) (\<lambda>w. Ok (None, w)))"
        using q r Some g by (simp add: conn_new_def event_call_def Let_def w2_def)
      have "w' = w2 \<or> conn_release a w2 = Ok w'" using assms(1) unfolding eq by (auto simp: bindR_eq_Ok split: if_splits)
      moreover have "w_stats w2 = s'" "same_oracle e (w_env w2)"
        by (simp_all add: same_oracle_def w2_def put_conn_def set_stats_def)
      ultimately show ?thesis
        by (auto simp: same_oracle_def conn_release_def conn_free_def Let_def bindR_eq_Ok
            dest!: conn_add_to_freelist_oracle)
    qed
    moreover have "same_oracle (w_env w1) e" using get_client_stats_oracle [OF g(2)] .
    ultimately show ?thesis using w1(2) by (simp add: same_oracle_def)
  qed
  then show "room k (w_stats w')" "same_oracle (w_env w) (w_env w')" by simp_all
qed

section \<open>Listening\<close>

text \<open>The list of listening connections through \<open>next\<close>.\<close>

fun listeners :: "world \<Rightarrow> addr option \<Rightarrow> int list \<Rightarrow> bool" where
  "listeners w p [] \<longleftrightarrow> p = None"
| "listeners w p (fd # fds) \<longleftrightarrow>
     (\<exists>a c. p = Some a \<and> in_use w a \<and> w_conns w a = Some c \<and> c_state c = conn_listening \<and> c_sfd c = fd \<and>
        listeners w (c_next c) fds)"

fun listening :: "socket_result list \<Rightarrow> int list" where
  "listening [] = []"
| "listening (Listens fd # rs) = fd # listening rs"
| "listening (_ # rs) = listening rs"

text \<open>Addresses on which nothing fails that ends the start.\<close>

fun tolerable :: "socket_result \<Rightarrow> bool" where
  "tolerable (SocketFails emfile) = (\<not> emfile)"
| "tolerable (FcntlFails fd emfile) = (\<not> emfile)"
| "tolerable (BindFails fd in_use_err) = (in_use_err \<and> fd \<noteq> -1)"
| "tolerable (ListenFails fd) = False"
| "tolerable (Listens fd) = (fd \<noteq> -1)"

lemma listeners_frame:
  assumes "listeners w p fds" and "\<And>b. in_use w b \<Longrightarrow> in_use w' b \<and> w_conns w' b = w_conns w b"
  shows "listeners w' p fds"
  using assms(1)
proof (induction fds arbitrary: p)
  case (Cons fd fds)
  then show ?case using assms(2) by fastforce
qed simp

definition starting :: "nat \<Rightarrow> world \<Rightarrow> bool" where
  "starting k w \<longleftrightarrow> world_inv w \<and> mem_ok (w_env w) \<and> room k (w_stats w) \<and>
     (\<forall>j. event_ok (w_env w) j) \<and> (\<forall>j. 0 \<le> rands (w_env w) j)"

lemma starting_conn_new:
  assumes st: "starting (Suc k) w" and k: "k < 65530" and rb: "0 < rb \<and> rb \<le> INT_MAX" and i: "0 \<le> i"
  shows "\<exists>a w' c. conn_new w ty i fd q fl rb = Ok (Some a, w') \<and> starting k w' \<and> same_rest w w' \<and>
    w_conns w' a = Some c \<and> new_conn_state ty i fd q fl c \<and> in_use w' a \<and> \<not> in_use w a \<and>
    (\<forall>b. b \<noteq> a \<longrightarrow> in_use w' b = in_use w b \<and> w_conns w' b = w_conns w b)"
proof -
  have s: "world_inv w" "mem_ok (w_env w)" "room (Suc k) (w_stats w)" "\<And>j. event_ok (w_env w) j" "\<And>j. 0 \<le> rands (w_env w) j"
    using st by (simp_all add: starting_def)
  obtain p w' where n: "conn_new w ty i fd q fl rb = Ok (p, w')" "world_inv w'" "mem_ok (w_env w')" "same_rest w w'"
    "case p of
       Some a \<Rightarrow> (\<exists>c. w_conns w' a = Some c \<and> new_conn_state ty i fd q fl c \<and> c_stats c \<noteq> None) \<and>
         in_use w' a \<and> \<not> in_use w a \<and> (\<forall>b. b \<noteq> a \<longrightarrow> in_use w' b = in_use w b \<and> w_conns w' b = w_conns w b)
     | None \<Rightarrow> \<not> event_ok (w_env w) (events (w_env w)) \<and>
         (\<forall>b. in_use w' b = in_use w b \<and> (in_use w b \<longrightarrow> w_conns w' b = w_conns w b))"
    using conn_new_ok [OF s(1,2) rb i roomD [OF s(3)], of ty fd q fl] by (elim exE conjE) (rule that)
  obtain a where a: "p = Some a" using n(5) s(4) by (cases p) auto
  have "starting k w'" using n(2,3) conn_new_room [OF n(1) s(3) k] s(4,5) by (simp add: starting_def same_oracle_def)
  then show ?thesis using n(1,4,5) a by auto
qed

lemma starting_close [simp]: "starting k (close_fd fd w) = starting k w"
  by (simp add: starting_def close_fd_def world_inv_def)

lemma starting_mono: "starting k w \<Longrightarrow> j \<le> k \<Longrightarrow> starting j w"
  by (auto simp: starting_def intro: room_mono)

lemma listeners_close [simp]: "listeners (close_fd fd w) p fds = listeners w p fds"
  by (induction fds arbitrary: p) (auto simp: close_fd_def in_use_def)

text \<open>A new listening connection in front of the list.\<close>

lemma listen_one:
  assumes st: "starting (Suc k) w" and k: "k < 65530" and l: "listeners w (listen_conn w) fds"
  obtains a c w1 where "conn_new w client_conn 0 fd conn_listening EV_READ_PERSIST 1 = Ok (Some a, w1)" "w_conns w1 a = Some c"
    "starting k (put_conn a (c\<lparr>c_next := listen_conn w1\<rparr>) w1\<lparr>listen_conn := Some a\<rparr>)"
    "listeners (put_conn a (c\<lparr>c_next := listen_conn w1\<rparr>) w1\<lparr>listen_conn := Some a\<rparr>) (Some a) (fd # fds)"
proof -
  obtain a w1 c where n: "conn_new w client_conn 0 fd conn_listening EV_READ_PERSIST 1 = Ok (Some a, w1)" "starting k w1"
    "same_rest w w1" "w_conns w1 a = Some c" "new_conn_state client_conn 0 fd conn_listening EV_READ_PERSIST c" "in_use w1 a"
    "\<not> in_use w a" "\<forall>b. b \<noteq> a \<longrightarrow> in_use w1 b = in_use w b \<and> w_conns w1 b = w_conns w b"
    using starting_conn_new [OF st k, of 1 0 client_conn fd conn_listening EV_READ_PERSIST] by auto
  let ?c = "c\<lparr>c_next := listen_conn w1\<rparr>"
  let ?w = "put_conn a ?c w1\<lparr>listen_conn := Some a\<rparr>"
  have inv: "world_inv w1" using n(2) by (simp add: starting_def)
  then have "conn_ok c" using n(4) by (auto simp: world_inv_def conns_inv_def)
  then have "conn_ok ?c" by (simp add: conn_ok_def arrays_ok_def wbuf_ok_def items_ok_def)
  then have "world_inv (put_conn a ?c w1)" by (intro world_inv_put [OF inv n(4)]) simp_all
  then have s: "starting k ?w" using n(2) by (simp add: starting_def world_inv_def put_conn_def)
  have "listeners ?w (listen_conn w) fds"
    by (rule listeners_frame [OF l]) (use n(7,8) in \<open>auto simp: in_use_def put_conn_def\<close>)
  moreover have "listen_conn w1 = listen_conn w" using n(3) by (simp add: same_rest_def)
  ultimately have "listeners ?w (Some a) (fd # fds)"
    using n(5,6) by (auto simp: put_conn_def in_use_def new_conn_state_def)
  with n(1,4) s show ?thesis by (rule that)
qed

lemma listen_all_ok:
  assumes "starting (length rs) w" and "length rs < 65530" and "list_all tolerable rs" and "listeners w (listen_conn w) fds"
  shows "\<exists>w'. listen_all rs success w = Ok (if success + length (listening rs) = 0 then 1 else 0, w') \<and> starting 0 w' \<and>
    listeners w' (listen_conn w') (rev (listening rs) @ fds)"
  using assms
proof (induction rs arbitrary: success w fds)
  case (Cons r rs)
  have st: "starting (length rs) w" using starting_mono [OF Cons.prems(1)] by simp
  show ?case
  proof (cases r)
    case (Listens fd)
    have p: "starting (Suc (length rs)) w" "length rs < 65530" using Cons.prems(1,2) by simp_all
    obtain a c w1 where l: "conn_new w client_conn 0 fd conn_listening EV_READ_PERSIST 1 = Ok (Some a, w1)" "w_conns w1 a = Some c"
      "starting (length rs) (put_conn a (c\<lparr>c_next := listen_conn w1\<rparr>) w1\<lparr>listen_conn := Some a\<rparr>)"
      "listeners (put_conn a (c\<lparr>c_next := listen_conn w1\<rparr>) w1\<lparr>listen_conn := Some a\<rparr>) (Some a) (fd # fds)"
      using listen_one [OF p Cons.prems(4)] .
    show ?thesis
      using Cons.IH [OF l(3), of "fd # fds" "success + 1"] Cons.prems(2,3) l Listens by (simp add: new_socket_def)
  next
    case (BindFails fd b)
    have "starting (length rs) (close_fd fd w)" "listeners (close_fd fd w) (listen_conn (close_fd fd w)) fds"
      using st Cons.prems(4) by (simp_all add: close_fd_def [of fd w, THEN arg_cong, of listen_conn])
    then show ?thesis
      using Cons.IH [of "close_fd fd w" fds success] Cons.prems(2,3) BindFails by (simp add: new_socket_def)
  next
    case (FcntlFails fd b)
    have "starting (length rs) (close_fd fd w)" "listeners (close_fd fd w) (listen_conn (close_fd fd w)) fds"
      using st Cons.prems(4) by (simp_all add: close_fd_def [of fd w, THEN arg_cong, of listen_conn])
    then show ?thesis
      using Cons.IH [of "close_fd fd w" fds success] Cons.prems(2,3) FcntlFails by (simp add: new_socket_def)
  qed (use Cons.IH [OF st, of fds success] Cons.prems in \<open>simp_all add: new_socket_def\<close>)
qed simp

section \<open>Properties\<close>



end
