(* ===== verification/Arrivals.thy ===== *)
theory Arrivals
  imports Clients Server
begin

text \<open>
  A new client among others: the worker that takes its descriptor off the queue opens a connection on which the client is
  served as the reference server would, and does not disturb the clients that are served already.
\<close>

section \<open>Opening a connection sends and receives nothing\<close>

definition same_wires :: "env \<Rightarrow> env \<Rightarrow> bool" where
  "same_wires e e' \<longleftrightarrow> wire e' = wire e \<and> sock_in e' = sock_in e"

lemma get_client_stats_wires: "get_client_stats e s i = Ok (a, e', s') \<Longrightarrow> same_wires e e'"
proof -
  assume g: "get_client_stats e s i = Ok (a, e', s')"
  obtain p where p: "find_cs (st_heap s) (st_map s (hash_key s i)) i = Ok p" "in_map s i"
    using g by (auto simp: get_client_stats_def split: if_splits)
  then show "same_wires e e'"
    using g by (cases p) (auto simp: same_wires_def get_client_stats_def alloc_def Let_def split: if_splits option.splits)
qed

lemma conn_release_wires: "conn_release a w = Ok w' \<Longrightarrow> same_wires (w_env w) (w_env w')"
  by (auto simp: same_wires_def conn_release_def conn_add_to_freelist_def conn_free_def alloc_def bindR_eq_Ok Let_def
      split: if_splits option.splits prod.splits)

lemma conn_new_wires:
  assumes "conn_new w ty i fd st fl rb = Ok (p, w')"
  shows "same_wires (w_env w) (w_env w')"
proof -
  obtain q f where q: "conn_from_freelist (w_free w) = Ok (q, f)"
    using assms(1) by (auto simp: conn_new_def)
  obtain r w1 where r: "(case q of None \<Rightarrow> conn_alloc (w\<lparr>w_free := f\<rparr>) rb | Some a \<Rightarrow> (Some a, w\<lparr>w_free := f\<rparr>)) = (r, w1)"
    by fastforce
  then have w1: "same_wires (w_env w) (w_env w1)"
    by (auto simp: same_wires_def conn_alloc_def alloc_def Let_def conn_free_def put_conn_def split: option.splits if_splits)
  show ?thesis
  proof (cases r)
    case None
    then show ?thesis using assms q r w1 by (simp add: conn_new_def)
  next
    case (Some a)
    obtain c cs e s s' where g: "w_conns w1 a = Some c" "get_client_stats (w_env w1) (w_stats w1) i = Ok (cs, e, s)"
      "count_connection cs s = Ok s'"
      using assms(1) q r Some by (auto simp: conn_new_def bindR_eq_Ok split: option.splits)
    define w2 where "w2 = put_conn a ((conn_reset ty i fd st c)\<lparr>c_stats := Some cs, ev_flags := fl\<rparr>)
        (set_stats s' (w1\<lparr>w_env := snd (event_call e)\<rparr>))"
    have eq: "conn_new w ty i fd st fl rb = (if event_ok e (events e) then Ok (Some a, w2)
        else bindR (conn_release a w2) (\<lambda>w. Ok (None, w)))"
      using q r Some g by (simp add: conn_new_def event_call_def Let_def w2_def)
    have "w' = w2 \<or> conn_release a w2 = Ok w'" using assms(1) unfolding eq by (auto simp: bindR_eq_Ok split: if_splits)
    moreover have "same_wires e (w_env w2)" by (simp add: same_wires_def w2_def put_conn_def set_stats_def)
    ultimately show ?thesis using w1 get_client_stats_wires [OF g(2)] conn_release_wires [of a w2 w'] by (auto simp: same_wires_def)
  qed
qed

lemma handler_wires:
  assumes "thread_new_conn_handler w t = Ok w'" and "threads_inv w qs" and "t < length qs" and "qs ! t = a # as"
    and "notify_read (w_env w) (w_threads w ! t) = Some (CHR ''c'', me)"
  shows "same_wires (w_env w) (w_env w')"
proof -
  obtain cq n w1 where "q_rep (w_qheap w, cq) as" "w_qheap w a = Some n"
    "w_threads w1 = (w_threads w)[t := me\<lparr>new_conn_queue := cq\<rparr>]"
    and h: "thread_new_conn_handler w t =
       bindR (conn_new w1 client_conn (nc_client_id n) (nc_sfd n) (nc_init_state n) (nc_event_flags n)
                              (nc_read_buffer_size n)) (\<lambda>(p, w).
                       case p of
                         None \<Rightarrow> Ok (new_conn_free a (close_fd (nc_sfd n) w))
                       | Some k \<Rightarrow> with_conn w k (\<lambda>c. Ok (new_conn_free a (put_conn k (c\<lparr>c_thread := Some t\<rparr>) w))))"
    "w1 = w\<lparr>w_threads := w_threads w1\<rparr>"
    using handler_takes [OF assms(2-5)] .
  obtain p w2 where c: "conn_new w1 client_conn (nc_client_id n) (nc_sfd n) (nc_init_state n) (nc_event_flags n)
      (nc_read_buffer_size n) = Ok (p, w2)"
    and w': "(case p of None \<Rightarrow> Ok (new_conn_free a (close_fd (nc_sfd n) w2))
      | Some k \<Rightarrow> with_conn w2 k (\<lambda>c. Ok (new_conn_free a (put_conn k (c\<lparr>c_thread := Some t\<rparr>) w2)))) = Ok w'"
    using assms(1) unfolding h(1) bindR_eq_Ok by auto
  have e: "w_env w' = w_env w2"
  proof (cases p)
    case None
    then have "w' = new_conn_free a (close_fd (nc_sfd n) w2)" using w' by simp
    then show ?thesis by (simp add: new_conn_free_def close_fd_def)
  next
    case (Some k)
    then obtain c where "w' = new_conn_free a (put_conn k (c\<lparr>c_thread := Some t\<rparr>) w2)"
      using w' by (cases "w_conns w2 k") (auto simp: with_conn_def)
    then show ?thesis by (simp add: new_conn_free_def put_conn_def)
  qed
  have "w_env w1 = w_env w" by (subst h(2)) simp
  then show ?thesis using conn_new_wires [OF c] e by simp
qed

section \<open>The new connection and the old ones\<close>

lemma opened_running:
  assumes "conn_ok c" and "new_conn_state client_conn i fd conn_new_cmd fl c" and "c_stats c \<noteq> None"
  shows "running c" "c_state c \<in> idle" "unread c = []" "c_sfd c = fd"
  using assms by (simp_all add: running_def base_def in_ok_def conn_ok_def new_conn_state_def state_ok_def idle_def unread_def)

text \<open>Clients that were ready stay ready when nothing of theirs changes.\<close>

lemma ready_clients_frame:
  assumes "ready_clients it B w" and "world_inv w'" "mem_ok (w_env w')" "fixed_item w' = fixed_item w" "s_alloc (config w') = s_alloc (config w)"
    and "same_wires (w_env w) (w_env w')" and "\<And>d. d \<in> B \<Longrightarrow> w_conns w' d = w_conns w d \<and> in_use w' d = in_use w d"
  shows "ready_clients it B w'"
proof -
  have "serving w' b it \<and> (\<exists>c. w_conns w' b = Some c \<and> c_state c \<in> idle \<and> 2 * int (length (stream (w_env w') c)) \<le> INT_MAX)"
    if b: "b \<in> B" for b
  proof -
    obtain c where c: "serving w b it" "w_conns w b = Some c" "c_state c \<in> idle" "2 * int (length (stream (w_env w) c)) \<le> INT_MAX"
      using assms(1) b by (auto simp: ready_clients_def)
    have "serving w' b it" using c(1) assms(2-5) assms(7) [OF b] by (auto simp: serving_def)
    moreover have "stream (w_env w') c = stream (w_env w) c" using assms(6) by (simp add: stream_def incoming_def same_wires_def)
    ultimately show ?thesis using c assms(7) [OF b] by simp
  qed
  moreover have "inj_on (\<lambda>b. c_sfd (the (w_conns w' b))) B"
    using assms(1) assms(7) by (auto simp: ready_clients_def inj_on_def)
  ultimately show ?thesis by (simp add: ready_clients_def)
qed

section \<open>Properties\<close>

text \<open>
  C5. A worker that is notified of a new client, by reading \<open>c\<close> from its pipe, opens a connection for it among the
  clients that are served already: when the descriptor at the head of its queue is not that of another client, the handler returns, and afterwards all
  clients that were ready and the new one are ready, which is all that the refinement of the reference server needs; or
  libevent has refused, the descriptor was closed and the others are ready as before.
\<close>

theorem thread_new_conn_handler_serves:
  assumes "ready_clients it B w" and "world_inv w" and "mem_ok (w_env w)" and "fixed_item w = Some it" and "sized it"
    and "threads_inv w qs" and "t < length qs" and "qs ! t = a # as" and "w_qheap w a = Some n"
    and "nc_init_state n = conn_new_cmd" and "0 < nc_read_buffer_size n \<and> nc_read_buffer_size n \<le> INT_MAX" and "0 \<le> nc_client_id n"
    and "\<forall>b k. st_heap (w_stats w) b = Some k \<longrightarrow> unat (cs_refcnt k) < 65535"
    and "\<forall>b \<in> B. c_sfd (the (w_conns w b)) \<noteq> nc_sfd n" and "2 * int (length (incoming (w_env w) (nc_sfd n))) \<le> INT_MAX"
    and "notify_read (w_env w) (w_threads w ! t) = Some (CHR ''c'', me)"
  shows "\<exists>w'. thread_new_conn_handler w t = Ok w' \<and> threads_inv w' (qs[t := as]) \<and>
    (notified w qs \<longrightarrow> notified w' (qs[t := as])) \<and>
    ((\<exists>b c. b \<notin> B \<and> ready_clients it (insert b B) w' \<and> w_conns w' b = Some c \<and> c_sfd c = nc_sfd n \<and>
        stream (w_env w') c = incoming (w_env w) (nc_sfd n)) \<or>
     (\<not> event_ok (w_env w) (events (w_env w)) \<and> ready_clients it B w' \<and> w_closed w' = w_closed w @ [nc_sfd n]))"
proof -
  obtain w' where w': "thread_new_conn_handler w t = Ok w'" "world_inv w'" "threads_inv w' (qs[t := as])" "mem_ok (w_env w')"
    and kept: "notified w qs \<longrightarrow> notified w' (qs[t := as])" and item: "fixed_item w' = fixed_item w" "s_alloc (config w') = s_alloc (config w)"
    and cases: "(\<exists>b c. w_conns w' b = Some c \<and> in_use w' b \<and> \<not> in_use w b \<and> c_thread c = Some t \<and> c_stats c \<noteq> None \<and>
        new_conn_state client_conn (nc_client_id n) (nc_sfd n) (nc_init_state n) (nc_event_flags n) c \<and>
        w_closed w' = w_closed w \<and> (\<forall>d. d \<noteq> b \<longrightarrow> w_conns w' d = w_conns w d \<and> in_use w' d = in_use w d)) \<or>
     (\<not> event_ok (w_env w) (events (w_env w)) \<and> w_closed w' = w_closed w @ [nc_sfd n] \<and>
        (\<forall>b. in_use w' b = in_use w b \<and> (in_use w b \<longrightarrow> w_conns w' b = w_conns w b)))"
    using handler_opens [OF assms(2,6-9,3,11-13,16)] by (elim exE conjE) (rule that)
  have net: "same_wires (w_env w) (w_env w')" by (rule handler_wires [OF w'(1) assms(6-8,16)])
  have used: "in_use w d" if "d \<in> B" for d using assms(1) that by (auto simp: ready_clients_def serving_def)
  note frame = ready_clients_frame [OF assms(1) w'(2,4) item net]
  from cases show ?thesis
  proof (elim disjE exE conjE)
    fix b c
    assume c: "w_conns w' b = Some c" "in_use w' b" "\<not> in_use w b" "c_thread c = Some t" "c_stats c \<noteq> None"
      "new_conn_state client_conn (nc_client_id n) (nc_sfd n) (nc_init_state n) (nc_event_flags n) c"
      and others: "\<forall>d. d \<noteq> b \<longrightarrow> w_conns w' d = w_conns w d \<and> in_use w' d = in_use w d"
    have b: "b \<notin> B" using used c(3) by blast
    have others': "w_conns w' d = w_conns w d \<and> in_use w' d = in_use w d" if "d \<in> B" for d
    proof -
      have "d \<noteq> b" using that b by blast
      then show ?thesis using others by simp
    qed
    have old: "ready_clients it B w'" by (rule frame) (rule others')
    have "conn_ok c" using w'(2) c(1) by (auto simp: world_inv_def conns_inv_def)
    note r = opened_running [OF this c(6) [unfolded assms(10)] c(5)]
    have s: "stream (w_env w') c = incoming (w_env w) (nc_sfd n)" using r(3,4) net by (simp add: stream_def incoming_def same_wires_def)
    have "serving w' b it" using w' item c(1,2,4) r(1) assms(4,5) by (simp add: serving_def)
    moreover have "\<forall>d \<in> B. c_sfd (the (w_conns w' d)) \<noteq> c_sfd c" using assms(14) r(4) others' by simp
    then have "inj_on (\<lambda>b. c_sfd (the (w_conns w' b))) (insert b B)"
      using old c(1) by (fastforce simp: ready_clients_def inj_on_insert)
    ultimately have "ready_clients it (insert b B) w'"
      using old c(1) r(2) s assms(15) by (auto simp: ready_clients_def)
    then show ?thesis using w'(1,3) kept b c(1) r(4) s by blast
  next
    assume n: "\<not> event_ok (w_env w) (events (w_env w))" "w_closed w' = w_closed w @ [nc_sfd n]"
      "\<forall>b. in_use w' b = in_use w b \<and> (in_use w b \<longrightarrow> w_conns w' b = w_conns w b)"
    have "ready_clients it B w'" by (rule frame) (simp add: n(3) used)
    then show ?thesis using w'(1,3) kept n(1,2) by blast
  qed
qed

theorem thread_new_conn_handler_serves_witness:
  "\<exists>w' b c. thread_new_conn_handler waiting_world 0 = Ok w' \<and> ready_clients whole_item {b} w' \<and> w_conns w' b = Some c \<and> c_sfd c = 7"
proof -
  have "world_inv waiting_world" using world0_inv(1) by (simp add: waiting_world_def world_inv_def)
  moreover have "threads_inv waiting_world [[1]]"
    by (simp add: threads_inv_def waiting_world_def q_rep_def waiting_item_def)
  moreover have "ready_clients whole_item {} waiting_world" by (simp add: ready_clients_def)
  moreover have "incoming (w_env waiting_world) 7 = []" by (simp add: waiting_world_def world0_def calm_env_def incoming_def)
  moreover have "fixed_item waiting_world = Some whole_item" "event_ok (w_env waiting_world) k" for k
    by (simp_all add: waiting_world_def world0_def calm_env_def)
  moreover obtain me where "notify_read (w_env waiting_world) (w_threads waiting_world ! 0) = Some (CHR ''c'', me)"
    by (simp add: notify_read_def waiting_world_def)
  ultimately show ?thesis
    using thread_new_conn_handler_serves [of whole_item "{}" waiting_world "[[1]]" 0 1 "[]" waiting_item me] world0_inv(2-4)
    by (fastforce simp: waiting_world_def waiting_item_def DATA_BUFFER_SIZE_def whole_item_complete)
qed

end
