(* ===== verification/Locking.thy ===== *)
theory Locking
  imports Pool
begin

text \<open>
  Mutexes (\<open>locking.h\<close>, and \<open>pthread_mutex_lock\<close> in \<open>threads.c\<close>). The other theories take a critical section as one
  step. Here it is a sequence of loads and stores, executed by any number of threads in any interleaving, and the
  lock is a variable that \<open>mutex_lock\<close> polls. \<open>locked\<close> is the step relation of such a system, for any critical
  sections.

  The locale \<open>critical_sections\<close> says what is needed to take them as one step: run alone, each ends, with the
  result of a function \<open>atomic\<close>. What follows from it is proved once: at most one thread is inside, an execution has
  the results and the effect of the calls run one after another in the order in which they released the lock, and
  no thread waits for ever unless another one spins at its place. The interpretations are the object of a client
  (\<open>client_stats\<close>, with its counters and its reference count) and the queue of a worker.
\<close>

section \<open>Threads and a lock\<close>

text \<open>
  \<open>todo i\<close> are the calls that thread \<open>i\<close> still has to make, the current one included; \<open>inside i\<close> is where it is in its
  critical section. The log has the calls that released the lock, with their results.
\<close>

record ('op, 'l, 's, 'r) monitor =
  holder :: "nat option"
  shared :: 's
  todo :: "nat \<Rightarrow> 'op list"
  inside :: "nat \<Rightarrow> 'l option"
  history :: "(nat \<times> 'op \<times> 'r) list"

text \<open>
  \<open>mutex_lock\<close> repeats \<open>pthread_mutex_trylock\<close>, which fails while the lock is held (\<open>spin\<close>) and takes it otherwise
  (\<open>acquire\<close>). A thread that is inside executes its statements whatever the others do.
\<close>

inductive locked ::
  "('op \<Rightarrow> 'l) \<Rightarrow> ('l \<Rightarrow> 's \<Rightarrow> 'l \<times> 's) \<Rightarrow> ('l \<Rightarrow> 'r option) \<Rightarrow>
   ('op, 'l, 's, 'r) monitor \<Rightarrow> ('op, 'l, 's, 'r) monitor \<Rightarrow> bool"
  for enter :: "'op \<Rightarrow> 'l" and exec :: "'l \<Rightarrow> 's \<Rightarrow> 'l \<times> 's" and result :: "'l \<Rightarrow> 'r option"
where
  spin: "todo s i = op # ops \<Longrightarrow> inside s i = None \<Longrightarrow> holder s \<noteq> None \<Longrightarrow> locked enter exec result s s"
| acquire: "todo s i = op # ops \<Longrightarrow> inside s i = None \<Longrightarrow> holder s = None \<Longrightarrow>
    locked enter exec result s (s\<lparr>holder := Some i, inside := (inside s)(i \<mapsto> enter op)\<rparr>)"
| work: "inside s i = Some l \<Longrightarrow> result l = None \<Longrightarrow> exec l (shared s) = (l', x) \<Longrightarrow>
    locked enter exec result s (s\<lparr>shared := x, inside := (inside s)(i \<mapsto> l')\<rparr>)"
| release: "inside s i = Some l \<Longrightarrow> result l = Some r \<Longrightarrow> todo s i = op # ops \<Longrightarrow>
    locked enter exec result s (s\<lparr>holder := None, inside := (inside s)(i := None), todo := (todo s)(i := ops),
      history := history s @ [(i, op, r)]\<rparr>)"

text \<open>Executions: any number of steps of any threads.\<close>

abbreviation execution where
  "execution enter exec result \<equiv> (locked enter exec result)\<^sup>*\<^sup>*"

text \<open>No thread inside, nothing done yet.\<close>

definition start :: "'s \<Rightarrow> (nat \<Rightarrow> 'op list) \<Rightarrow> ('op, 'l, 's, 'r) monitor" where
  "start x calls = \<lparr>holder = None, shared = x, todo = calls, inside = (\<lambda>_. None), history = []\<rparr>"

text \<open>The statements of a critical section, run alone.\<close>

definition alone :: "('l \<Rightarrow> 's \<Rightarrow> 'l \<times> 's) \<Rightarrow> nat \<Rightarrow> 'l \<times> 's \<Rightarrow> 'l \<times> 's" where
  "alone exec k = (\<lambda>(l, x). exec l x) ^^ k"

lemma alone_0 [simp]: "alone exec 0 p = p"
  by (simp add: alone_def)

lemma alone_Suc: "alone exec (Suc k) p = (case alone exec k p of (l, x) \<Rightarrow> exec l x)"
  by (simp add: alone_def)

text \<open>The calls of a log, one after another, each with the result that the log has.\<close>

fun serial :: "('op \<Rightarrow> 's \<Rightarrow> 'r \<times> 's) \<Rightarrow> (nat \<times> 'op \<times> 'r) list \<Rightarrow> 's \<Rightarrow> 's option" where
  "serial atomic [] x = Some x"
| "serial atomic ((i, op, r) # h) x =
     (case atomic op x of (r', y) \<Rightarrow> if r' = r then serial atomic h y else None)"

lemma serial_append:
  "serial atomic (h @ h') x = (case serial atomic h x of None \<Rightarrow> None | Some y \<Rightarrow> serial atomic h' y)"
  by (induction atomic h x rule: serial.induct) (auto split: prod.splits)

text \<open>The calls that thread \<open>i\<close> has made.\<close>

definition made :: "nat \<Rightarrow> (nat \<times> 'op \<times> 'r) list \<Rightarrow> 'op list" where
  "made i h = map (\<lambda>(j, op, r). op) (filter (\<lambda>(j, op, r). j = i) h)"

lemma made_simps [simp]:
  "made i [] = []" "made i (h @ [(j, op, r)]) = (if j = i then made i h @ [op] else made i h)"
  by (simp_all add: made_def)

text \<open>
  The invariant: the lock is held by the thread that is inside, which has run some statements of its critical section
  since the calls of the log, run one after another, left the shared object.
\<close>

definition monitor_inv ::
  "('op \<Rightarrow> 'l) \<Rightarrow> ('l \<Rightarrow> 's \<Rightarrow> 'l \<times> 's) \<Rightarrow> ('l \<Rightarrow> 'r option) \<Rightarrow> ('op \<Rightarrow> 's \<Rightarrow> 'r \<times> 's) \<Rightarrow>
   's \<Rightarrow> (nat \<Rightarrow> 'op list) \<Rightarrow> ('op, 'l, 's, 'r) monitor \<Rightarrow> bool"
where
  "monitor_inv enter exec result atomic x calls s \<longleftrightarrow>
     (\<forall>i. inside s i \<noteq> None \<longleftrightarrow> holder s = Some i) \<and>
     (\<forall>i. made i (history s) @ todo s i = calls i) \<and>
     (\<exists>y. serial atomic (history s) x = Some y \<and>
        (case holder s of
           None \<Rightarrow> shared s = y
         | Some i \<Rightarrow> \<exists>op ops k. todo s i = op # ops \<and> alone exec k (enter op, y) = (the (inside s i), shared s) \<and>
             (\<forall>j < k. result (fst (alone exec j (enter op, y))) = None)))"

text \<open>How much the first \<open>n\<close> threads still have to do, when a critical section at \<open>l\<close> takes at most \<open>cost l\<close> statements.\<close>

definition rest :: "('op \<Rightarrow> 'l) \<Rightarrow> ('l \<Rightarrow> nat) \<Rightarrow> 'l option \<Rightarrow> 'op list \<Rightarrow> nat" where
  "rest enter cost l ops =
     (case l of
        None \<Rightarrow> sum_list (map (\<lambda>op. cost (enter op) + 2) ops)
      | Some l \<Rightarrow> cost l + 1 + sum_list (map (\<lambda>op. cost (enter op) + 2) (tl ops)))"

definition remaining :: "('op \<Rightarrow> 'l) \<Rightarrow> ('l \<Rightarrow> nat) \<Rightarrow> nat \<Rightarrow> ('op, 'l, 's, 'r) monitor \<Rightarrow> nat" where
  "remaining enter cost n s = (\<Sum>i < n. rest enter cost (inside s i) (todo s i))"

section \<open>Critical sections\<close>

locale critical_sections =
  fixes enter :: "'op \<Rightarrow> 'l" and exec :: "'l \<Rightarrow> 's \<Rightarrow> 'l \<times> 's" and result :: "'l \<Rightarrow> 'r option"
    and atomic :: "'op \<Rightarrow> 's \<Rightarrow> 'r \<times> 's" and cost :: "'l \<Rightarrow> nat"
  assumes completes: "\<exists>k l. alone exec k (enter op, x) = (l, snd (atomic op x)) \<and> result l = Some (fst (atomic op x)) \<and>
      (\<forall>j < k. result (fst (alone exec j (enter op, x))) = None)"
    and shorter: "result l = None \<Longrightarrow> cost (fst (exec l x)) < cost l"
begin

lemma finished:
  assumes "alone exec k (enter op, x) = (l, y)" and "result l = Some r"
    and "\<forall>j < k. result (fst (alone exec j (enter op, x))) = None"
  shows "atomic op x = (r, y)"
proof -
  obtain n l' where n: "alone exec n (enter op, x) = (l', snd (atomic op x))" "result l' = Some (fst (atomic op x))"
    "\<forall>j < n. result (fst (alone exec j (enter op, x))) = None"
    using completes by blast
  have "n = k"
  proof (rule ccontr)
    assume "n \<noteq> k"
    then consider "n < k" | "k < n" by linarith
    then show False
    proof cases
      case 1
      then have "result l' = None" using assms(3) n(1) by fastforce
      then show ?thesis using n(2) by simp
    next
      case 2
      then have "result l = None" using assms(1) n(3) by fastforce
      then show ?thesis using assms(2) by simp
    qed
  qed
  then show ?thesis using assms(1,2) n(1,2) by (cases "atomic op x") simp
qed

lemma inside_holder: "monitor_inv enter exec result atomic x calls s \<Longrightarrow> inside s i = Some l \<Longrightarrow> holder s = Some i"
  unfolding monitor_inv_def by blast

lemma start_inv: "monitor_inv enter exec result atomic x calls (start x calls)"
  by (simp add: monitor_inv_def start_def)

lemma step_inv:
  assumes "locked enter exec result s s'" and "monitor_inv enter exec result atomic x calls s"
  shows "monitor_inv enter exec result atomic x calls s'"
  using assms
proof (induction rule: locked.induct)
  case (acquire s i op ops)
  then obtain y where y: "serial atomic (history s) x = Some y" "shared s = y" by (auto simp: monitor_inv_def)
  let ?s = "s\<lparr>holder := Some i, inside := (inside s)(i \<mapsto> enter op)\<rparr>"
  have "todo ?s i = op # ops \<and> alone exec 0 (enter op, y) = (the (inside ?s i), shared ?s) \<and>
      (\<forall>j < 0. result (fst (alone exec j (enter op, y))) = None)"
    using acquire(1) y(2) by simp
  then have "\<exists>op ops k. todo ?s i = op # ops \<and> alone exec k (enter op, y) = (the (inside ?s i), shared ?s) \<and>
      (\<forall>j < k. result (fst (alone exec j (enter op, y))) = None)"
    by blast
  then show ?case using acquire y(1) by (auto simp: monitor_inv_def)
next
  case (work s i l l' z)
  then have hold: "holder s = Some i" by (blast dest: inside_holder)
  then obtain y op ops k where y: "serial atomic (history s) x = Some y" "todo s i = op # ops"
    "alone exec k (enter op, y) = (l, shared s)" "\<forall>j < k. result (fst (alone exec j (enter op, y))) = None"
    using work by (auto simp: monitor_inv_def)
  let ?s = "s\<lparr>shared := z, inside := (inside s)(i \<mapsto> l')\<rparr>"
  have "todo ?s i = op # ops \<and> alone exec (Suc k) (enter op, y) = (the (inside ?s i), shared ?s) \<and>
      (\<forall>j < Suc k. result (fst (alone exec j (enter op, y))) = None)"
    using y work.hyps by (simp add: alone_Suc less_Suc_eq)
  then have "\<exists>op ops k. todo ?s i = op # ops \<and> alone exec k (enter op, y) = (the (inside ?s i), shared ?s) \<and>
      (\<forall>j < k. result (fst (alone exec j (enter op, y))) = None)"
    by blast
  then show ?case using work hold y(1) by (auto simp: monitor_inv_def)
next
  case (release s i l r op ops)
  then have hold: "holder s = Some i" by (blast dest: inside_holder)
  then obtain y k where y: "serial atomic (history s) x = Some y"
    "alone exec k (enter op, y) = (l, shared s)" "\<forall>j < k. result (fst (alone exec j (enter op, y))) = None"
    using release by (auto simp: monitor_inv_def)
  have "atomic op y = (r, shared s)" using finished [OF y(2) release.hyps(2) y(3)] .
  then have "serial atomic (history s @ [(i, op, r)]) x = Some (shared s)" using y(1) by (simp add: serial_append)
  moreover have "made j (history s) @ todo s j = calls j" "inside s j = None" if "j \<noteq> i" for j
    using release.prems hold that by (auto simp: monitor_inv_def)
  moreover have "made i (history s) @ op # ops = calls i" using release.prems release.hyps(3) unfolding monitor_inv_def by metis
  ultimately show ?case using hold by (auto simp: monitor_inv_def)
qed simp

lemma execution_inv:
  assumes "execution enter exec result (start x calls) s"
  shows "monitor_inv enter exec result atomic x calls s"
  using assms by (induction rule: rtranclp_induct) (auto intro: start_inv step_inv)

lemma mutual_exclusion:
  assumes "execution enter exec result (start x calls) s" and "inside s i \<noteq> None" and "inside s j \<noteq> None"
  shows "i = j"
  using execution_inv [OF assms(1)] assms(2,3) by (simp add: monitor_inv_def)

text \<open>With the lock free, the shared object is what the calls of the log leave, one after another.\<close>

lemma serialised:
  assumes "execution enter exec result (start x calls) s" and "holder s = None"
  shows "serial atomic (history s) x = Some (shared s) \<and> (\<forall>i. made i (history s) @ todo s i = calls i)"
  using execution_inv [OF assms(1)] assms(2) by (simp add: monitor_inv_def)

text \<open>Unless all threads are done, one of them can do something, and everything but spinning is progress.\<close>

lemma remaining_change:
  assumes "i < n" and "rest enter cost (inside s' i) (todo s' i) < rest enter cost (inside s i) (todo s i)"
    and "\<And>j. j \<noteq> i \<Longrightarrow> inside s' j = inside s j \<and> todo s' j = todo s j"
  shows "remaining enter cost n s' < remaining enter cost n s"
proof -
  have "remaining enter cost n s' = rest enter cost (inside s' i) (todo s' i) + (\<Sum>j \<in> {..<n} - {i}. rest enter cost (inside s' j) (todo s' j))"
    "remaining enter cost n s = rest enter cost (inside s i) (todo s i) + (\<Sum>j \<in> {..<n} - {i}. rest enter cost (inside s j) (todo s j))"
    using assms(1) by (simp_all add: remaining_def sum.remove [of _ i])
  moreover have "(\<Sum>j \<in> {..<n} - {i}. rest enter cost (inside s' j) (todo s' j)) = (\<Sum>j \<in> {..<n} - {i}. rest enter cost (inside s j) (todo s j))"
    using assms(3) by (intro sum.cong) auto
  ultimately show ?thesis using assms(2) by simp
qed

lemma step_progress:
  assumes "locked enter exec result s s'" and "monitor_inv enter exec result atomic x calls s" and "\<And>i. n \<le> i \<Longrightarrow> calls i = []"
  shows "s' = s \<or> remaining enter cost n s' < remaining enter cost n s"
proof -
  have few: "i < n" if "todo s i \<noteq> []" for i
  proof (rule ccontr)
    assume "\<not> i < n"
    then have "made i (history s) @ todo s i = []" using assms(2,3) by (simp add: monitor_inv_def)
    then show False using that by simp
  qed
  show ?thesis using assms(1)
  proof cases
    case (acquire i op ops)
    then have "i < n" using few by simp
    then show ?thesis using acquire by (intro disjI2 remaining_change [of i]) (auto simp: rest_def)
  next
    case (work i l l' z)
    then have "holder s = Some i" using inside_holder [OF assms(2)] by simp
    then have "todo s i \<noteq> []" using assms(2) by (auto simp: monitor_inv_def)
    then have "i < n" by (rule few)
    moreover have "cost l' < cost l" using shorter [OF work(3), of "shared s"] work(4) by simp
    ultimately show ?thesis using work by (intro disjI2 remaining_change [of i]) (auto simp: rest_def)
  next
    case (release i l r op ops)
    then have "i < n" using few by simp
    then show ?thesis using release by (intro disjI2 remaining_change [of i]) (auto simp: rest_def)
  qed simp
qed

lemma not_stuck:
  assumes "monitor_inv enter exec result atomic x calls s" and "todo s i \<noteq> []"
  shows "\<exists>s'. locked enter exec result s s' \<and> s' \<noteq> s"
proof (cases "holder s")
  case None
  then have i: "inside s i = None" using inside_holder [OF assms(1)] by (cases "inside s i") auto
  obtain op ops where op: "todo s i = op # ops" using assms(2) by (cases "todo s i") auto
  let ?s = "s\<lparr>holder := Some i, inside := (inside s)(i \<mapsto> enter op)\<rparr>"
  have "holder ?s \<noteq> holder s" using None by simp
  then have "?s \<noteq> s" by metis
  then show ?thesis using locked.acquire [OF op i None, of enter exec result] by blast
next
  case (Some j)
  then have "inside s j \<noteq> None" using assms(1) unfolding monitor_inv_def by blast
  moreover have "\<exists>op ops. todo s j = op # ops" using Some assms(1) by (auto simp: monitor_inv_def)
  ultimately obtain l op ops where l: "inside s j = Some l" "todo s j = op # ops" by blast
  show ?thesis
  proof (cases "result l")
    case None
    obtain l' z where e: "exec l (shared s) = (l', z)" by fastforce
    let ?s = "s\<lparr>shared := z, inside := (inside s)(j \<mapsto> l')\<rparr>"
    have "inside ?s j \<noteq> inside s j" using shorter [OF None, of "shared s"] e l(1) by auto
    then have "?s \<noteq> s" by metis
    then show ?thesis using locked.work [where result = result and exec = exec, OF l(1) None e] by blast
  next
    case r: (Some r)
    let ?s = "s\<lparr>holder := None, inside := (inside s)(j := None), todo := (todo s)(j := ops), history := history s @ [(j, op, r)]\<rparr>"
    have "holder ?s \<noteq> holder s" using Some by simp
    then have "?s \<noteq> s" by metis
    then show ?thesis using locked.release [where result = result, OF l(1) r l(2)] by blast
  qed
qed

text \<open>A whole call of one thread, without interruption.\<close>

lemma call_execution:
  assumes "todo s i = op # ops" and "inside s i = None" and "holder s = None"
  shows "execution enter exec result s
    (s\<lparr>shared := snd (atomic op (shared s)), todo := (todo s)(i := ops), history := history s @ [(i, op, fst (atomic op (shared s)))]\<rparr>)"
proof -
  let ?a = "\<lambda>j. alone exec j (enter op, shared s)"
  let ?s = "\<lambda>j. s\<lparr>holder := Some i, shared := snd (?a j), inside := (inside s)(i \<mapsto> fst (?a j))\<rparr>"
  obtain k l where k: "?a k = (l, snd (atomic op (shared s)))" "result l = Some (fst (atomic op (shared s)))"
    "\<forall>j < k. result (fst (?a j)) = None"
    using completes by blast
  have "execution enter exec result s (?s j)" if "j \<le> k" for j
    using that
  proof (induction j)
    case 0
    have "locked enter exec result s (?s 0)" using locked.acquire [OF assms, of enter exec result] by simp
    then show ?case by (rule r_into_rtranclp)
  next
    case (Suc j)
    have "inside (?s j) i = Some (fst (?a j))" "result (fst (?a j)) = None" "exec (fst (?a j)) (shared (?s j)) = (fst (?a (Suc j)), snd (?a (Suc j)))"
      using Suc.prems k(3) by (simp_all add: alone_Suc split: prod.splits)
    from locked.work [where exec = exec and result = result and enter = enter, OF this]
    have "locked enter exec result (?s j) (?s (Suc j))" by simp
    moreover have "execution enter exec result s (?s j)" using Suc.IH Suc.prems by (meson Suc_leD)
    ultimately show ?case by (rule rtranclp.rtrancl_into_rtrancl [rotated])
  qed
  then have run: "execution enter exec result s (?s k)" by simp
  have "inside (?s k) i = Some l" "todo (?s k) i = op # ops" using k(1) assms(1) by simp_all
  from locked.release [where result = result and enter = enter and exec = exec, OF this(1) k(2) this(2)]
  have "locked enter exec result (?s k)
    (s\<lparr>shared := snd (atomic op (shared s)), holder := None, inside := (inside s)(i := None), todo := (todo s)(i := ops),
       history := history s @ [(i, op, fst (atomic op (shared s)))]\<rparr>)"
    using k(1) by simp
  moreover have "(inside s)(i := None) = inside s" using assms(2) by (simp add: fun_upd_idem)
  moreover have "s\<lparr>shared := x, holder := None, inside := inside s, todo := t, history := h\<rparr> = s\<lparr>shared := x, todo := t, history := h\<rparr>" for x t h
    using assms(3) by (cases s) simp
  ultimately show ?thesis using run by (simp add: rtranclp.rtrancl_into_rtrancl)
qed

end

section \<open>The object of a client\<close>

text \<open>
  What is done under the lock of a \<open>client_stats\<close>: \<open>refcount_incr\<close> and \<open>refcount_decr\<close> (without the atomics of the
  compiler), the counters of \<open>conn_new\<close> and \<open>parse_command\<close>, and the output of \<open>process_stat_command\<close>. Each
  \<open>++\<close> is a load and a store.
\<close>

datatype stat_op = Ref_incr | Ref_decr | Count_connection | Count_request | Show_stats

datatype stat_pc =
    Ref_load stat_op | Ref_store "16 word" | Ref_read
  | Total_load | Total_store int | Live_load | Live_store int
  | Requests_load | Requests_store int
  | Show_id | Show_total int | Show_live int int | Show_requests int int int
  | Stat_return stat_out
  and stat_out = Count "16 word" | Printed int int int int | Nothing

fun stat_enter :: "stat_op \<Rightarrow> stat_pc" where
  "stat_enter Count_connection = Total_load"
| "stat_enter Count_request = Requests_load"
| "stat_enter Show_stats = Show_id"
| "stat_enter op = Ref_load op"

fun stat_exec :: "stat_pc \<Rightarrow> client_stats \<Rightarrow> stat_pc \<times> client_stats" where
  "stat_exec (Ref_load op) n =
     (Ref_store (if op = Ref_incr then cs_refcnt n + 1 else cs_refcnt n - 1), n)"
| "stat_exec (Ref_store v) n = (Ref_read, n\<lparr>cs_refcnt := v\<rparr>)"
| "stat_exec Ref_read n = (Stat_return (Count (cs_refcnt n)), n)"
| "stat_exec Total_load n = (Total_store (i32 (total_connections n + 1)), n)"
| "stat_exec (Total_store v) n = (Live_load, n\<lparr>total_connections := v\<rparr>)"
| "stat_exec Live_load n = (Live_store (i32 (live_connections n + 1)), n)"
| "stat_exec (Live_store v) n = (Stat_return Nothing, n\<lparr>live_connections := v\<rparr>)"
| "stat_exec Requests_load n = (Requests_store (i32 (requests n + 1)), n)"
| "stat_exec (Requests_store v) n = (Stat_return Nothing, n\<lparr>requests := v\<rparr>)"
| "stat_exec Show_id n = (Show_total (cs_client_id n), n)"
| "stat_exec (Show_total i) n = (Show_live i (total_connections n), n)"
| "stat_exec (Show_live i t) n = (Show_requests i t (live_connections n), n)"
| "stat_exec (Show_requests i t l) n = (Stat_return (Printed i t l (requests n)), n)"
| "stat_exec (Stat_return r) n = (Stat_return r, n)"

fun stat_result :: "stat_pc \<Rightarrow> stat_out option" where
  "stat_result (Stat_return r) = Some r"
| "stat_result l = None"

fun stat_cost :: "stat_pc \<Rightarrow> nat" where
  "stat_cost (Ref_load op) = 3" | "stat_cost (Ref_store v) = 2" | "stat_cost Ref_read = 1"
| "stat_cost Total_load = 4" | "stat_cost (Total_store v) = 3" | "stat_cost Live_load = 2" | "stat_cost (Live_store v) = 1"
| "stat_cost Requests_load = 2" | "stat_cost (Requests_store v) = 1"
| "stat_cost Show_id = 4" | "stat_cost (Show_total i) = 3" | "stat_cost (Show_live i t) = 2"
| "stat_cost (Show_requests i t l) = 1"
| "stat_cost (Stat_return r) = 0"

text \<open>The same as one step each, as the other theories have them.\<close>

fun stat_atomic :: "stat_op \<Rightarrow> client_stats \<Rightarrow> stat_out \<times> client_stats" where
  "stat_atomic Ref_incr n = (Count (refcount_incr (cs_refcnt n)), n\<lparr>cs_refcnt := refcount_incr (cs_refcnt n)\<rparr>)"
| "stat_atomic Ref_decr n = (Count (refcount_decr (cs_refcnt n)), n\<lparr>cs_refcnt := refcount_decr (cs_refcnt n)\<rparr>)"
| "stat_atomic Count_connection n =
     (Nothing, n\<lparr>total_connections := i32 (total_connections n + 1), live_connections := i32 (live_connections n + 1)\<rparr>)"
| "stat_atomic Count_request n = (Nothing, n\<lparr>requests := i32 (requests n + 1)\<rparr>)"
| "stat_atomic Show_stats n = (Printed (cs_client_id n) (total_connections n) (live_connections n) (requests n), n)"

lemma stat_completes:
  "\<exists>k l. alone stat_exec k (stat_enter op, n) = (l, snd (stat_atomic op n)) \<and> stat_result l = Some (fst (stat_atomic op n)) \<and>
     (\<forall>j < k. stat_result (fst (alone stat_exec j (stat_enter op, n))) = None)"
  by (rule exI [of _ "stat_cost (stat_enter op)"], cases op)
     (auto simp: eval_nat_numeral alone_Suc less_Suc_eq refcount_incr_def refcount_decr_def)

interpretation client_lock: critical_sections stat_enter stat_exec stat_result stat_atomic stat_cost
proof
  show "stat_cost (fst (stat_exec l n)) < stat_cost l" if "stat_result l = None" for l n
    using that by (cases l) simp_all
qed (rule stat_completes)

text \<open>The steps of the other theories are these.\<close>

lemma count_connection_atomic:
  "count_connection a s =
     (case st_heap s a of
        None \<Rightarrow> Err NullDeref
      | Some n \<Rightarrow> Ok (s\<lparr>st_heap := (st_heap s)(a \<mapsto> snd (stat_atomic Count_connection n))\<rparr>))"
  by (simp add: count_connection_def split: option.split)

lemma count_request_atomic:
  "c_stats c = Some a \<Longrightarrow>
   count_request cfg c =
     (case st_heap (s_stats cfg) a of
        None \<Rightarrow> Err NullDeref
      | Some n \<Rightarrow> Ok (cfg\<lparr>s_stats := (s_stats cfg)\<lparr>st_heap := (st_heap (s_stats cfg))
          (a \<mapsto> snd (stat_atomic Count_request n))\<rparr>\<rparr>))"
  by (simp add: count_request_def split: option.split)

text \<open>What a sequence of calls adds to each counter.\<close>

definition calls_of :: "stat_op \<Rightarrow> (nat \<times> stat_op \<times> 'r) list \<Rightarrow> nat" where
  "calls_of op h = length (filter (\<lambda>(j, op', r). op' = op) h)"

lemma calls_of_simps [simp]:
  "calls_of op [] = 0" "calls_of op ((j, op', r) # h) = (if op' = op then Suc (calls_of op h) else calls_of op h)"
  by (simp_all add: calls_of_def)

lemma serial_totals:
  assumes "serial stat_atomic h n = Some m"
  shows "cs_refcnt m = cs_refcnt n + of_nat (calls_of Ref_incr h) - of_nat (calls_of Ref_decr h)"
    "i32 (requests m) = i32 (requests n + int (calls_of Count_request h))"
    "i32 (total_connections m) = i32 (total_connections n + int (calls_of Count_connection h))"
    "i32 (live_connections m) = i32 (live_connections n + int (calls_of Count_connection h))"
    "cs_client_id m = cs_client_id n" "cs_next m = cs_next n"
proof -
  have "cs_refcnt m = cs_refcnt n + of_nat (calls_of Ref_incr h) - of_nat (calls_of Ref_decr h) \<and>
    i32 (requests m) = i32 (requests n + int (calls_of Count_request h)) \<and>
    i32 (total_connections m) = i32 (total_connections n + int (calls_of Count_connection h)) \<and>
    i32 (live_connections m) = i32 (live_connections n + int (calls_of Count_connection h)) \<and>
    cs_client_id m = cs_client_id n \<and> cs_next m = cs_next n"
    using assms
  proof (induction stat_atomic h n rule: serial.induct)
    case (2 i op r h n)
    then show ?case
      by (cases op) (auto simp: refcount_incr_def refcount_decr_def i32_add add.assoc split: if_splits)
  qed simp
  then show "cs_refcnt m = cs_refcnt n + of_nat (calls_of Ref_incr h) - of_nat (calls_of Ref_decr h)"
    "i32 (requests m) = i32 (requests n + int (calls_of Count_request h))"
    "i32 (total_connections m) = i32 (total_connections n + int (calls_of Count_connection h))"
    "i32 (live_connections m) = i32 (live_connections n + int (calls_of Count_connection h))"
    "cs_client_id m = cs_client_id n" "cs_next m = cs_next n"
    by simp_all
qed

text \<open>The calls of a history, counted by thread.\<close>

lemma calls_of_made:
  assumes "\<forall>(j, op', r) \<in> set h. j < n"
  shows "calls_of op h = (\<Sum>i < n. count_list (made i h) op)"
  using assms
proof (induction h rule: rev_induct)
  case (snoc x h)
  obtain j op' r where x: "x = (j, op', r)" by (cases x) auto
  have j: "j < n" using snoc.prems by (auto simp: x)
  have "(\<Sum>i < n. count_list (made i (h @ [x])) op) = (\<Sum>i < n. count_list (made i h) op + (if i = j \<and> op' = op then 1 else 0))"
    by (intro sum.cong) (auto simp: x)
  also have "\<dots> = (\<Sum>i < n. count_list (made i h) op) + (if op' = op then 1 else 0)"
    using j by (auto simp: sum.distrib)
  finally show ?case using snoc by (auto simp: x calls_of_def)
qed (simp add: calls_of_def)

section \<open>The queue of a worker\<close>

text \<open>
  \<open>conn_queue_push\<close> and \<open>conn_queue_pop\<close> statement by statement. The shared state is an error once a pointer that is
  null or dangling was followed: then the process has ended.
\<close>

datatype queue_op = Push addr | Pop

datatype queue_pc =
    Push_next addr | Push_link addr | Push_tail addr
  | Pop_head | Pop_next "addr option" | Pop_tail addr
  | Queue_return "addr option"

fun queue_enter :: "queue_op \<Rightarrow> queue_pc" where
  "queue_enter (Push a) = Push_next a"
| "queue_enter Pop = Pop_head"

fun queue_stmt :: "queue_pc \<Rightarrow> qheap \<Rightarrow> conn_queue_t \<Rightarrow> queue_pc \<times> (qheap \<times> conn_queue_t) res" where
  "queue_stmt (Push_next a) h cq =
     (case h a of
        None \<Rightarrow> (Queue_return None, Err NullDeref)
      | Some n \<Rightarrow> (Push_link a, Ok (h(a \<mapsto> n\<lparr>nc_next := None\<rparr>), cq)))"
| "queue_stmt (Push_link a) h cq =
     (case cq_tail cq of
        None \<Rightarrow> (Push_tail a, Ok (h, cq\<lparr>cq_head := Some a\<rparr>))
      | Some t \<Rightarrow>
          (case h t of
             None \<Rightarrow> (Queue_return None, Err NullDeref)
           | Some m \<Rightarrow> (Push_tail a, Ok (h(t \<mapsto> m\<lparr>nc_next := Some a\<rparr>), cq))))"
| "queue_stmt (Push_tail a) h cq = (Queue_return None, Ok (h, cq\<lparr>cq_tail := Some a\<rparr>))"
| "queue_stmt Pop_head h cq = (Pop_next (cq_head cq), Ok (h, cq))"
| "queue_stmt (Pop_next None) h cq = (Queue_return None, Ok (h, cq))"
| "queue_stmt (Pop_next (Some a)) h cq =
     (case h a of
        None \<Rightarrow> (Queue_return None, Err NullDeref)
      | Some n \<Rightarrow> (Pop_tail a, Ok (h, cq\<lparr>cq_head := nc_next n\<rparr>)))"
| "queue_stmt (Pop_tail a) h cq =
     (Queue_return (Some a), Ok (h, if cq_head cq = None then cq\<lparr>cq_tail := None\<rparr> else cq))"
| "queue_stmt (Queue_return r) h cq = (Queue_return r, Ok (h, cq))"

definition queue_exec :: "queue_pc \<Rightarrow> (qheap \<times> conn_queue_t) res \<Rightarrow> queue_pc \<times> (qheap \<times> conn_queue_t) res" where
  "queue_exec l x = (case x of Some (Inr (h, cq)) \<Rightarrow> queue_stmt l h cq | _ \<Rightarrow> (Queue_return None, x))"

fun queue_result :: "queue_pc \<Rightarrow> addr option option" where
  "queue_result (Queue_return r) = Some r"
| "queue_result l = None"

fun queue_cost :: "queue_pc \<Rightarrow> nat" where
  "queue_cost (Push_next a) = 3" | "queue_cost (Push_link a) = 2" | "queue_cost (Push_tail a) = 1"
| "queue_cost Pop_head = 3" | "queue_cost (Pop_next p) = 2" | "queue_cost (Pop_tail a) = 1"
| "queue_cost (Queue_return r) = 0"

fun queue_atomic :: "queue_op \<Rightarrow> (qheap \<times> conn_queue_t) res \<Rightarrow> addr option \<times> (qheap \<times> conn_queue_t) res" where
  "queue_atomic (Push a) x = (None, bindR x (\<lambda>s. conn_queue_push s a))"
| "queue_atomic Pop x =
     (case bindR x conn_queue_pop of
        Some (Inr (r, s)) \<Rightarrow> (r, Ok s) | Some (Inl e) \<Rightarrow> (None, Err e) | None \<Rightarrow> (None, None))"

lemma queue_exec_Ok [simp]: "queue_exec l (Ok (h, cq)) = queue_stmt l h cq"
  by (simp add: queue_exec_def)

lemma queue_dead [simp]: "queue_exec l (Err e) = (Queue_return None, Err e)" "queue_exec l None = (Queue_return None, None)"
  by (simp_all add: queue_exec_def)

lemma queue_exec_shorter: "queue_result l = None \<Longrightarrow> queue_cost (fst (queue_exec l x)) < queue_cost l"
proof -
  assume l: "queue_result l = None"
  have "queue_cost (fst (queue_stmt l h cq)) < queue_cost l" for h cq
    using l by (cases "(l, h, cq)" rule: queue_stmt.cases) (auto split: option.splits)
  moreover have "0 < queue_cost l" using l by (cases l) simp_all
  ultimately show ?thesis by (auto simp: queue_exec_def split: option.splits sum.splits)
qed

text \<open>A run that ends after one, two or three statements.\<close>

definition ends :: "nat \<Rightarrow> queue_op \<Rightarrow> (qheap \<times> conn_queue_t) res \<Rightarrow> bool" where
  "ends k op x \<longleftrightarrow>
     (\<exists>l. alone queue_exec k (queue_enter op, x) = (l, snd (queue_atomic op x)) \<and> queue_result l = Some (fst (queue_atomic op x))) \<and>
     (\<forall>j < k. queue_result (fst (alone queue_exec j (queue_enter op, x))) = None)"

lemma push_ends: "\<exists>k. ends k (Push a) (Ok (h, cq))"
proof (cases "h a")
  case None
  then have "ends 1 (Push a) (Ok (h, cq))" by (simp add: ends_def alone_Suc conn_queue_push_def)
  then show ?thesis by blast
next
  case n: (Some n)
  show ?thesis
  proof (cases "\<exists>t. cq_tail cq = Some t \<and> (h(a \<mapsto> n\<lparr>nc_next := None\<rparr>)) t = None")
    case True
    then have "ends 2 (Push a) (Ok (h, cq))"
      using n by (auto simp: ends_def eval_nat_numeral alone_Suc less_Suc_eq conn_queue_push_def Let_def split: if_splits)
    then show ?thesis by blast
  next
    case False
    then have "ends 3 (Push a) (Ok (h, cq))"
      using n by (cases "cq_tail cq") (auto simp: ends_def eval_nat_numeral alone_Suc less_Suc_eq conn_queue_push_def Let_def split: option.splits if_splits)
    then show ?thesis by blast
  qed
qed

lemma pop_ends: "\<exists>k. ends k Pop (Ok (h, cq))"
proof (cases "\<exists>a n. cq_head cq = Some a \<and> h a = Some n")
  case True
  then have "ends 3 Pop (Ok (h, cq))"
    by (auto simp: ends_def eval_nat_numeral alone_Suc less_Suc_eq conn_queue_pop_def)
  then show ?thesis by blast
next
  case False
  then have "ends 2 Pop (Ok (h, cq))"
    by (cases "cq_head cq") (auto simp: ends_def eval_nat_numeral alone_Suc less_Suc_eq conn_queue_pop_def)
  then show ?thesis by blast
qed

lemma queue_ends: "\<exists>k. ends k op x"
proof (cases "\<exists>h cq. x = Ok (h, cq)")
  case True
  then show ?thesis using push_ends pop_ends by (cases op) auto
next
  case False
  then have "x = None \<or> (\<exists>e. x = Err e)" by (metis option.exhaust sum.exhaust surj_pair)
  then have "ends 1 op x" by (cases op) (auto simp: ends_def alone_Suc)
  then show ?thesis by blast
qed

interpretation queue_lock: critical_sections queue_enter queue_exec queue_result queue_atomic queue_cost
proof
  show "\<exists>k l. alone queue_exec k (queue_enter op, x) = (l, snd (queue_atomic op x)) \<and> queue_result l = Some (fst (queue_atomic op x)) \<and>
      (\<forall>j < k. queue_result (fst (alone queue_exec j (queue_enter op, x))) = None)" for op x
    using queue_ends [of op x] unfolding ends_def by blast
qed (rule queue_exec_shorter)

text \<open>The items pushed and the items popped in a history.\<close>

fun pushed :: "queue_op list \<Rightarrow> addr list" where
  "pushed [] = []"
| "pushed (Push a # ops) = a # pushed ops"
| "pushed (Pop # ops) = pushed ops"

fun popped :: "(nat \<times> queue_op \<times> addr option) list \<Rightarrow> addr list" where
  "popped [] = []"
| "popped ((i, Pop, Some a) # h) = a # popped h"
| "popped (_ # h) = popped h"

definition ops_of :: "(nat \<times> 'op \<times> 'r) list \<Rightarrow> 'op list" where
  "ops_of h = map (\<lambda>(i, op, r). op) h"

lemma ops_of_simps [simp]: "ops_of [] = []" "ops_of ((i, op, r) # h) = op # ops_of h"
  by (simp_all add: ops_of_def)

lemma pushed_append [simp]: "pushed (xs @ ys) = pushed xs @ pushed ys"
  by (induction xs rule: pushed.induct) simp_all

lemma pushed_map [simp]: "pushed (map Push as) = as"
  by (induction as) simp_all

lemma pop_live: "conn_queue_pop s = Ok (r, s') \<Longrightarrow> q_live s' a = q_live s a"
  by (auto simp: conn_queue_pop_def q_live_def split: prod.splits option.splits)

text \<open>One after another, the calls keep the queue, and pops take what was pushed, in order.\<close>

lemma serial_queue:
  assumes "serial queue_atomic h (Ok s) = Some x" and "q_rep s qs" and "distinct (qs @ pushed (ops_of h))"
    and "\<forall>a \<in> set (pushed (ops_of h)). q_live s a"
  shows "\<exists>s' rest. x = Ok s' \<and> q_rep s' rest \<and> qs @ pushed (ops_of h) = popped h @ rest"
  using assms
proof (induction h arbitrary: s qs)
  case (Cons c h)
  obtain i op r where c: "c = (i, op, r)" by (cases c) auto
  show ?case
  proof (cases op)
    case (Push a)
    obtain s1 where s1: "conn_queue_push s a = Ok s1" "q_rep s1 (qs @ [a])"
      using conn_queue_push_rep [OF Cons.prems(2), of a] Cons.prems(3,4) by (auto simp: c Push)
    have run: "serial queue_atomic h (Ok s1) = Some x" "r = None" using Cons.prems(1) s1(1) by (auto simp: c Push split: if_splits)
    have "\<forall>b \<in> set (pushed (ops_of h)). q_live s1 b" using Cons.prems(4) conn_queue.push_keeps [OF s1(1)] by (auto simp: c Push)
    from Cons.IH [OF run(1) s1(2) _ this] Cons.prems(3) show ?thesis by (simp add: c Push)
  next
    case Pop
    show ?thesis
    proof (cases qs)
      case Nil
      then have p: "conn_queue_pop s = Ok (None, s)" using conn_queue.pop_empty Cons.prems(2) by simp
      then have "serial queue_atomic h (Ok s) = Some x" "r = None" using Cons.prems(1) by (auto simp: c Pop split: if_splits)
      then show ?thesis using Cons.IH [of s qs] Cons.prems(2-4) by (simp add: c Pop)
    next
      case q: (Cons a as)
      obtain s1 where s1: "conn_queue_pop s = Ok (Some a, s1)" "q_rep s1 as"
        using conn_queue_pop_first Cons.prems(2) q by blast
      then have "serial queue_atomic h (Ok s1) = Some x" "r = Some a" using Cons.prems(1) by (auto simp: c Pop split: if_splits)
      then show ?thesis using Cons.IH [of s1 as] s1(2) Cons.prems(3,4) pop_live [OF s1(1)] by (simp add: c Pop q)
    qed
  qed
qed auto

text \<open>When only one thread pushes, the pushes of a history are those of that thread.\<close>

lemma pushed_by:
  assumes "\<forall>i. i \<noteq> k \<longrightarrow> pushed (made i h) = []"
  shows "pushed (ops_of h) = pushed (made k h)"
  using assms
proof (induction h rule: rev_induct)
  case (snoc c h)
  obtain i op r where c: "c = (i, op, r)" by (cases c) auto
  have "pushed (made j h) = []" if "j \<noteq> k" for j using snoc.prems that by (auto simp: c split: if_splits)
  then have "pushed (ops_of h) = pushed (made k h)" using snoc.IH by blast
  moreover have "i \<noteq> k \<Longrightarrow> pushed [op] = []" using snoc.prems by (auto simp: c)
  ultimately show ?case by (auto simp: c ops_of_def)
qed (simp add: made_def)

section \<open>Properties\<close>

text \<open>
  C17. Any number of threads work on the same \<open>client_stats\<close>, each with its own list of reference counts up and down,
  counted connections and requests and \<open>stats\<close> commands, and their loads and stores interleave in any way. Then at most
  one thread is between \<open>mutex_lock\<close> and \<open>mutex_unlock\<close>; with the lock free, what the calls returned and what the object
  holds is as if the calls had run one after another, those of each thread in its order; and when all are
  done, no update is lost: the reference count has gone up and down by as much as there were calls, modulo \<open>2 ^ 16\<close>,
  and the counters by theirs, modulo \<open>2 ^ 32\<close>.
\<close>

theorem client_stats_serialised:
  assumes "execution stat_enter stat_exec stat_result (start n calls) s" and "\<forall>i \<ge> k. calls i = []"
  shows "(\<forall>i j. inside s i \<noteq> None \<longrightarrow> inside s j \<noteq> None \<longrightarrow> i = j) \<and>
    (holder s = None \<longrightarrow> serial stat_atomic (history s) n = Some (shared s) \<and> (\<forall>i. made i (history s) @ todo s i = calls i)) \<and>
    (holder s = None \<longrightarrow> (\<forall>i. todo s i = []) \<longrightarrow>
       cs_refcnt (shared s) = cs_refcnt n + of_nat (\<Sum>i < k. count_list (calls i) Ref_incr) - of_nat (\<Sum>i < k. count_list (calls i) Ref_decr) \<and>
       i32 (requests (shared s)) = i32 (requests n + int (\<Sum>i < k. count_list (calls i) Count_request)) \<and>
       i32 (total_connections (shared s)) = i32 (total_connections n + int (\<Sum>i < k. count_list (calls i) Count_connection)))"
proof -
  note ser = client_lock.serialised [OF assms(1)]
  have "cs_refcnt (shared s) = cs_refcnt n + of_nat (\<Sum>i < k. count_list (calls i) Ref_incr) - of_nat (\<Sum>i < k. count_list (calls i) Ref_decr) \<and>
       i32 (requests (shared s)) = i32 (requests n + int (\<Sum>i < k. count_list (calls i) Count_request)) \<and>
       i32 (total_connections (shared s)) = i32 (total_connections n + int (\<Sum>i < k. count_list (calls i) Count_connection))"
    if fin: "holder s = None" "\<forall>i. todo s i = []"
  proof -
    have made: "made i (history s) = calls i" for i using ser [OF fin(1)] fin(2) by (metis append.right_neutral)
    have "j < k" if "(j, op, r) \<in> set (history s)" for j op r
    proof (rule ccontr)
      assume "\<not> j < k"
      then have "made j (history s) = []" using made assms(2) by simp
      then show False using that by (auto simp: made_def filter_empty_conv)
    qed
    then have "\<forall>(j, op, r) \<in> set (history s). j < k" by auto
    from calls_of_made [OF this] have "calls_of op (history s) = (\<Sum>i < k. count_list (calls i) op)" for op
      by (simp add: made)
    then show ?thesis using serial_totals [of "history s" n "shared s"] ser [OF fin(1)] by simp
  qed
  then show ?thesis using ser client_lock.mutual_exclusion [OF assms(1)] by blast
qed

text \<open>Two threads on one object: one takes a reference, the other counts a request.\<close>

definition two_calls :: "nat \<Rightarrow> stat_op list" where
  "two_calls = (\<lambda>_. [])(0 := [Ref_incr], 1 := [Count_request])"

definition idle_client :: client_stats where
  "idle_client = \<lparr>cs_refcnt = 1, cs_next = None, cs_client_id = 5, total_connections = 0, live_connections = 0, requests = 0\<rparr>"

lemma two_calls_run:
  "execution stat_enter stat_exec stat_result (start idle_client two_calls)
     ((start idle_client two_calls)\<lparr>shared := idle_client\<lparr>cs_refcnt := 2\<rparr>, todo := two_calls(0 := []), history := [(0, Ref_incr, Count 2)]\<rparr>)"
  using client_lock.call_execution [of "start idle_client two_calls" 0 Ref_incr "[]"]
  by (simp add: start_def two_calls_def idle_client_def refcount_incr_def)

theorem client_stats_serialised_witness:
  "\<exists>s. execution stat_enter stat_exec stat_result (start idle_client two_calls) s \<and> cs_refcnt (shared s) = 2 \<and>
     serial stat_atomic (history s) idle_client = Some (shared s)"
proof -
  have "\<forall>i \<ge> 2. two_calls i = []" by (simp add: two_calls_def)
  from client_stats_serialised [OF two_calls_run this] two_calls_run show ?thesis
    by (intro exI [of _ "(start idle_client two_calls)\<lparr>shared := idle_client\<lparr>cs_refcnt := 2\<rparr>, todo := two_calls(0 := []),
       history := [(0, Ref_incr, Count 2)]\<rparr>"]) (simp add: start_def)
qed

text \<open>
  C37. Nobody waits for ever for nothing. Whatever has happened so far, as long as one of the threads has a call left
  to make, some thread can go on; and every step of any thread that is not a failed \<open>pthread_mutex_trylock\<close> leaves
  less to do, so that with a scheduler that does not only let threads spin all calls return.
\<close>

theorem client_stats_progress:
  assumes "execution stat_enter stat_exec stat_result (start n calls) s" and "\<forall>i \<ge> k. calls i = []"
  shows "((\<exists>i. todo s i \<noteq> []) \<longrightarrow> (\<exists>s'. locked stat_enter stat_exec stat_result s s' \<and> s' \<noteq> s)) \<and>
    (\<forall>s'. locked stat_enter stat_exec stat_result s s' \<longrightarrow>
       s' = s \<or> remaining stat_enter stat_cost k s' < remaining stat_enter stat_cost k s)"
proof -
  note inv = client_lock.execution_inv [OF assms(1)]
  show ?thesis using client_lock.not_stuck [OF inv] client_lock.step_progress [OF _ inv, of _ k] assms(2) by auto
qed

theorem client_stats_progress_witness:
  "\<exists>s. execution stat_enter stat_exec stat_result (start idle_client two_calls) s \<and> history s \<noteq> [] \<and>
     (\<exists>s'. locked stat_enter stat_exec stat_result s s' \<and> s' \<noteq> s)"
proof -
  let ?s = "(start idle_client two_calls)\<lparr>shared := idle_client\<lparr>cs_refcnt := 2\<rparr>, todo := two_calls(0 := []), history := [(0, Ref_incr, Count 2)]\<rparr>"
  have "\<forall>i \<ge> 2. two_calls i = []" "\<exists>i. todo ?s i \<noteq> []" by (auto simp: two_calls_def intro: exI [of _ 1])
  with client_stats_progress [OF two_calls_run, of 2]
  have "\<exists>s'. locked stat_enter stat_exec stat_result ?s s' \<and> s' \<noteq> ?s" by blast
  then show ?thesis using two_calls_run by (intro exI [of _ ?s]) simp
qed

text \<open>
  C18. The queue of a worker under concurrency: the dispatcher pushes items while the worker pops, and the statements of
  both interleave in any way. Whenever the lock is free, no pointer was followed that should not be, the queue is a proper
  list, and what the worker has taken, followed by what is in the queue, is what was there at first followed by what
  the dispatcher has pushed so far: nothing is lost, repeated or reordered.
\<close>

theorem conn_queue_concurrent:
  assumes "execution queue_enter queue_exec queue_result (start (Ok q) ((\<lambda>_. [])(0 := map Push as, 1 := replicate m Pop))) s"
    and "holder s = None" and "q_rep q qs" and "distinct (qs @ as)" and "\<forall>a \<in> set as. q_live q a"
  shows "\<exists>q' k content. shared s = Ok q' \<and> q_rep q' content \<and> qs @ take k as = popped (history s) @ content \<and>
    (todo s 0 = [] \<longrightarrow> take k as = as)"
proof -
  let ?calls = "(\<lambda>_. [])(0 := map Push as, 1 := replicate m Pop)"
  have ser: "serial queue_atomic (history s) (Ok q) = Some (shared s)" "\<And>i. made i (history s) @ todo s i = ?calls i"
    using queue_lock.serialised [OF assms(1,2)] by simp_all
  have pops: "pushed (replicate m Pop) = []" by (induction m) simp_all
  have all: "pushed (made i (history s)) @ pushed (todo s i) = pushed (?calls i)" for i
    using arg_cong [OF ser(2) [of i], of pushed] by simp
  then have "pushed (made i (history s)) = []" if "i \<noteq> 0" for i
    using that pops by (cases "i = 1") (force dest: spec [of _ i])+
  then have p: "pushed (ops_of (history s)) = pushed (made 0 (history s))" using pushed_by [of 0] by blast
  have as: "pushed (made 0 (history s)) @ pushed (todo s 0) = as" using all [of 0] by simp
  then have k: "pushed (made 0 (history s)) = take (length (pushed (made 0 (history s)))) as" by (metis append_eq_conv_conj)
  have "distinct (qs @ pushed (ops_of (history s)))" "\<forall>a \<in> set (pushed (ops_of (history s))). q_live q a"
    using assms(4,5) as unfolding p by auto
  from serial_queue [OF ser(1) assms(3) this] show ?thesis using k p as by (metis append.right_neutral pushed.simps(1))
qed

theorem conn_queue_concurrent_witness:
  "\<exists>q s q' k content. execution queue_enter queue_exec queue_result q s \<and> popped (history s) = [2] \<and> shared s = Ok q' \<and> q_rep q' content \<and> [2] @ take k [1] = popped (history s) @ content"
proof -
  let ?q = "([1 \<mapsto> some_item, 2 \<mapsto> some_item], \<lparr>cq_head = Some 2, cq_tail = Some 2\<rparr>)"
  define s :: "(queue_op, queue_pc, (qheap \<times> conn_queue_t) res, addr option) monitor"
    where "s = start (Ok ?q) ((\<lambda>_. [])(0 := map Push [1], 1 := replicate 1 Pop))"
  define t where "t = s\<lparr>shared := snd (queue_atomic Pop (shared s)), todo := (todo s)(1 := []),
    history := history s @ [(1, Pop, fst (queue_atomic Pop (shared s)))]\<rparr>"
  have run: "execution queue_enter queue_exec queue_result (start (Ok ?q) ((\<lambda>_. [])(0 := map Push [1], 1 := replicate 1 Pop))) t"
    unfolding t_def s_def [symmetric] by (rule queue_lock.call_execution) (simp_all add: s_def start_def)
  have "q_rep ?q [2]" "q_live ?q 1" by (simp_all add: q_rep_def q_live_def some_item_def)
  then have "\<exists>q' k content. shared t = Ok q' \<and> q_rep q' content \<and> [2] @ take k [1] = popped (history t) @ content"
    using conn_queue_concurrent [OF run, of "[2]"] by (simp add: t_def s_def start_def)
  moreover have "popped (history t) = [2]" by (simp add: t_def s_def start_def conn_queue_pop_def some_item_def)
  ultimately show ?thesis using run by blast
qed

end
