(* ===== verification/Barrier.thy ===== *)
theory Barrier
  imports Threads
begin

text \<open>
  The end of \<open>thread_init\<close> (\<open>threads.c\<close>): the main thread creates the workers and waits on a condition variable until all
  of them have registered. \<open>Threads\<close> takes the registrations as they come and the wait as one test; here every statement of
  \<open>register_thread_initialized\<close> and of the waiting loop is a step of its thread, with the lock and the condition
  variable as POSIX describes them. The main thread returns when all workers have registered, no wake-up is lost
  and there is no deadlock.
\<close>

section \<open>The steps\<close>

datatype who = Main | Worker nat

text \<open>
  The main thread: creating worker \<open>k\<close>, locking, testing the count, waiting, woken but without the lock,
  unlocking, returned.
\<close>

datatype main_pc = M_create nat | M_lock | M_test | M_wait | M_woken | M_unlock | M_done

text \<open>A worker: not created, locking, loading and storing the count, signalling, unlocking, in its event loop.\<close>

datatype worker_pc = W_none | W_lock | W_load | W_store int | W_signal | W_unlock | W_loop

record barrier =
  b_holder :: "who option"
  b_count :: int
  b_main :: main_pc
  b_workers :: "nat \<Rightarrow> worker_pc"

text \<open>
  \<open>pthread_cond_wait\<close> releases the lock and waits in one step; it returns after a signal or spuriously, and
  takes the lock again first. A signal to nobody has no effect.
\<close>

inductive barrier_step :: "nat \<Rightarrow> barrier \<Rightarrow> barrier \<Rightarrow> bool" for n where
  create: "b_main s = M_create k \<Longrightarrow> k < n \<Longrightarrow>
    barrier_step n s (s\<lparr>b_main := M_create (k + 1), b_workers := (b_workers s)(k := W_lock)\<rparr>)"
| created: "b_main s = M_create n \<Longrightarrow> barrier_step n s (s\<lparr>b_main := M_lock\<rparr>)"
| main_lock: "b_main s = M_lock \<Longrightarrow> b_holder s = None \<Longrightarrow> barrier_step n s (s\<lparr>b_main := M_test, b_holder := Some Main\<rparr>)"
| main_wait: "b_main s = M_test \<Longrightarrow> b_count s < int n \<Longrightarrow> barrier_step n s (s\<lparr>b_main := M_wait, b_holder := None\<rparr>)"
| main_pass: "b_main s = M_test \<Longrightarrow> \<not> b_count s < int n \<Longrightarrow> barrier_step n s (s\<lparr>b_main := M_unlock\<rparr>)"
| spurious: "b_main s = M_wait \<Longrightarrow> barrier_step n s (s\<lparr>b_main := M_woken\<rparr>)"
| main_relock: "b_main s = M_woken \<Longrightarrow> b_holder s = None \<Longrightarrow> barrier_step n s (s\<lparr>b_main := M_test, b_holder := Some Main\<rparr>)"
| main_unlock: "b_main s = M_unlock \<Longrightarrow> barrier_step n s (s\<lparr>b_main := M_done, b_holder := None\<rparr>)"
| worker_lock: "b_workers s i = W_lock \<Longrightarrow> b_holder s = None \<Longrightarrow>
    barrier_step n s (s\<lparr>b_workers := (b_workers s)(i := W_load), b_holder := Some (Worker i)\<rparr>)"
| worker_load: "b_workers s i = W_load \<Longrightarrow>
    barrier_step n s (s\<lparr>b_workers := (b_workers s)(i := W_store (b_count s + 1))\<rparr>)"
| worker_store: "b_workers s i = W_store v \<Longrightarrow>
    barrier_step n s (s\<lparr>b_workers := (b_workers s)(i := W_signal), b_count := v\<rparr>)"
| worker_signal: "b_workers s i = W_signal \<Longrightarrow>
    barrier_step n s (s\<lparr>b_workers := (b_workers s)(i := W_unlock), b_main := (if b_main s = M_wait then M_woken else b_main s)\<rparr>)"
| worker_unlock: "b_workers s i = W_unlock \<Longrightarrow>
    barrier_step n s (s\<lparr>b_workers := (b_workers s)(i := W_loop), b_holder := None\<rparr>)"

definition barrier_start :: "world \<Rightarrow> barrier" where
  "barrier_start w = \<lparr>b_holder = None, b_count = init_count w, b_main = M_create 0, b_workers = (\<lambda>_. W_none)\<rparr>"

section \<open>The invariant\<close>

definition registered :: "nat \<Rightarrow> barrier \<Rightarrow> nat set" where
  "registered n s = {i. i < n \<and> b_workers s i \<in> {W_signal, W_unlock, W_loop}}"

fun inside_at :: "barrier \<Rightarrow> who \<Rightarrow> bool" where
  "inside_at s Main \<longleftrightarrow> b_main s \<in> {M_test, M_unlock}"
| "inside_at s (Worker i) \<longleftrightarrow> b_workers s i \<notin> {W_none, W_lock, W_loop}"

definition lock_ok :: "barrier \<Rightarrow> bool" where
  "lock_ok s \<longleftrightarrow> (\<forall>t. b_holder s = Some t \<longleftrightarrow> inside_at s t)"

definition count_inv :: "nat \<Rightarrow> barrier \<Rightarrow> bool" where
  "count_inv n s \<longleftrightarrow>
     b_count s = int (card (registered n s)) \<and> (\<forall>i v. b_workers s i = W_store v \<longrightarrow> v = b_count s + 1)"

fun workers_created :: "nat \<Rightarrow> main_pc \<Rightarrow> nat" where
  "workers_created n (M_create k) = k"
| "workers_created n p = n"

definition created_ok :: "nat \<Rightarrow> barrier \<Rightarrow> bool" where
  "created_ok n s \<longleftrightarrow>
     workers_created n (b_main s) \<le> n \<and> (\<forall>i. b_workers s i \<noteq> W_none \<longleftrightarrow> i < workers_created n (b_main s))"

text \<open>The main thread waits only while a registration or a signal is still to come, and passes only after the last.\<close>

definition wait_ok :: "nat \<Rightarrow> barrier \<Rightarrow> bool" where
  "wait_ok n s \<longleftrightarrow>
     (b_main s \<in> {M_unlock, M_done} \<longrightarrow> int n \<le> b_count s) \<and>
     (b_main s = M_wait \<longrightarrow> b_count s < int n \<or> (\<exists>i. b_workers s i = W_signal))"

definition barrier_inv :: "nat \<Rightarrow> barrier \<Rightarrow> bool" where
  "barrier_inv n s \<longleftrightarrow> lock_ok s \<and> count_inv n s \<and> created_ok n s \<and> wait_ok n s"

lemma all_who: "(\<forall>t. P t) \<longleftrightarrow> P Main \<and> (\<forall>i. P (Worker i))"
  by (metis who.exhaust)

lemma lock_keep:
  assumes "lock_ok s" and "b_holder s' = b_holder s" and "inside_at s' Main = inside_at s Main"
    and "\<And>i. inside_at s' (Worker i) = inside_at s (Worker i)"
  shows "lock_ok s'"
  using assms unfolding lock_ok_def all_who by metis

lemma lock_take:
  assumes "lock_ok s" and "b_holder s = None" and "b_holder s' = Some u" and "inside_at s' Main \<longleftrightarrow> u = Main \<or> inside_at s Main"
    and "\<And>i. inside_at s' (Worker i) \<longleftrightarrow> u = Worker i \<or> inside_at s (Worker i)"
  shows "lock_ok s'"
proof -
  have "\<not> inside_at s t" for t using assms(1,2) by (simp add: lock_ok_def)
  then show ?thesis using assms(3-5) unfolding lock_ok_def all_who by (simp del: inside_at.simps)
qed

lemma lock_drop:
  assumes "lock_ok s" and "inside_at s u" and "b_holder s' = None" and "inside_at s' Main \<longleftrightarrow> u \<noteq> Main \<and> inside_at s Main"
    and "\<And>i. inside_at s' (Worker i) \<longleftrightarrow> u \<noteq> Worker i \<and> inside_at s (Worker i)"
  shows "lock_ok s'"
proof -
  have "inside_at s t \<longleftrightarrow> t = u" for t using assms(1,2) unfolding lock_ok_def by (metis option.inject)
  then show ?thesis using assms(3-5) unfolding lock_ok_def all_who by (auto simp del: inside_at.simps)
qed

lemma start_barrier_inv:
  assumes "init_count w = 0"
  shows "barrier_inv n (barrier_start w)"
proof -
  have "\<not> inside_at (barrier_start w) t" for t by (cases t) (simp_all add: barrier_start_def)
  then have "lock_ok (barrier_start w)" by (simp add: lock_ok_def barrier_start_def)
  then show ?thesis using assms by (simp add: barrier_inv_def barrier_start_def count_inv_def created_ok_def wait_ok_def registered_def)
qed

lemma created_next: "created_ok n s \<Longrightarrow> b_main s = M_create k \<Longrightarrow> b_workers s k = W_none"
  unfolding created_ok_def by (metis less_irrefl workers_created.simps(1))

lemma step_lock_ok:
  assumes "barrier_step n s s'" and "lock_ok s" and "created_ok n s"
  shows "lock_ok s'"
  using assms
proof (induction rule: barrier_step.induct)
  case (create s k)
  then have "b_workers s k = W_none" by (intro created_next)
  then show ?case using create.hyps by (intro lock_keep [OF create.prems(1)]) simp_all
next
  case (main_lock s)
  then show ?case by (intro lock_take [OF main_lock.prems(1), of _ Main]) simp_all
next
  case (main_relock s)
  then show ?case by (intro lock_take [OF main_relock.prems(1), of _ Main]) simp_all
next
  case (main_wait s)
  then show ?case by (intro lock_drop [OF main_wait.prems(1), of Main]) simp_all
next
  case (main_unlock s)
  then show ?case by (intro lock_drop [OF main_unlock.prems(1), of Main]) simp_all
next
  case (worker_lock s i)
  then show ?case by (intro lock_take [OF worker_lock.prems(1), of _ "Worker i"]) auto
next
  case (worker_unlock s i)
  then show ?case by (intro lock_drop [OF worker_unlock.prems(1), of "Worker i"]) auto
qed (erule lock_keep; simp)+

lemma created_keep:
  assumes "created_ok n s" and "workers_created n (b_main s') = workers_created n (b_main s)"
    and "\<And>j. b_workers s' j = W_none \<longleftrightarrow> b_workers s j = W_none"
  shows "created_ok n s'"
  using assms by (simp add: created_ok_def)

lemma step_created_ok: "barrier_step n s s' \<Longrightarrow> created_ok n s \<Longrightarrow> created_ok n s'"
proof (induction rule: barrier_step.induct)
  case (create s k)
  then have "b_workers s i \<noteq> W_none \<longleftrightarrow> i < k" for i by (simp add: created_ok_def)
  then have "((b_workers s)(k := W_lock)) i \<noteq> W_none \<longleftrightarrow> i < Suc k" for i by (cases "i = k") (simp_all add: less_Suc_eq)
  then show ?case using create.hyps by (simp add: created_ok_def)
next
  case (worker_lock s i)
  then show ?case by (intro created_keep [OF worker_lock.prems]) simp_all
next
  case (worker_load s i)
  then show ?case by (intro created_keep [OF worker_load.prems]) simp_all
next
  case (worker_store s i v)
  then show ?case by (intro created_keep [OF worker_store.prems]) simp_all
next
  case (worker_signal s i)
  then show ?case by (intro created_keep [OF worker_signal.prems]) simp_all
next
  case (worker_unlock s i)
  then show ?case by (intro created_keep [OF worker_unlock.prems]) simp_all
qed (simp_all add: created_ok_def)

lemma worker_created: "created_ok n s \<Longrightarrow> b_workers s i \<noteq> W_none \<Longrightarrow> i < n"
  by (auto simp: created_ok_def)

lemma lock_unique: "lock_ok s \<Longrightarrow> inside_at s (Worker i) \<Longrightarrow> inside_at s (Worker j) \<Longrightarrow> i = j"
  unfolding lock_ok_def by (metis option.inject who.inject)

lemma registered_finite [simp]: "finite (registered n s)"
  by (simp add: registered_def)

lemma registered_keep:
  assumes "\<And>i. b_workers s' i \<in> {W_signal, W_unlock, W_loop} \<longleftrightarrow> b_workers s i \<in> {W_signal, W_unlock, W_loop}"
  shows "registered n s' = registered n s"
  using assms by (auto simp: registered_def)

lemma count_keep: "count_inv n s \<Longrightarrow> b_workers s' = b_workers s \<Longrightarrow> b_count s' = b_count s \<Longrightarrow> count_inv n s'"
  unfolding count_inv_def registered_def by metis

lemma step_count_inv:
  assumes "barrier_step n s s'" and "lock_ok s" and "count_inv n s" and "created_ok n s"
  shows "count_inv n s'"
  using assms
proof (induction rule: barrier_step.induct)
  case (worker_store s i v)
  let ?s = "s\<lparr>b_workers := (b_workers s)(i := W_signal), b_count := v\<rparr>"
  have i: "i < n" using worker_created [OF worker_store.prems(3), of i] worker_store.hyps by simp
  have "registered n ?s = insert i (registered n s)" "i \<notin> registered n s"
    using i worker_store.hyps by (auto simp: registered_def)
  moreover have "v = b_count s + 1" "b_count s = int (card (registered n s))" using worker_store unfolding count_inv_def by blast+
  ultimately have "int (card (registered n ?s)) = v" by simp
  moreover have "b_workers ?s j \<noteq> W_store u" for j u
  proof
    assume a: "b_workers ?s j = W_store u"
    then have "b_workers s j = W_store u" "j \<noteq> i" by (auto split: if_splits)
    then show False using lock_unique [OF worker_store.prems(1), of i j] worker_store.hyps by simp
  qed
  ultimately show ?case by (simp add: count_inv_def)
next
  case (worker_load s i)
  have "registered n (s\<lparr>b_workers := (b_workers s)(i := W_store (b_count s + 1))\<rparr>) = registered n s"
    using worker_load.hyps by (intro registered_keep) simp
  then show ?case using worker_load by (auto simp: count_inv_def)
next
  case (create s k)
  have "registered n (s\<lparr>b_main := M_create (k + 1), b_workers := (b_workers s)(k := W_lock)\<rparr>) = registered n s"
    using created_next [OF create.prems(3) create.hyps(1)] by (intro registered_keep) simp
  then show ?case using create by (auto simp: count_inv_def)
next
  case (worker_lock s i)
  have "registered n (s\<lparr>b_workers := (b_workers s)(i := W_load), b_holder := Some (Worker i)\<rparr>) = registered n s"
    using worker_lock.hyps by (intro registered_keep) simp
  then show ?case using worker_lock by (auto simp: count_inv_def)
next
  case (worker_signal s i)
  have "registered n (s\<lparr>b_workers := (b_workers s)(i := W_unlock), b_main := (if b_main s = M_wait then M_woken else b_main s)\<rparr>) = registered n s"
    using worker_signal.hyps by (intro registered_keep) simp
  then show ?case using worker_signal by (auto simp: count_inv_def)
next
  case (worker_unlock s i)
  have "registered n (s\<lparr>b_workers := (b_workers s)(i := W_loop), b_holder := None\<rparr>) = registered n s"
    using worker_unlock.hyps by (intro registered_keep) simp
  then show ?case using worker_unlock by (auto simp: count_inv_def)
qed (erule count_keep; simp)+

lemma wait_keep:
  assumes "wait_ok n s" and "b_count s' = b_count s" and "b_main s' = b_main s"
    and "\<And>j. b_workers s j = W_signal \<Longrightarrow> b_workers s' j = W_signal"
  shows "wait_ok n s'"
  using assms unfolding wait_ok_def by metis

lemma step_wait_ok:
  assumes "barrier_step n s s'" and "lock_ok s" and "count_inv n s" and "wait_ok n s"
  shows "wait_ok n s'"
  using assms
proof (induction rule: barrier_step.induct)
  case (worker_store s i v)
  then have "v = b_count s + 1" unfolding count_inv_def by blast
  then show ?case using worker_store by (auto simp: wait_ok_def)
next
  case (worker_signal s i)
  then have "b_workers s j \<noteq> W_signal" if "j \<noteq> i" for j
    using lock_unique [OF worker_signal.prems(1), of i j] that by auto
  then show ?case using worker_signal by (auto simp: wait_ok_def)
next
  case (worker_lock s i)
  then show ?case by (intro wait_keep [OF worker_lock.prems(3)]) auto
next
  case (worker_load s i)
  then show ?case by (intro wait_keep [OF worker_load.prems(3)]) auto
next
  case (worker_unlock s i)
  then show ?case by (intro wait_keep [OF worker_unlock.prems(3)]) auto
qed (auto simp: wait_ok_def)

lemma step_barrier_inv: "barrier_step n s s' \<Longrightarrow> barrier_inv n s \<Longrightarrow> barrier_inv n s'"
  unfolding barrier_inv_def using step_lock_ok step_count_inv step_created_ok step_wait_ok by blast

lemma reachable_barrier_inv:
  assumes "(barrier_step n)\<^sup>*\<^sup>* (barrier_start w) s" and "init_count w = 0"
  shows "barrier_inv n s"
  using assms by (induction rule: rtranclp_induct) (auto intro: start_barrier_inv step_barrier_inv)

section \<open>Progress\<close>

fun worker_rank :: "worker_pc \<Rightarrow> nat" where
  "worker_rank W_none = 6" | "worker_rank W_lock = 5" | "worker_rank W_load = 4" | "worker_rank (W_store v) = 3"
| "worker_rank W_signal = 2" | "worker_rank W_unlock = 1" | "worker_rank W_loop = 0"

fun main_rank :: "nat \<Rightarrow> main_pc \<Rightarrow> nat" where
  "main_rank n (M_create k) = 6 + (n - k)" | "main_rank n M_lock = 5" | "main_rank n M_woken = 4" | "main_rank n M_test = 3"
| "main_rank n M_unlock = 1" | "main_rank n M_wait = 0" | "main_rank n M_done = 0"

text \<open>The steps left: a signal can send the main thread around its loop once more.\<close>

definition barrier_left :: "nat \<Rightarrow> barrier \<Rightarrow> nat" where
  "barrier_left n s = 5 * (\<Sum>i < n. worker_rank (b_workers s i)) + main_rank n (b_main s)"

lemma sum_worker:
  fixes n :: nat
  assumes "i < n" and "worker_rank p < worker_rank (f i)"
  shows "(\<Sum>j < n. worker_rank ((f(i := p)) j)) < (\<Sum>j < n. worker_rank (f j))"
proof -
  have rem: "(\<Sum>j < n. g j) = g i + (\<Sum>j \<in> {..<n} - {i}. g j)" for g :: "nat \<Rightarrow> nat"
    using assms(1) by (simp add: sum.remove)
  have "(\<Sum>j < n. worker_rank ((f(i := p)) j)) = worker_rank p + (\<Sum>j \<in> {..<n} - {i}. worker_rank (f j))"
    "(\<Sum>j < n. worker_rank (f j)) = worker_rank (f i) + (\<Sum>j \<in> {..<n} - {i}. worker_rank (f j))"
    using rem [of "\<lambda>j. worker_rank ((f(i := p)) j)"] rem [of "\<lambda>j. worker_rank (f j)"] by simp_all
  then show ?thesis using assms(2) by simp
qed

lemma step_barrier_left:
  assumes "barrier_step n s s'" and "created_ok n s"
  shows "barrier_left n s' < barrier_left n s \<or> b_main s = M_wait \<and> s' = s\<lparr>b_main := M_woken\<rparr>"
proof -
  have less: "(\<Sum>j < n. worker_rank (((b_workers s)(i := p)) j)) < (\<Sum>j < n. worker_rank (b_workers s j))"
    if "b_workers s i \<noteq> W_none" "worker_rank p < worker_rank (b_workers s i)" for i p
    using sum_worker [of i n p "b_workers s"] worker_created [OF assms(2) that(1)] that(2) by simp
  show ?thesis using assms(1)
  proof cases
    case (create k)
    then have "b_workers s k = W_none" using assms(2) by (intro created_next)
    then have "(\<Sum>j < n. worker_rank (((b_workers s)(k := W_lock)) j)) < (\<Sum>j < n. worker_rank (b_workers s j))"
      using sum_worker [of k n W_lock "b_workers s"] create(3) by simp
    then show ?thesis using create by (simp add: barrier_left_def)
  next
    case (worker_lock i)
    then show ?thesis using less [of i W_load] by (simp add: barrier_left_def)
  next
    case (worker_load i)
    then show ?thesis using less [of i "W_store (b_count s + 1)"] by (simp add: barrier_left_def)
  next
    case (worker_store i v)
    then show ?thesis using less [of i W_signal] by (simp add: barrier_left_def)
  next
    case (worker_signal i)
    then show ?thesis using less [of i W_unlock] by (simp add: barrier_left_def)
  next
    case (worker_unlock i)
    then show ?thesis using less [of i W_loop] by (simp add: barrier_left_def)
  qed (simp_all add: barrier_left_def)
qed

lemma barrier_not_stuck:
  assumes "barrier_inv n s" and "b_main s \<noteq> M_done"
  shows "\<exists>s'. barrier_step n s s' \<and> \<not> (b_main s = M_wait \<and> s' = s\<lparr>b_main := M_woken\<rparr>)"
proof (cases "b_holder s")
  case None
  then have out: "\<not> inside_at s t" for t using assms(1) by (simp add: barrier_inv_def lock_ok_def)
  show ?thesis
  proof (cases "b_main s")
    case (M_create k)
    then have "k \<le> n" using assms(1) by (simp add: barrier_inv_def created_ok_def)
    then show ?thesis using M_create barrier_step.create [of s k n] barrier_step.created [of s n] by (cases "k = n") force+
  next
    case M_lock
    then show ?thesis using barrier_step.main_lock [OF _ None] by auto
  next
    case M_woken
    then show ?thesis using barrier_step.main_relock [OF _ None] by auto
  next
    case M_wait
    have "\<not> b_workers s i = W_signal" for i using out [of "Worker i"] by auto
    then have "b_count s < int n" using assms(1) M_wait by (auto simp: barrier_inv_def wait_ok_def)
    then have "card (registered n s) < n" using assms(1) by (simp add: barrier_inv_def count_inv_def)
    then have "registered n s \<noteq> {..<n}" by (metis card_lessThan less_irrefl)
    then obtain i where i: "i < n" "i \<notin> registered n s" by (auto simp: registered_def)
    then have "b_workers s i = W_lock"
      using out [of "Worker i"] assms(1) M_wait by (auto simp: registered_def barrier_inv_def created_ok_def)
    note step = barrier_step.worker_lock [OF this None, of n]
    let ?s = "s\<lparr>b_workers := (b_workers s)(i := W_load), b_holder := Some (Worker i)\<rparr>"
    have "b_holder ?s \<noteq> b_holder (s\<lparr>b_main := M_woken\<rparr>)" using None by simp
    then have "?s \<noteq> s\<lparr>b_main := M_woken\<rparr>" by metis
    then show ?thesis using step by blast
  qed (use out [of Main] assms(2) in auto)
next
  case (Some t)
  then have t: "inside_at s t" using assms(1) unfolding barrier_inv_def lock_ok_def by blast
  show ?thesis
  proof (cases t)
    case Main
    then show ?thesis using t barrier_step.main_wait [of s n] barrier_step.main_pass [of s n] barrier_step.main_unlock [of s n]
      by (cases "b_count s < int n") auto
  next
    case (Worker i)
    have neq: "s' \<noteq> s\<lparr>b_main := M_woken\<rparr>" if "b_workers s' i \<noteq> b_workers s i" for s' using that by auto
    show ?thesis
    proof (cases "b_workers s i")
      case W_load
      from barrier_step.worker_load [OF this, of n] show ?thesis using neq W_load by fastforce
    next
      case (W_store v)
      from barrier_step.worker_store [OF this, of n] show ?thesis using neq W_store by fastforce
    next
      case W_signal
      from barrier_step.worker_signal [OF this, of n] show ?thesis using neq W_signal by fastforce
    next
      case W_unlock
      from barrier_step.worker_unlock [OF this, of n] show ?thesis using neq W_unlock by fastforce
    qed (use t Worker in auto)
  qed
qed

lemma register_all: "init_count ((register_thread_initialized ^^ n) w) = init_count w + int n"
  by (induction n) (simp_all add: register_thread_initialized_def)

section \<open>Properties\<close>

text \<open>
  C19. \<open>thread_init\<close> waits for its workers and is not left waiting. In every interleaving of the statements of the main
  thread and of the \<open>n\<close> workers, with spurious wake-ups: when the main thread has returned, every worker has
  registered, and the count is the one that the model of \<open>thread_init\<close> arrives at; until then some
  thread can go on, so no wake-up is lost; and every step that is not a spurious wake-up leaves fewer steps to do, so
  the main thread does return.
\<close>

theorem thread_init_barrier:
  assumes "(barrier_step n)\<^sup>*\<^sup>* (barrier_start w) s" and "init_count w = 0"
  shows "(b_main s = M_done \<longrightarrow>
      (\<forall>i < n. b_workers s i \<in> {W_signal, W_unlock, W_loop}) \<and> b_count s = init_count ((register_thread_initialized ^^ n) w)) \<and>
    (b_main s \<noteq> M_done \<longrightarrow> (\<exists>s'. barrier_step n s s' \<and> barrier_left n s' < barrier_left n s)) \<and>
    (\<forall>s'. barrier_step n s s' \<longrightarrow> barrier_left n s' < barrier_left n s \<or> b_main s = M_wait \<and> s' = s\<lparr>b_main := M_woken\<rparr>)"
proof -
  have inv: "barrier_inv n s" using reachable_barrier_inv [OF assms] .
  then have less: "barrier_left n s' < barrier_left n s \<or> b_main s = M_wait \<and> s' = s\<lparr>b_main := M_woken\<rparr>" if "barrier_step n s s'" for s'
    using step_barrier_left [OF that] by (simp add: barrier_inv_def)
  have fin: "registered n s = {..<n}" if "b_main s = M_done"
  proof (rule card_subset_eq)
    have "int n \<le> b_count s" "b_count s = int (card (registered n s))"
      using inv that by (simp_all add: barrier_inv_def wait_ok_def count_inv_def)
    moreover have "card (registered n s) \<le> card {..<n}" by (rule card_mono) (auto simp: registered_def)
    ultimately show "card (registered n s) = card {..<n}" by simp
  qed (auto simp: registered_def)
  then have "b_count s = int n" if "b_main s = M_done" using that inv by (simp add: barrier_inv_def count_inv_def)
  moreover have "\<forall>i < n. b_workers s i \<in> {W_signal, W_unlock, W_loop}" if "b_main s = M_done"
    using fin [OF that] unfolding registered_def by blast
  ultimately show ?thesis using less barrier_not_stuck [OF inv] assms(2) by (metis register_all add_0)
qed

theorem thread_init_barrier_witness:
  "\<exists>w s'. init_count w = 0 \<and> barrier_step 2 (barrier_start w) s' \<and> barrier_left 2 s' < barrier_left 2 (barrier_start w)"
proof -
  have "init_count world0 = 0" by (simp add: world0_def)
  with thread_init_barrier [of 2 world0 "barrier_start world0"] show ?thesis
    by (intro exI [of _ world0]) (simp add: barrier_start_def)
qed

end
