(* ===== verification/Races.thy ===== *)
theory Races
  imports Stats
begin

text \<open>
  \<open>get_client_stats\<close> (\<open>stats.c\<close>) takes no lock: the mutex of \<open>statistics\<close> is initialised and never used, although every
  worker thread calls it for its new connections. Here it is a sequence of statements. Run alone, as with the default of
  one worker, they have the effect of the function of \<open>Stats\<close>; two threads at once can lose a client.
\<close>

section \<open>The statements\<close>

text \<open>
  Loading the head of the chain, the loop, the increment of the count, and making and linking a new object. \<open>ok\<close> says
  whether \<open>calloc\<close> succeeds; its result is used unchecked.
\<close>

datatype lookup_pc =
    L_head | L_walk "addr option" | L_incr addr | L_alloc | L_link addr | L_store addr | L_return addr

fun lookup_stmt :: "bool \<Rightarrow> int \<Rightarrow> lookup_pc \<Rightarrow> statistics \<Rightarrow> (lookup_pc \<times> statistics) res" where
  "lookup_stmt ok i L_head s =
     (if in_map s i then Ok (L_walk (st_map s (hash_key s i)), s) else Err OutOfBounds)"
| "lookup_stmt ok i (L_walk None) s = Ok (L_alloc, s)"
| "lookup_stmt ok i (L_walk (Some a)) s =
     (case st_heap s a of
        None \<Rightarrow> Err NullDeref
      | Some n \<Rightarrow> Ok (if cs_client_id n \<noteq> i then L_walk (cs_next n) else L_incr a, s))"
| "lookup_stmt ok i (L_incr a) s =
     (case st_heap s a of
        None \<Rightarrow> Err NullDeref
      | Some n \<Rightarrow> Ok (L_return a, s\<lparr>st_heap := (st_heap s)(a \<mapsto> n\<lparr>cs_refcnt := refcount_incr (cs_refcnt n)\<rparr>)\<rparr>))"
| "lookup_stmt ok i L_alloc s =
     (if \<not> ok then Err NullDeref
      else Ok (L_link (st_fresh s),
         s\<lparr>st_heap := (st_heap s)(st_fresh s \<mapsto>
             \<lparr>cs_refcnt = 2, cs_next = None, cs_client_id = i, total_connections = 0, live_connections = 0, requests = 0\<rparr>),
           st_fresh := Suc (st_fresh s)\<rparr>))"
| "lookup_stmt ok i (L_link a) s =
     (case st_heap s a of
        None \<Rightarrow> Err NullDeref
      | Some n \<Rightarrow> Ok (L_store a, s\<lparr>st_heap := (st_heap s)(a \<mapsto> n\<lparr>cs_next := st_map s (hash_key s i)\<rparr>)\<rparr>))"
| "lookup_stmt ok i (L_store a) s = Ok (L_return a, s\<lparr>st_map := (st_map s)(hash_key s i := Some a)\<rparr>)"
| "lookup_stmt ok i (L_return a) s = Ok (L_return a, s)"

text \<open>One thread, and two threads that look up \<open>i\<close> and \<open>j\<close>.\<close>

inductive lookup_alone :: "int \<Rightarrow> lookup_pc \<times> statistics \<Rightarrow> lookup_pc \<times> statistics \<Rightarrow> bool" for i where
  step: "lookup_stmt ok i p s = Ok (p', s') \<Longrightarrow> lookup_alone i (p, s) (p', s')"

inductive lookup_race :: "int \<Rightarrow> int \<Rightarrow> lookup_pc \<times> lookup_pc \<times> statistics \<Rightarrow> lookup_pc \<times> lookup_pc \<times> statistics \<Rightarrow> bool" for i j where
  first: "lookup_stmt ok i p s = Ok (p', s') \<Longrightarrow> lookup_race i j (p, q, s) (p', q, s')"
| second: "lookup_stmt ok j q s = Ok (q', s') \<Longrightarrow> lookup_race i j (p, q, s) (p, q', s')"

lemma one_first: "(lookup_alone i)\<^sup>*\<^sup>* x y \<Longrightarrow> (lookup_race i j)\<^sup>*\<^sup>* (fst x, q, snd x) (fst y, q, snd y)"
proof (induction rule: rtranclp_induct)
  case (step y z)
  from step(2) have "lookup_race i j (fst y, q, snd y) (fst z, q, snd z)" by cases (simp add: lookup_race.first)
  then show ?case using step.IH by (rule rtranclp.rtrancl_into_rtrancl [rotated])
qed simp

lemma one_second: "(lookup_alone j)\<^sup>*\<^sup>* x y \<Longrightarrow> (lookup_race i j)\<^sup>*\<^sup>* (p, fst x, snd x) (p, fst y, snd y)"
proof (induction rule: rtranclp_induct)
  case (step y z)
  from step(2) have "lookup_race i j (p, fst y, snd y) (p, fst z, snd z)" by cases (simp add: lookup_race.second)
  then show ?case using step.IH by (rule rtranclp.rtrancl_into_rtrancl [rotated])
qed simp

lemma one_then: "lookup_stmt ok i p s = Ok (p', s') \<Longrightarrow> (lookup_alone i)\<^sup>*\<^sup>* (p', s') y \<Longrightarrow> (lookup_alone i)\<^sup>*\<^sup>* (p, s) y"
  by (blast intro: lookup_alone.step converse_rtranclp_into_rtranclp)

section \<open>One thread\<close>

lemma walk:
  assumes "chain (st_heap s) p as"
  shows "(lookup_alone i)\<^sup>*\<^sup>* (L_walk p, s)
    (case List.find (\<lambda>a. id_at (st_heap s) a = i) as of None \<Rightarrow> L_alloc | Some a \<Rightarrow> L_incr a, s)"
  using assms
proof (induction as arbitrary: p)
  case Nil
  then have "lookup_alone i (L_walk p, s) (L_alloc, s)" by (simp add: lookup_alone.step)
  then show ?case by simp
next
  case (Cons a as)
  then obtain n where n: "p = Some a" "st_heap s a = Some n" "chain (st_heap s) (cs_next n) as" by (auto split: option.splits)
  show ?case
  proof (cases "cs_client_id n = i")
    case True
    then have "lookup_alone i (L_walk p, s) (L_incr a, s)" using n by (simp add: lookup_alone.step)
    then show ?thesis using True n(2) by (simp add: id_at_def)
  next
    case False
    then have "lookup_stmt ok i (L_walk p) s = Ok (L_walk (cs_next n), s)" using n by simp
    from one_then [OF this Cons.IH [OF n(3)]] show ?thesis using False n(2) by (simp add: id_at_def)
  qed
qed

text \<open>Up to the point where it is decided whether the client is there.\<close>

lemma search:
  assumes "stats_inv s" and "in_map s i"
  shows "(lookup_alone i)\<^sup>*\<^sup>* (L_head, s) (case lookup s i of None \<Rightarrow> L_alloc | Some a \<Rightarrow> L_incr a, s)"
proof -
  obtain as where as: "bucket_ok s (hash_key s i) as" using stats_inv_bucket [OF assms] .
  have "lookup_stmt ok i L_head s = Ok (L_walk (st_map s (hash_key s i)), s)" using assms(2) by simp
  from one_then [OF this walk] as show ?thesis by (simp add: bucket_ok_def lookup_bucket [OF as])
qed

text \<open>A new object that is linked to the chain but not yet in the map.\<close>

definition linked :: "statistics \<Rightarrow> int \<Rightarrow> statistics" where
  "linked s i =
     s\<lparr>st_heap := (st_heap s)(st_fresh s \<mapsto>
         \<lparr>cs_refcnt = 2, cs_next = st_map s (hash_key s i), cs_client_id = i, total_connections = 0, live_connections = 0, requests = 0\<rparr>),
       st_fresh := Suc (st_fresh s)\<rparr>"

lemma make: "(lookup_alone i)\<^sup>*\<^sup>* (L_alloc, s) (L_store (st_fresh s), linked s i)"
proof (rule one_then [where ok = True], simp, rule one_then [where ok = True])
  let ?s = "s\<lparr>st_heap := (st_heap s)(st_fresh s \<mapsto>
      \<lparr>cs_refcnt = 2, cs_next = None, cs_client_id = i, total_connections = 0, live_connections = 0, requests = 0\<rparr>),
    st_fresh := Suc (st_fresh s)\<rparr>"
  show "lookup_stmt True i (L_link (st_fresh s)) ?s = Ok (L_store (st_fresh s), linked s i)"
    by (cases s) (simp add: linked_def hash_key_def)
qed simp

lemma linked_sel [simp]:
  "st_map (linked s i) = st_map s" "st_fresh (linked s i) = Suc (st_fresh s)" "map_size (linked s i) = map_size s"
  "hash_key (linked s i) = hash_key s" "in_map (linked s i) = in_map s"
  by (simp_all add: linked_def)

lemma linked_bucket:
  assumes "bucket_ok s k as"
  shows "bucket_ok (linked s i) k as \<and> (\<forall>a \<in> set as. id_at (st_heap (linked s i)) a = id_at (st_heap s) a)"
proof -
  have "st_fresh s \<notin> set as" using bucket_fresh [OF assms] .
  then have same: "\<forall>a \<in> set as. id_at (st_heap (linked s i)) a = id_at (st_heap s) a" by (auto simp: linked_def id_at_def)
  then have ids: "map (id_at (st_heap (linked s i))) as = map (id_at (st_heap s)) as" by simp
  moreover have "chain (st_heap (linked s i)) (st_map s k) as = chain (st_heap s) (st_map s k) as"
    using \<open>st_fresh s \<notin> set as\<close> by (simp add: linked_def chain_fun_upd del: fun_upd_apply)
  ultimately show ?thesis using assms same unfolding bucket_ok_def by (simp add: less_SucI del: map_eq_conv)
qed

lemma linked_inv:
  assumes "stats_inv s"
  shows "stats_inv (linked s i)"
proof -
  have "\<exists>as. bucket_ok (linked s i) k as" if "0 \<le> k" "k < map_size s" for k
    using that assms linked_bucket by (metis stats_inv_def)
  moreover have "st_heap (linked s i) a = None" if "Suc (st_fresh s) \<le> a" for a
    using that assms by (simp add: linked_def stats_inv_def)
  ultimately show ?thesis using assms by (auto simp: stats_inv_def)
qed

lemma linked_lookup:
  assumes "stats_inv s" and "in_map s j"
  shows "lookup (linked s i) j = lookup s j"
proof -
  obtain as where as: "bucket_ok s (hash_key s j) as" using stats_inv_bucket [OF assms] .
  note l = linked_bucket [OF as, of i]
  then have "bucket_ok (linked s i) (hash_key (linked s i) j) as" by simp
  from lookup_bucket [OF this] lookup_bucket [OF as] l show ?thesis by (auto intro: find_cong)
qed

lemma linked_insert: "insert_node s i = (linked s i)\<lparr>st_map := (st_map s)(hash_key s i := Some (st_fresh s))\<rparr>"
  by (simp add: insert_node_def linked_def)

text \<open>
  As long as only one thread runs \<open>get_client_stats\<close>, its statements one after another do what the function does that
  the other theorems are about: they return the same object and leave the same map and the same objects.
\<close>

lemma get_client_stats_alone:
  assumes "stats_inv s" and "get_client_stats e s i = Ok (a, e', s')"
  shows "(lookup_alone i)\<^sup>*\<^sup>* (L_head, s) (L_return a, s')"
  using assms
proof (cases rule: get_client_stats_cases)
  case (hit n)
  have "lookup_stmt ok i (L_incr a) s = Ok (L_return a, s')" using hit by simp
  moreover have "(lookup_alone i)\<^sup>*\<^sup>* (L_head, s) (L_incr a, s)" using search [OF assms(1) hit(1)] hit(2) by simp
  ultimately show ?thesis by (blast intro: rtranclp.rtrancl_into_rtrancl lookup_alone.step)
next
  case miss
  have "lookup_stmt ok i (L_store a) (linked s i) = Ok (L_return a, s')" using miss by (simp add: linked_insert)
  moreover have "(lookup_alone i)\<^sup>*\<^sup>* (L_head, s) (L_store a, linked s i)"
    using search [OF assms(1) miss(1)] miss(2,3) rtranclp_trans [OF _ make [of i s]] by simp
  ultimately show ?thesis by (blast intro: rtranclp.rtrancl_into_rtrancl lookup_alone.step)
qed

section \<open>Properties\<close>

text \<open>
  C38. Two threads that look up clients of the same bucket which are not there yet can lose one of them: there is an
  interleaving after which both calls have returned, with different objects, and the object that the first was given is
  not in the map. When the clients differ, the first is not found again; when both are the same client, its
  connections are counted in two objects.
\<close>

theorem get_client_stats_race:
  assumes "stats_inv s" and "in_map s i" and "in_map s j" and "hash_key s i = hash_key s j" and "lookup s i = None" and "lookup s j = None"
  shows "\<exists>a b s'. (lookup_race i j)\<^sup>*\<^sup>* (L_head, L_head, s) (L_return a, L_return b, s') \<and> a \<noteq> b \<and> stats_inv s' \<and>
    lookup s' j = Some b \<and> (i \<noteq> j \<longrightarrow> lookup s' i = None)"
proof -
  let ?a = "st_fresh s" and ?b = "Suc (st_fresh s)" and ?l = "linked s i"
  have l: "stats_inv ?l" "in_map ?l i" "in_map ?l j" "lookup ?l i = None" "lookup ?l j = None"
    using linked_inv linked_lookup assms by simp_all
  have "(lookup_race i j)\<^sup>*\<^sup>* (L_head, L_head, s) (L_alloc, L_head, s)"
    using one_first [OF search [OF assms(1,2)]] assms(5) by simp
  also have "(lookup_race i j)\<^sup>*\<^sup>* (L_alloc, L_head, s) (L_store ?a, L_head, ?l)" using one_first [OF make [of i s]] by simp
  also have "(lookup_race i j)\<^sup>*\<^sup>* (L_store ?a, L_head, ?l) (L_store ?a, L_alloc, ?l)"
    using one_second [OF search [OF l(1,3)]] l(5) by simp
  also have "(lookup_race i j)\<^sup>*\<^sup>* (L_store ?a, L_alloc, ?l) (L_store ?a, L_store ?b, linked ?l j)"
    using one_second [OF make [of j ?l]] by simp
  also have "(lookup_race i j)\<^sup>*\<^sup>* (L_store ?a, L_store ?b, linked ?l j)
      (L_return ?a, L_store ?b, (linked ?l j)\<lparr>st_map := (st_map s)(hash_key s i := Some ?a)\<rparr>)"
    by (rule r_into_rtranclp, rule lookup_race.first) simp
  also have "(lookup_race i j)\<^sup>*\<^sup>* (L_return ?a, L_store ?b, (linked ?l j)\<lparr>st_map := (st_map s)(hash_key s i := Some ?a)\<rparr>)
      (L_return ?a, L_return ?b, insert_node ?l j)"
    by (rule r_into_rtranclp, rule lookup_race.second) (simp add: linked_insert assms(4))
  finally have run: "(lookup_race i j)\<^sup>*\<^sup>* (L_head, L_head, s) (L_return ?a, L_return ?b, insert_node ?l j)" .
  moreover have "stats_inv (insert_node ?l j)" using stats_inv_insert [OF l(1,3,5)] .
  moreover have "lookup (insert_node ?l j) j = Some ?b" "i \<noteq> j \<longrightarrow> lookup (insert_node ?l j) i = None"
    using lookup_insert [OF l(1,3) _ l(5)] l by simp_all
  ultimately show ?thesis by (intro exI [of _ ?a] exI [of _ ?b] exI [of _ "insert_node ?l j"]) simp
qed

theorem get_client_stats_race_witness:
  "\<exists>a b s'. (lookup_race 5 1000005)\<^sup>*\<^sup>* (L_head, L_head, new_stats) (L_return a, L_return b, s') \<and> a \<noteq> b \<and> lookup s' 5 = None"
proof -
  have "in_map new_stats i" if "0 \<le> i" for i using in_map_nonneg [OF stats_inv_new that] .
  moreover have "lookup new_stats i = None" for i by (simp add: lookup_def new_stats_def find_cs.simps)
  moreover have "hash_key new_stats 5 = hash_key new_stats 1000005" by (simp add: hash_key_def new_stats_def STATS_HASH_MAP_SIZE_def)
  ultimately show ?thesis using get_client_stats_race [OF stats_inv_new, of 5 1000005] by auto
qed

end
