(* ===== verification/Startup.thy ===== *)
theory Startup
  imports Server
begin

text \<open>
  From the command line to the event loop: with memory, libevent and threads available and at least one address to listen
  on, \<open>main\<close> (\<open>server.c\<close>) reaches the event loop, in the state in which the theorems about the hand-over of connections
  and about clients start. Backends that cannot be reached do not matter.
\<close>

section \<open>Settings\<close>

definition settings_kept :: "env \<Rightarrow> settings \<Rightarrow> env \<Rightarrow> settings \<Rightarrow> bool" where
  "settings_kept e s e' s' \<longleftrightarrow>
     same_oracle e e' \<and> (mem_ok e \<longrightarrow> mem_ok e') \<and> s_stats s' = s_stats s \<and>
     (hosts (s_backends s) \<noteq> None \<longrightarrow> hosts (s_backends s') \<noteq> None)"

lemma settings_kept_trans:
  "settings_kept e s e' s' \<Longrightarrow> settings_kept e' s' e'' s'' \<Longrightarrow> settings_kept e s e'' s''"
  by (simp add: settings_kept_def same_oracle_def)

lemma settings_opt_kept: "settings_opt atof e c a s = Ok (ok, e', s') \<Longrightarrow> settings_kept e s e' s'"
  by (auto simp: settings_opt_def settings_kept_def same_oracle_def add_backend_def alloc_def mem_ok_def bindR_eq_Ok
      split: if_splits option.splits)

lemma settings_parse_kept: "settings_parse atof e opts s = Ok (True, e', s') \<Longrightarrow> settings_kept e s e' s'"
proof (induction opts arbitrary: e s)
  case Nil
  then show ?case by (simp add: settings_kept_def same_oracle_def)
next
  case (Cons x opts)
  obtain c a where x: "x = (c, a)" by fastforce
  with Cons.prems obtain ok e1 s1 where s: "settings_opt atof e c a s = Ok (ok, e1, s1)"
    "(if ok then settings_parse atof e1 opts s1 else Ok (False, e1, s1)) = Ok (True, e', s')"
    by auto
  then have "settings_parse atof e1 opts s1 = Ok (True, e', s')" by (cases ok) simp_all
  from settings_kept_trans [OF settings_opt_kept [OF s(1)] Cons.IH [OF this]] show ?case .
qed

section \<open>Test users\<close>

lemma test_data_new:
  assumes "stats_inv s" and "mem_ok e" and "\<forall>k. 0 \<le> rands e k" and "stat_test_data n e s = Ok (e', s')"
  shows "mem_ok e' \<and> same_oracle e e' \<and> (\<forall>b m. st_heap s' b = Some m \<longrightarrow> st_heap s b = Some m \<or> st_heap s b = None \<and> cs_refcnt m = 1)"
  using assms
proof (induction n arbitrary: e s)
  case (Suc n)
  define e1 where "e1 = e\<lparr>nrand := Suc (nrand e)\<rparr>"
  have e1: "mem_ok e1" "rands e1 = rands e" "event_ok e1 = event_ok e" using Suc.prems by (simp_all add: e1_def mem_ok_def)
  obtain a e2 s1 m s2 where r: "get_client_stats e1 s (rands e (nrand e)) = Ok (a, e2, s1)" "st_heap s1 a = Some m"
    "s2 = s1\<lparr>st_heap := (st_heap s1)(a \<mapsto> m\<lparr>cs_refcnt := refcount_decr (cs_refcnt m)\<rparr>)\<rparr>" "stats_inv s2" "mem_ok e2" "rands e2 = rands e1"
    using test_data_round [OF Suc.prems(1) e1(1) spec [OF Suc.prems(3), of "nrand e"]] by (elim exE conjE) (rule that)
  have run: "stat_test_data n e2 s2 = Ok (e', s')" using Suc.prems(4) r(1-3) by (simp add: rand_def e1_def)
  have o: "same_oracle e1 e2" using get_client_stats_oracle [OF r(1)] .
  have ih: "mem_ok e'" "same_oracle e2 e'" "\<forall>b m. st_heap s' b = Some m \<longrightarrow> st_heap s2 b = Some m \<or> st_heap s2 b = None \<and> cs_refcnt m = 1"
    using Suc.IH [OF r(4,5) _ run] r(6) e1(2) Suc.prems(3) by auto
  have "st_heap s2 b = st_heap s b \<or> st_heap s b = None \<and> (\<exists>m. st_heap s2 b = Some m \<and> cs_refcnt m = 1)" for b
    using Suc.prems(1) r(1)
  proof (cases rule: get_client_stats_cases)
    case (hit k)
    then show ?thesis using r(2,3) by auto
  next
    case miss
    have "st_heap s (st_fresh s) = None" using Suc.prems(1) by (simp add: stats_inv_def)
    then show ?thesis using r(2,3) miss by (auto simp: insert_node_def refcount_decr_def)
  qed
  then have "\<forall>b m. st_heap s' b = Some m \<longrightarrow> st_heap s b = Some m \<or> st_heap s b = None \<and> cs_refcnt m = 1"
    using ih(3) by (metis option.distinct(1) option.inject)
  then show ?case using ih(1,2) o e1 by (simp add: same_oracle_def)
qed (simp add: same_oracle_def)

lemma starting_test_data:
  assumes st: "starting k w" and k: "k < 65530"
  shows "\<exists>e s. stat_test_data n (w_env w) (w_stats w) = Ok (e, s) \<and> starting k (set_stats s (w\<lparr>w_env := e\<rparr>))"
proof -
  have w: "world_inv w" "stats_inv (w_stats w)" "refs_inv (w_conns w) (st_heap (w_stats w))" "mem_ok (w_env w)" "room k (w_stats w)"
    "\<forall>j. event_ok (w_env w) j" "\<forall>j. 0 \<le> rands (w_env w) j"
    using st by (simp_all add: starting_def world_inv_def)
  obtain e s where t: "stat_test_data n (w_env w) (w_stats w) = Ok (e, s)" "stats_inv s"
    "\<forall>b m. st_heap (w_stats w) b = Some m \<longrightarrow> st_heap s b = Some m"
    using stat_test_data_ok [OF w(2,4,7), of n] by (elim exE conjE) (rule that)
  have new: "mem_ok e" "same_oracle (w_env w) e"
    "\<And>b m. st_heap s b = Some m \<Longrightarrow> st_heap (w_stats w) b = Some m \<or> st_heap (w_stats w) b = None \<and> cs_refcnt m = 1"
    using test_data_new [OF w(2,4,7) t(1)] by blast+
  have "card (refs (w_conns w) b) < unat (cs_refcnt m)" if "st_heap s b = Some m" for b m
  proof (cases "st_heap (w_stats w) b")
    case None
    then have "refs (w_conns w) b = {}" using w(3) by (auto simp: refs_inv_def)
    then show ?thesis using new(3) [OF that] None by simp
  next
    case (Some m')
    then show ?thesis using new(3) [OF that] w(3) by (auto simp: refs_inv_def)
  qed
  moreover have "st_heap s b \<noteq> None" if "refs (w_conns w) b \<noteq> {}" for b
    using that w(3) t(3) by (fastforce simp: refs_inv_def)
  ultimately have "refs_inv (w_conns w) (st_heap s)" using w(3) by (simp add: refs_inv_def)
  moreover have "room k s" unfolding room_def
  proof (intro allI impI)
    fix b m
    assume "st_heap s b = Some m"
    then show "unat (cs_refcnt m) + k < 65536" using new(3) [of b m] w(5) k by (auto simp: room_def)
  qed
  ultimately have "starting k (set_stats s (w\<lparr>w_env := e\<rparr>))"
    using w(1,6,7) t(2) new(1,2) by (simp add: starting_def world_inv_def set_stats_def same_oracle_def)
  then show ?thesis using t(1) by blast
qed

section \<open>Workers\<close>

text \<open>What starting the workers leaves alone: of the settings, only host names change.\<close>

definition set_up :: "world \<Rightarrow> world \<Rightarrow> bool" where
  "set_up w w' \<longleftrightarrow>
     listen_conn w' = listen_conn w \<and> fixed_item w' = fixed_item w \<and> init_count w' = init_count w \<and>
     threads (config w') = threads (config w) \<and> users (config w') = users (config w) \<and> tcpport (config w') = tcpport (config w) \<and>
     bk_len (s_backends (config w')) = bk_len (s_backends (config w)) \<and>
     map_option length (hosts (s_backends (config w'))) = map_option length (hosts (s_backends (config w)))"

lemma set_up_trans: "set_up w w' \<Longrightarrow> set_up w' w'' \<Longrightarrow> set_up w w''"
  by (simp add: set_up_def)

lemma same_rest_set_up:
  assumes "same_rest w w'"
  shows "set_up w w'"
proof -
  have c: "(config w')\<lparr>s_stats := new_stats\<rparr> = (config w)\<lparr>s_stats := new_stats\<rparr>" using assms by (simp add: same_rest_def)
  from arg_cong [OF c, of threads] arg_cong [OF c, of users] arg_cong [OF c, of tcpport] arg_cong [OF c, of s_backends]
  show ?thesis using assms by (simp add: set_up_def same_rest_def)
qed

lemma starting_frame:
  assumes "starting k w" and "w_conns w' = w_conns w" and "w_fresh w' = w_fresh w" and "w_free w' = w_free w"
    and "w_stats w' = w_stats w" and "mem_ok (w_env w')" and "same_oracle (w_env w) (w_env w')"
  shows "starting k w'"
  using assms by (simp add: starting_def world_inv_def same_oracle_def)

lemma memcache_connect_starting:
  assumes st: "starting (Suc k) w" and k: "k < 65530" and h: "hosts (s_backends (config w)) = Some hs" "i < length hs"
  shows "\<exists>p w'. memcache_connect net w i = Ok (p, w') \<and> starting k w' \<and> set_up w w'"
proof -
  obtain host port where sp: "split_host (hs ! i) = (host, port)" by fastforce
  define w1 where "w1 = w\<lparr>config := (config w)\<lparr>s_backends := (s_backends (config w))\<lparr>hosts := Some (hs[i := host])\<rparr>\<rparr>\<rparr>"
  have w1: "starting (Suc k) w1" "set_up w w1"
  proof -
    show "starting (Suc k) w1"
      by (rule starting_frame [OF st]) (use st in \<open>simp_all add: w1_def starting_def same_oracle_def\<close>)
    show "set_up w w1" using h(1) by (simp add: set_up_def w1_def)
  qed
  have k1: "starting k w1" using starting_mono [OF w1(1)] by simp
  have "memcache_connect net w i = (case net host port of
               Blocking fd \<Rightarrow> Ok (None, close_fd fd w1)
             | Connected fd \<Rightarrow> conn_new w1 memcached_conn 0 fd conn_new_cmd EV_READ_PERSIST DATA_BUFFER_SIZE
             | _ \<Rightarrow> Ok (None, w1))"
    using h sp by (simp add: memcache_connect_def w1_def split: net_result.splits)
  moreover have "set_up w (close_fd fd w1)" for fd using w1(2) by (simp add: set_up_def close_fd_def)
  moreover have "\<exists>p w'. conn_new w1 memcached_conn 0 fd conn_new_cmd EV_READ_PERSIST DATA_BUFFER_SIZE = Ok (p, w') \<and>
      starting k w' \<and> set_up w w'" for fd
  proof -
    obtain a w' where "conn_new w1 memcached_conn 0 fd conn_new_cmd EV_READ_PERSIST DATA_BUFFER_SIZE = Ok (Some a, w')"
      "starting k w'" "same_rest w1 w'"
      using starting_conn_new [OF w1(1) k, of DATA_BUFFER_SIZE 0 memcached_conn fd conn_new_cmd EV_READ_PERSIST]
      by (auto simp: DATA_BUFFER_SIZE_def)
    then show ?thesis using set_up_trans [OF w1(2) same_rest_set_up] by blast
  qed
  ultimately show ?thesis using k1 w1(2) by (cases "net host port") simp_all
qed

lemma connect_backends_starting:
  assumes "starting (n + k) w" and "n + k < 65530" and "hosts (s_backends (config w)) = Some hs" and "i + n \<le> length hs"
  shows "\<exists>mcs' w'. connect_backends net True i n mcs w = Ok (mcs', w') \<and> starting k w' \<and> set_up w w'"
  using assms
proof (induction n arbitrary: i mcs w hs)
  case 0
  then show ?case by (simp add: set_up_def)
next
  case (Suc n)
  obtain p w1 where c: "memcache_connect net w i = Ok (p, w1)" "starting (n + k) w1" "set_up w w1"
    using memcache_connect_starting [of "n + k" w hs i net] Suc.prems by auto
  obtain hs1 where h1: "hosts (s_backends (config w1)) = Some hs1" "length hs1 = length hs"
    using c(3) Suc.prems(3) by (auto simp: set_up_def)
  have "\<exists>mcs' w'. connect_backends net True (i + 1) n mcs w1 = Ok (mcs', w') \<and> starting k w' \<and> set_up w1 w'" for mcs
    using Suc.IH [OF c(2) _ h1(1), of "i + 1" mcs] Suc.prems(2,4) h1(2) by simp
  then show ?case using c(1) set_up_trans [OF c(3)] by (cases p) (simp, metis)+
qed

lemma setup_thread_starting:
  assumes st: "starting (bk_len (s_backends (config w)) + k) w" and k: "bk_len (s_backends (config w)) + k < 65530"
    and h: "hosts (s_backends (config w)) = Some hs" "bk_len (s_backends (config w)) \<le> length hs"
  shows "\<exists>t w'. setup_thread net fds w = Ok (t, w') \<and> starting k w' \<and> set_up w w'"
proof -
  let ?n = "bk_len (s_backends (config w))" and ?e = "(w_env w)\<lparr>events := Suc (events (w_env w)), allocs := Suc (Suc (Suc (allocs (w_env w))))\<rparr>"
  have s: "mem_ok (w_env w)" "\<forall>j. event_ok (w_env w) j" using st by (simp_all add: starting_def)
  have "starting (?n + k) (w\<lparr>w_env := ?e\<rparr>)"
    by (rule starting_frame [OF st]) (use s(1) in \<open>simp_all add: mem_ok_def same_oracle_def\<close>)
  then obtain mcs w' where c: "connect_backends net True 0 ?n [] (w\<lparr>w_env := ?e\<rparr>) = Ok (mcs, w')" "starting k w'" "set_up (w\<lparr>w_env := ?e\<rparr>) w'"
    using connect_backends_starting [of ?n k "w\<lparr>w_env := ?e\<rparr>" hs 0 net "[]"] k h by auto
  have "set_up w w'" using c(3) by (simp add: set_up_def)
  moreover have "setup_thread net fds w = Ok (\<lparr>notify_receive_fd = fst fds, notify_send_fd = fst (snd fds), notify_pipe = [], pipe_faults = snd (snd fds),
      new_conn_queue = \<lparr>cq_head = None, cq_tail = None\<rparr>, memcache = mcs\<rparr>, w')"
    using c(1) s by (simp add: setup_thread_def alloc_def event_call_def conn_queue_new_def mem_ok_def)
  ultimately show ?thesis using c(2) by blast
qed

lemma setup_threads_starting:
  assumes "starting (length ps * bk_len (s_backends (config w)) + k) w" and "length ps * bk_len (s_backends (config w)) + k < 65530"
    and "hosts (s_backends (config w)) = Some hs" and "bk_len (s_backends (config w)) \<le> length hs" and "None \<notin> set ps"
  shows "\<exists>w'. setup_threads net ps w = Ok w' \<and> starting k w' \<and> set_up w w'"
  using assms
proof (induction ps arbitrary: w hs)
  case Nil
  then show ?case by (simp add: set_up_def)
next
  case (Cons p ps)
  let ?n = "bk_len (s_backends (config w))"
  obtain fds where p: "p = Some fds" using Cons.prems(5) by (cases p) auto
  obtain t w1 where s: "setup_thread net fds w = Ok (t, w1)" "starting (length ps * ?n + k) w1" "set_up w w1"
    using setup_thread_starting [of w "length ps * ?n + k" hs net fds] Cons.prems by (auto simp: algebra_simps)
  let ?w = "w1\<lparr>w_threads := w_threads w1 @ [t]\<rparr>"
  have w: "starting (length ps * ?n + k) ?w"
    by (rule starting_frame [OF s(2)]) (use s(2) in \<open>simp_all add: starting_def same_oracle_def\<close>)
  have set: "set_up w ?w" using s(3) by (simp add: set_up_def)
  then obtain hs1 where h1: "hosts (s_backends (config ?w)) = Some hs1" "length hs1 = length hs" "bk_len (s_backends (config ?w)) = ?n"
    using Cons.prems(3) by (auto simp: set_up_def)
  obtain w' where "setup_threads net ps ?w = Ok w'" "starting k w'" "set_up ?w w'"
    using Cons.IH [of ?w hs1] w h1 Cons.prems(2,4,5) by auto
  then show ?case using s(1) p set_up_trans [OF set] by auto
qed

lemma create_workers_starting:
  assumes "starting k w" and "\<forall>c \<in> set cs. c = (True, True)"
  shows "\<exists>w'. create_workers m cs w = Ok w' \<and> starting k w' \<and> set_up w w'"
  using assms
proof (induction cs arbitrary: w)
  case Nil
  then show ?case by (simp add: set_up_def)
next
  case (Cons c cs)
  have c: "c = (True, True)" using Cons.prems(2) by simp
  have "\<exists>w1. create_worker m True True w = Ok w1 \<and> (w1 = w \<or> (\<exists>x. w1 = w\<lparr>current_cpu := x\<rparr>))"
    by (cases "next_cpu m (current_cpu w) 0 MAX_CPUS"; cases "thread_affinity (config w)") (auto simp: create_worker_def)
  then obtain w1 where w1: "create_worker m True True w = Ok w1" "w1 = w \<or> (\<exists>x. w1 = w\<lparr>current_cpu := x\<rparr>)" by blast
  have "starting k w1" by (rule starting_frame [OF Cons.prems(1)]) (use Cons.prems(1) w1(2) in \<open>auto simp: starting_def same_oracle_def\<close>)
  then obtain w' where "create_workers m cs w1 = Ok w'" "starting k w'" "set_up w1 w'" using Cons.IH Cons.prems(2) by auto
  moreover have "set_up w w1" using w1(2) by (auto simp: set_up_def)
  ultimately show ?case using c w1(1) set_up_trans by auto
qed

lemma register_workers:
  "(register_thread_initialized ^^ n) w = w\<lparr>init_count := init_count w + int n\<rparr>"
  by (induction n) (simp_all add: register_thread_initialized_def)

lemma thread_init_starting:
  assumes st: "starting (nat n * bk_len (s_backends (config w)) + k) w" and k: "nat n * bk_len (s_backends (config w)) + k < 65530"
    and h: "hosts (s_backends (config w)) = Some hs" "bk_len (s_backends (config w)) \<le> length hs"
    and p: "\<forall>i < nat n. pipe i \<noteq> None" "\<forall>i < nat n. create i = (True, True)" "init_count w = 0"
  shows "\<exists>w'. thread_init net pipe m create n w = Ok w' \<and> starting k w' \<and> set_up w (w'\<lparr>init_count := 0\<rparr>)"
proof -
  let ?e = "(w_env w)\<lparr>allocs := Suc (allocs (w_env w))\<rparr>"
  let ?w = "w\<lparr>w_env := ?e, w_threads := []\<rparr>"
  let ?ps = "map pipe [0..<nat n]"
  have s: "mem_ok (w_env w)" using st by (simp add: starting_def)
  have w: "starting (length ?ps * bk_len (s_backends (config ?w)) + k) ?w"
    by (rule starting_frame) (use st s in \<open>simp_all add: mem_ok_def same_oracle_def\<close>)
  have ps: "None \<notin> set ?ps" using p(1) by force
  obtain w1 where w1: "setup_threads net ?ps ?w = Ok w1" "starting k w1" "set_up ?w w1"
    using setup_threads_starting [OF w _ _ _ ps] k h by auto
  have "\<forall>c \<in> set (map create [0..<nat n]). c = (True, True)" using p(2) by auto
  then obtain w2 where w2: "create_workers m (map create [0..<nat n]) w1 = Ok w2" "starting k w2" "set_up w1 w2"
    using create_workers_starting [OF w1(2)] by blast
  let ?w' = "w2\<lparr>init_count := init_count w2 + int (nat n)\<rparr>"
  have set: "set_up w w2" using set_up_trans [OF w1(3) w2(3)] by (simp add: set_up_def)
  have "thread_init net pipe m create n w = Ok ?w'"
    using s w1(1) w2(1) set p(3) by (simp add: thread_init_def alloc_def mem_ok_def register_workers Let_def set_up_def)
  moreover have "starting k ?w'" by (rule starting_frame [OF w2(2)]) (use w2(2) in \<open>simp_all add: starting_def same_oracle_def\<close>)
  moreover have "set_up w (?w'\<lparr>init_count := 0\<rparr>)" using set p(3) by (simp add: set_up_def)
  ultimately show ?thesis by blast
qed

section \<open>Listening\<close>

lemma listen_all_frame: "listen_all rs k w = Ok (r, w') \<Longrightarrow> same_queues w w' \<and> fixed_item w' = fixed_item w"
proof (induction rs arbitrary: k w)
  case Nil
  then show ?case by simp
next
  case (Cons x rs)
  have close: "same_queues w (close_fd fd w) \<and> fixed_item (close_fd fd w) = fixed_item w" for fd
    by (simp add: same_queues_def close_fd_def)
  obtain fd em w1 where n: "new_socket x w = (fd, em, w1)" "w1 = w \<or> w1 = close_fd fd w \<or> (\<exists>d. w1 = close_fd d w)"
    by (cases x) (auto simp: new_socket_def)
  then have w1: "same_queues w w1 \<and> fixed_item w1 = fixed_item w" using close by (auto simp: same_queues_def)
  have kept: "same_queues w w' \<and> fixed_item w' = fixed_item w" if "same_queues w1 w' \<and> fixed_item w' = fixed_item w1"
    using w1 that same_queues_trans by metis
  have conn: "same_queues w1 w' \<and> fixed_item w' = fixed_item w1"
    if c: "conn_new w1 client_conn 0 fd conn_listening EV_READ_PERSIST 1 = Ok (Some a, w2)" "w_conns w2 a = Some c"
      "listen_all rs (k + 1) (put_conn a (c\<lparr>c_next := listen_conn w2\<rparr>) w2\<lparr>listen_conn := Some a\<rparr>) = Ok (r, w')" for a w2 c
  proof -
    have "same_rest w1 w2" using conn_new_rest [OF c(1)] .
    then show ?thesis using Cons.IH [OF c(3)] same_rest_queues [of w1 w2] by (auto simp: same_queues_def put_conn_def same_rest_def)
  qed
  have after: "same_queues w1 w' \<and> fixed_item w' = fixed_item w1"
    if "listen_all rs k (close_fd fd w1) = Ok (r, w') \<or> listen_all rs k w1 = Ok (r, w') \<or> w' = close_fd fd w1"
    using that Cons.IH [of k "close_fd fd w1"] Cons.IH [of k w1] by (auto simp: same_queues_def close_fd_def)
  show ?case
    using Cons.prems n(1) kept conn after
    by (cases x) (auto simp: bindR_eq_Ok with_conn_def split: if_splits option.splits)
qed

section \<open>The stages of the start\<close>

lemma settings_booted:
  assumes "settings_init e = Ok (s0, e0)" and "settings_parse atof e0 opts s0 = Ok (True, e1, s)"
    and "mem_ok e" and "\<forall>j. event_ok e j" and "\<forall>j. 0 \<le> rands e j"
  obtains hs where "mem_ok e1" "\<forall>j. event_ok e1 j" "\<forall>j. 0 \<le> rands e1 j" "s_stats s = new_stats" "0 < threads s"
    "hosts (s_backends s) = Some hs" "bk_len (s_backends s) \<le> length hs"
proof -
  have e0: "e0 = e\<lparr>allocs := Suc (Suc (Suc (allocs e)))\<rparr>" "hosts (s_backends s0) \<noteq> None" "s_stats s0 = new_stats"
    using assms(1,3) by (auto simp: settings_init_def alloc_def mem_ok_def split: if_splits)
  have kept: "same_oracle e0 e1" "mem_ok e0 \<longrightarrow> mem_ok e1" "s_stats s = new_stats" "hosts (s_backends s) \<noteq> None"
    using settings_parse_kept [OF assms(2)] e0(2,3) by (simp_all add: settings_kept_def)
  have ok: "settings_ok s" using settings_parse_ok [OF assms(2) settings_init_ok [OF assms(1)]] .
  obtain hs where h: "hosts (s_backends s) = Some hs" using kept(4) by blast
  then have "bk_len (s_backends s) \<le> length hs" "0 < threads s" using ok by (auto simp: settings_ok_def backends_ok_def)
  moreover have "mem_ok e1" "\<forall>j. event_ok e1 j" "\<forall>j. 0 \<le> rands e1 j"
    using kept(1,2) assms(3-5) by (simp_all add: e0(1) mem_ok_def same_oracle_def)
  ultimately show thesis using that h kept(3) by blast
qed

lemma serving_started:
  assumes "starting (length rs) w1" and "listen_conn w1 = None" and "length rs < 65530"
    and "lookup_addr (if tcpport (config w1) = -1 then 0 else tcpport (config w1)) = Some rs"
    and "list_all tolerable rs" and "listening rs \<noteq> []"
  obtains w2 w3 where
    "(if users (config w1) > 0 then bindR (stat_test_data (nat (users (config w1))) (w_env w1) (w_stats w1)) (\<lambda>(e, st).
        Ok (set_stats st (w1\<lparr>w_env := e\<rparr>))) else Ok w1) = Ok w2"
    "server_socket lookup_addr (tcpport (config w2)) w2 = Ok (0, w3)" "starting 0 w3" "same_queues w1 w3"
    "fixed_item w3 = fixed_item w1" "listeners w3 (listen_conn w3) (rev (listening rs))"
proof -
  obtain e3 st where t: "stat_test_data (nat (users (config w1))) (w_env w1) (w_stats w1) = Ok (e3, st)"
    "starting (length rs) (set_stats st (w1\<lparr>w_env := e3\<rparr>))"
    using starting_test_data [OF assms(1)] assms(3) by fastforce
  define w2 where "w2 = (if users (config w1) > 0 then set_stats st (w1\<lparr>w_env := e3\<rparr>) else w1)"
  have w2: "starting (length rs) w2" "same_queues w1 w2" "listen_conn w2 = None" "tcpport (config w2) = tcpport (config w1)"
    "fixed_item w2 = fixed_item w1"
    using t(2) assms(1,2) by (auto simp: w2_def same_queues_def set_stats_def)
  have "listeners w2 (listen_conn w2) []" using w2(3) by simp
  from listen_all_ok [OF w2(1) assms(3,5) this, of 0] assms(6)
  obtain w3 where w3: "listen_all rs 0 w2 = Ok (0, w3)" "starting 0 w3" "listeners w3 (listen_conn w3) (rev (listening rs))"
    by auto
  note fr = listen_all_frame [OF w3(1)]
  show thesis
  proof (rule that)
    show "(if users (config w1) > 0 then bindR (stat_test_data (nat (users (config w1))) (w_env w1) (w_stats w1)) (\<lambda>(e, st).
        Ok (set_stats st (w1\<lparr>w_env := e\<rparr>))) else Ok w1) = Ok w2" using t(1) by (simp add: w2_def)
    show "server_socket lookup_addr (tcpport (config w2)) w2 = Ok (0, w3)"
      using w3(1) w2(4) assms(4) by (simp add: server_socket_def)
    show "same_queues w1 w3" using same_queues_trans [OF w2(2)] fr by blast
    show "fixed_item w3 = fixed_item w1" using fr w2(5) by simp
  qed (fact w3)+
qed

section \<open>Properties\<close>

text \<open>
  C6. The server starts. Let the options be accepted, memory be available, libevent and the thread and pipe calls
  succeed, and let every address that \<open>getaddrinfo\<close> returns be usable, in use, or without a socket, with at least one
  usable. Then \<open>main\<close> reaches its event loop, with the item of \<open>item_init_system\<close>, as many workers as asked for, all
  queues and pipes empty, one listening connection for every usable address, and with the invariant of connections, free
  list, statistics and reference counts; this holds whichever backends can be reached.
\<close>

theorem main_starts:
  assumes "settings_init e = Ok (s0, e0)" and "settings_parse atof e0 opts s0 = Ok (True, e1, s)"
    and "mem_ok e" and "\<forall>j. event_ok e j" and "\<forall>j. 0 \<le> rands e j"
    and "\<forall>i < nat (threads s). pipe i \<noteq> None" and "\<forall>i < nat (threads s). create i = (True, True)"
    and "lookup_addr (if tcpport s = -1 then 0 else tcpport s) = Some rs" and "list_all tolerable rs" and "listening rs \<noteq> []"
    and "nat (threads s) * bk_len (s_backends s) + length rs < 65530"
  shows "\<exists>w. main True atof opts net pipe m create lookup_addr e = Ok (Inr w) \<and> world_inv w \<and> mem_ok (w_env w) \<and>
    threads_inv w (replicate (nat (threads s)) []) \<and> (\<forall>th \<in> set (w_threads w). notify_pipe th = []) \<and> threads (config w) = threads s \<and> 0 < threads s \<and> last_thread w = -1 \<and>
    listeners w (listen_conn w) (rev (listening rs)) \<and> (\<exists>it. fixed_item w = Some it \<and> sized it)"
proof -
  obtain hs where e1: "mem_ok e1" "\<forall>j. event_ok e1 j" "\<forall>j. 0 \<le> rands e1 j"
    and s: "s_stats s = new_stats" "0 < threads s" "hosts (s_backends s) = Some hs" "bk_len (s_backends s) \<le> length hs"
    using settings_booted [OF assms(1-5)] .
  define e2 where "e2 = e1\<lparr>allocs := Suc (Suc (Suc (allocs e1)))\<rparr>"
  define it where "it = \<lparr>nkey = 4 :: 8 word, nsuffix = 5 :: 8 word, nbytes = 7 :: int, data = take 7 fixed_value\<rparr>"
  define f where "f = \<lparr>freeconns = replicate 200 (0 :: addr), freetotal = 200, freecurr = 0\<rparr>"
  define w where "w = \<lparr>w_env = e2, config = s, fixed_item = Some it, w_conns = (\<lambda>_. None), w_fresh = 1, w_free = f,
      listen_conn = None, w_closed = [], w_threads = [], last_thread = -1, w_qheap = (\<lambda>_. None), w_qfresh = 1,
      init_count = 0, current_cpu = -1\<rparr>"
  have "starting (nat (threads s) * bk_len (s_backends (config w)) + length rs) w"
    using e1 s(1) assms(11)
    by (simp add: starting_def w_def e2_def f_def mem_ok_def world_inv_def conns_inv_def free_inv_def free_content_def refs_inv_def refs_def
        room_def stats_inv_new)
  then obtain w1 where w1: "thread_init net pipe m create (threads s) w = Ok w1" "starting (length rs) w1" "set_up w (w1\<lparr>init_count := 0\<rparr>)"
    using thread_init_starting [of "threads s" w "length rs" hs pipe create net m] assms(6,7,11) s by (auto simp: w_def)
  have kept: "listen_conn w1 = None" "tcpport (config w1) = tcpport s" "fixed_item w1 = Some it"
    using w1(3) by (simp_all add: set_up_def w_def)
  have small: "length rs < 65530" and addr: "lookup_addr (if tcpport (config w1) = -1 then 0 else tcpport (config w1)) = Some rs"
    using assms(8,11) kept(2) by (simp_all split: if_splits)
  obtain w2 w3 where w2: "(if users (config w1) > 0 then bindR (stat_test_data (nat (users (config w1))) (w_env w1) (w_stats w1))
        (\<lambda>(e, st). Ok (set_stats st (w1\<lparr>w_env := e\<rparr>))) else Ok w1) = Ok w2"
    "server_socket lookup_addr (tcpport (config w2)) w2 = Ok (0, w3)"
    and w3: "starting 0 w3" "same_queues w1 w3" "fixed_item w3 = fixed_item w1" "listeners w3 (listen_conn w3) (rev (listening rs))"
    using serving_started [of rs w1 lookup_addr] w1(2) kept(1) small addr assms(9,10) by blast
  have "conn_init (snd (alloc e1)) = (f, snd (alloc (snd (alloc e1))))" "item_init_system (snd (alloc (snd (alloc e1)))) = Ok (it, e2)"
    using e1(1) by (simp_all add: conn_init_def alloc_def f_def item_init_system_def it_def e2_def mem_ok_def)
  then have "main True atof opts net pipe m create lookup_addr e = Ok (Inr w3)"
    using assms(1,2) w1(1) w2 by (simp add: main_def alloc_def w_def Let_def)
  moreover have "threads_inv w3 (replicate (nat (threads s)) [])" "threads (config w3) = threads s" "last_thread w3 = -1"
    "\<forall>th \<in> set (w_threads w3). notify_pipe th = []"
    using w3(2) thread_init_queues(1-4) [OF w1(1)] thread_init_pipes(1) [OF w1(1)] threads_inv_cong [of w1 w3]
    by (simp_all add: same_queues_def w_def)
  moreover have "world_inv w3" "mem_ok (w_env w3)" "fixed_item w3 = Some it" "sized it"
    using w3(1,3) kept(3) by (simp_all add: starting_def it_def sized_def)
  ultimately show ?thesis using w3(4) s(2) by (intro exI [of _ w3]) simp
qed

theorem main_starts_witness:
  "\<exists>w. main True (\<lambda>_. 0) [(CHR ''t'', ''4'')] (\<lambda>_ _. NoAddress) (\<lambda>i. Some (int i + 3, int i + 13, [])) (\<lambda>_. True)
     (\<lambda>_. (True, True)) (\<lambda>_. Some [Listens 5, BindFails 6 True]) calm_env = Ok (Inr w) \<and> world_inv w \<and>
     threads (config w) = 4 \<and> listeners w (listen_conn w) [5]"
proof -
  define s0 where "s0 = fst (projr (the (settings_init calm_env)))"
  define e0 where "e0 = snd (alloc (snd (alloc (snd (alloc calm_env)))))"
  have i: "settings_init calm_env = Ok (s0, e0)"
    by (simp add: s0_def e0_def settings_init_def alloc_def calm_env_def)
  have four: "atoi ''4'' = 4"
    by (simp add: atoi_def strtol_def isspace_def isdigit_def digit_val_def of_char_def)
  then have p: "settings_parse (\<lambda>_. 0) e0 [(CHR ''t'', ''4'')] s0 = Ok (True, e0, s0\<lparr>threads := 4\<rparr>)"
    by (simp add: settings_opt_def)
  have n: "bk_len (s_backends s0) = 0" by (simp add: s0_def settings_init_def alloc_def calm_env_def)
  show ?thesis
    using main_starts [OF i p, of "\<lambda>i. Some (int i + 3, int i + 13, [])" "\<lambda>_. (True, True)" "\<lambda>_. Some [Listens 5, BindFails 6 True]"
        "[Listens 5, BindFails 6 True]" "\<lambda>_ _. NoAddress" "\<lambda>_. True"] n
    by (auto simp: mem_ok_def calm_env_def)
qed

end
