(* ===== verification/Spec2Isabelle.thy ===== *)
theory Spec2Isabelle
  imports Arrivals Locking Barrier Races Startup
begin

text \<open>
  A model of the synthetic memcached server (the C program under \<open>src/src\<close>) and the theorems that make it correct.

  \<^bold>\<open>The program.\<close> The server speaks the memcached text protocol and answers every get with one fixed item. The main
  thread parses the options (\<open>settings.c\<close>), starts worker threads (\<open>threads.c\<close>), listens (\<open>server.c\<close>) and hands
  every accepted descriptor to a worker, round robin, through a queue and a notification pipe. A worker makes a
  connection of it (\<open>connections.c\<close>) and runs the state machine \<open>drive_machine\<close> (\<open>server.c\<close>) on every libevent event:
  read from the socket, cut off a line, tokenize and dispatch it (\<open>protocol.c\<close>), run the command (\<open>commands.c\<close>), which
  builds a list of message headers and \<open>iovec\<close>s, and send that list. Clients are counted in a hash map of
  reference-counted objects (\<open>stats.c\<close>, \<open>locking.h\<close>). Connections to memcached backends keep a queue of requests in
  flight (\<open>memcache_conn.c\<close>).

  \<^bold>\<open>How it is modelled.\<close> A C function is a HOL function of the same name on explicit state. \<open>'a res\<close> (\<open>Prelude\<close>) is its
  result: \<open>Ok x\<close> a return, \<open>Err e\<close> an exit, a failed assertion, an access outside an object or through a null pointer,
  and \<open>None\<close> a call that never returns. Loops whose end is not obvious are \<open>partial_function\<close>s, so that termination
  is a theorem. Buffers and arrays are lists as long as their allocation, pointers into them are offsets, pointers to
  shared objects are addresses in a heap; 16-bit reference counts are words, and \<open>i32\<close> is the wrap-around of an
  \<open>int\<close> where it can happen. \<open>Env\<close> holds what the system answers: allocation, libevent, sockets, random numbers, and
  what memory holds before it is written.

  \<^bold>\<open>The theories\<close>, with the code they model and what they show.

  \<^item> \<open>Prelude\<close>, \<open>Env\<close>: results, integers, C strings, buffers; the environment and its laws (a read takes a prefix of the
    incoming stream, a send appends a prefix of the message to the wire).
  \<^item> \<open>Fsm\<close> (\<open>fsm.h\<close>): the states, ordered as in C. \<open>Utils\<close> (\<open>utils.c\<close>): \<open>safe_strtol\<close>, characterised exactly.
  \<^item> \<open>Tokens\<close> (\<open>protocol.c\<close>): \<open>tokenize_command\<close> agrees with a reference splitter and inverts joining words.
  \<^item> \<open>Items\<close> (\<open>items.c\<close>): the fixed item. \<open>Stats\<close> (\<open>stats.c\<close>, \<open>locking.h\<close>): the hash map of chains implements the locale
    \<open>client_registry\<close>, a map from clients to objects. \<open>Settings\<close> (\<open>settings.c\<close>): which command lines are accepted and what
    the settings then are.
  \<^item> \<open>Conn\<close>, \<open>Output\<close> (\<open>connections.c\<close>): the connection record, events, the queue of requests, and the output lists,
    related by \<open>out_rep\<close> to the messages they stand for. \<open>Transmit\<close> (\<open>server.c\<close>): \<open>error_response\<close>, and \<open>transmit\<close>, which
    conserves the bytes sent and pending.
  \<^item> \<open>Commands\<close> (\<open>commands.c\<close>), \<open>Protocol\<close> (\<open>protocol.c\<close>): the answers to get, update and stats lines and which lines are
    commands. \<open>Frames\<close>: building an answer touches neither sockets nor events.
  \<^item> \<open>Conn_Queue\<close> (\<open>threads.c\<close>): the linked queue implements the locale \<open>fifo\<close>. \<open>Pool\<close> (\<open>connections.c\<close>): the free list
    implements the locale \<open>pool\<close>; \<open>conn_new\<close> and \<open>conn_close\<close> keep \<open>world_inv\<close>, the invariant of connections, free list,
    statistics and reference counts. \<open>Memcache_Conn\<close> (\<open>memcache_conn.c\<close>): responses are matched to requests in order.
  \<^item> \<open>Threads\<close> (\<open>threads.c\<close>): starting the workers; \<open>handover\<close> is the relation of all interleavings of accepts and worker
    events, with round robin and no loss as its invariant, also when reads and writes on the notification pipes fail.
  \<^item> \<open>Input\<close>, \<open>Request\<close> (\<open>server.c\<close>): \<open>read_network\<close> conserves the input stream, \<open>read_command\<close> runs exactly one line.
  \<^item> \<open>Driver\<close> (\<open>server.c\<close>): the state machine, one operation per state. \<open>Serving\<close>: every event on a client connection is
    handled to its end, by a lexicographic measure of the requests left in this event, the way to the next command, and
    what the peer can still deliver or accept. \<open>Session\<close>: \<open>serve\<close>, a reference server from the whole input of a client to
    the whole answer; \<open>promise\<close> relates a connection to the answer it owes, and every turn keeps it. So the driver refines
    the reference server, in whatever chunks the socket delivers and accepts, and it fails on no input
    but the three kinds excluded by \<open>tame\<close>, one of which is a get: the item that \<open>item_init_system\<close> builds is ten bytes
    shorter than its header says. \<open>Clients\<close>: the same for all clients at once, whose events do not disturb each other.
  \<^item> \<open>Server\<close> (\<open>server.c\<close>): listening sockets and \<open>main\<close> up to the event loop. \<open>Startup\<close>: when the options are accepted and
    the system provides what is asked of it, \<open>main\<close> reaches the event loop, in a state with the invariants that the
    theorems about the hand-over of connections and about clients start from. \<open>Arrivals\<close>: a worker that takes a descriptor
    from its queue adds a client to those that the theorems of \<open>Clients\<close> are about.
  \<^item> \<open>Locking\<close> (\<open>locking.h\<close>): critical sections statement by statement, run by any number of threads; the locale
    \<open>critical_sections\<close> has what makes them atomic, with interpretations for the object of a client and for the queue of
    a worker. \<open>Barrier\<close> (\<open>threads.c\<close>): the condition variable on which \<open>thread_init\<close> waits. \<open>Races\<close> (\<open>stats.c\<close>):
    \<open>get_client_stats\<close>, which takes no lock, alone and in two threads at once.

  \<^bold>\<open>Bounds.\<close> No fuel is used: the loops of \<open>conn_add_iov\<close>, of \<open>process_get_command\<close>, of \<open>read_network\<close>, of the two chain
  walks in \<open>stats.c\<close> and of \<open>drive_machine\<close> are proved to end under the stated invariants; the loop of
  \<open>process_get_command\<close> does not end when memory runs out at the wrong moment, which is a theorem as well.

  \<^bold>\<open>Threads.\<close> Outside of \<open>Locking\<close>, \<open>Barrier\<close> and \<open>Races\<close> every critical section is one step, and so is every handler: the
  interleavings that matter then, those of dispatcher and workers on the queues, are the sequences of \<open>handover\<close>, and
  those of the clients the sequences of \<open>attended\<close>. For the locks of the client objects and of the queues \<open>Locking\<close>
  justifies this. The map of the clients has no lock that is taken, so for more than one worker the
  theorems that involve \<open>get_client_stats\<close> hold up to the race of \<open>Races\<close>.

  \<^bold>\<open>Not modelled.\<close> Memory models weaker than sequential consistency. Output to the terminal, the SIGINT handler, which exits,
  \<open>usage\<close>, and the code that is commented out. libevent, \<open>getopt\<close>, \<open>atof\<close>, the GSL generators, name resolution and the
  socket and thread calls are parameters. The correctness of the driver is stated for client connections in the states
  that live code reaches; for backend connections and the timeout states only the operations are modelled.
\<close>

end
